(* ===== verification/Prelude.thy ===== *)
theory Prelude
  imports Main
begin

text \<open>
  What every component of the development shares: the reading of Go's machine integers and of
  \<^verbatim>\<open>time.Time\<close>, the result type of fallible operations, the generic lemmas on lists and
  association lists, and the locale in which a component's invariant is lifted from single
  critical sections to whole executions.
\<close>

named_theorems go_int \<open>the reading of Go's 64-bit arithmetic\<close>
named_theorems inv_rules \<open>invariants kept by one operation of a component\<close>

section \<open>Machine integers and time\<close>

text \<open>
  A Go \<^verbatim>\<open>int64\<close> is an \<^typ>\<open>int\<close> in the range below. \<open>wrap64\<close> is the two's complement reduction
  Go applies to every sum, difference and product; it is written out wherever the source relies on
  its arithmetic not overflowing.
\<close>

definition max_int64 :: int where
  "max_int64 = 9223372036854775807"

definition min_int64 :: int where
  "min_int64 = -9223372036854775808"

definition in_int64 :: "int \<Rightarrow> bool" where
  "in_int64 x \<longleftrightarrow> min_int64 \<le> x \<and> x \<le> max_int64"

definition wrap64 :: "int \<Rightarrow> int" where
  "wrap64 x = (x + 9223372036854775808) mod 18446744073709551616 - 9223372036854775808"

lemma wrap64_id [go_int]: "in_int64 x \<Longrightarrow> wrap64 x = x"
  by (simp add: wrap64_def in_int64_def min_int64_def max_int64_def)

lemma wrap64_0 [simp]: "wrap64 0 = 0"
  by (simp add: wrap64_def)

lemma wrap64_range: "in_int64 (wrap64 x)"
proof -
  have "0 \<le> (x + 9223372036854775808) mod 18446744073709551616"
    and "(x + 9223372036854775808) mod 18446744073709551616 < 18446744073709551616"
    by simp_all
  then show ?thesis
    by (simp add: wrap64_def in_int64_def min_int64_def max_int64_def)
qed

lemma in_int64_max [simp]: "in_int64 max_int64"
  by (simp add: in_int64_def min_int64_def max_int64_def)

lemma in_int64I [go_int]: "0 \<le> x \<Longrightarrow> x \<le> y \<Longrightarrow> in_int64 y \<Longrightarrow> in_int64 x"
  by (simp add: in_int64_def min_int64_def)

text \<open>
  A \<^verbatim>\<open>time.Time\<close> is its nanosecond count; \<^verbatim>\<open>t.Sub(u)\<close> saturates at the ends of
  \<^verbatim>\<open>time.Duration\<close> instead of wrapping.
\<close>

type_synonym time = int

definition time_sub :: "time \<Rightarrow> time \<Rightarrow> int" where
  "time_sub t u = max min_int64 (min max_int64 (t - u))"

lemma time_sub_pos [simp]: "0 < time_sub t u \<longleftrightarrow> u < t"
  by (auto simp: time_sub_def min_int64_def max_int64_def)

lemma time_sub_range: "in_int64 (time_sub t u)"
  by (auto simp: time_sub_def in_int64_def min_int64_def max_int64_def)

lemma time_sub_ge: "n \<le> max_int64 \<Longrightarrow> min_int64 < n \<Longrightarrow> n \<le> time_sub t u \<longleftrightarrow> n \<le> t - u"
  by (auto simp: time_sub_def)

lemma time_sub_exact: "min_int64 < time_sub t u \<Longrightarrow> time_sub t u < max_int64 \<Longrightarrow> time_sub t u = t - u"
  by (auto simp: time_sub_def)

definition nanosecond :: int where "nanosecond = 1"
definition second :: int where "second = 1000000000"
definition minute :: int where "minute = 60000000000"

section \<open>Executions of a component\<close>

text \<open>
  A component is a state and a step function: one event is one critical section of the source,
  carried out under the component's mutex, with everything the environment decides (the clock, the
  outcome of I/O, a peer's frame) as the event's arguments. An execution is a list of events.
\<close>

fun run :: "('s \<Rightarrow> 'e \<Rightarrow> 's) \<Rightarrow> 's \<Rightarrow> 'e list \<Rightarrow> 's" where
  "run step s [] = s"
| "run step s (e # es) = run step (step s e) es"

lemma run_append: "run step s (xs @ ys) = run step (run step s xs) ys"
  by (induction xs arbitrary: s) auto

text \<open>
  The contract every stateful component discharges: its invariant holds initially and each
  critical section keeps it.
\<close>

locale component =
  fixes start :: "'s \<Rightarrow> bool"
    and step :: "'s \<Rightarrow> 'e \<Rightarrow> 's"
    and inv :: "'s \<Rightarrow> bool"
  assumes start_inv: "start s \<Longrightarrow> inv s"
    and step_inv: "inv s \<Longrightarrow> inv (step s e)"
begin

lemma run_inv: "inv s \<Longrightarrow> inv (run step s es)"
  by (induction es arbitrary: s) (auto intro: step_inv)

lemma reachable_inv: "start s \<Longrightarrow> inv (run step s es)"
  by (rule run_inv) (rule start_inv)

text \<open>A measure no single event lowers is not lowered by an execution.\<close>

lemma run_mono:
  fixes m :: "'s \<Rightarrow> 'm :: preorder"
  assumes "\<And>s e. inv s \<Longrightarrow> m s \<le> m (step s e)" and "inv s"
  shows "m s \<le> m (run step s es)"
  using assms(2)
proof (induction es arbitrary: s)
  case Nil
  then show ?case by simp
next
  case (Cons e es)
  have "m s \<le> m (step s e)" using assms(1) Cons.prems by blast
  also have "\<dots> \<le> m (run step (step s e) es)"
    using Cons.IH step_inv Cons.prems by blast
  finally show ?case by simp
qed

end

section \<open>Lists\<close>

lemma list_all_mono_set: "list_all P xs \<Longrightarrow> (\<And>x. x \<in> set xs \<Longrightarrow> P x \<Longrightarrow> Q x) \<Longrightarrow> list_all Q xs"
  by (auto simp: list_all_iff)

end
