(* ===== verification/Scheduler.thy ===== *)
theory Scheduler
  imports Prelude "HOL-Library.Multiset"
begin

text \<open>
  The frame scheduler of a WebSocket connection (\<^verbatim>\<open>src/internal/ws/scheduler.go\<close>): three kinds of
  bounded queues (control, normal, one per transfer), a picker that serves control first and
  interleaves normal traffic with the transfers round robin, and the loop that runs one job at a
  time, reports every job's result and drains the queues when it stops. A job is an opaque
  identity; what its closure and its context return is decided by the environment.
\<close>

section \<open>Definitions\<close>

datatype sched_error =
  Canceled | DeadlineExceeded | Control_full | Request_full | Transfer_full | Job_failed string

text \<open>
  The fields of \<^verbatim>\<open>Scheduler\<close>; \<open>transfers = None\<close> is Go's nil map, which can be read but not written.
  The last four fields are the loop of \<^verbatim>\<open>Run\<close>: the job it has taken, whether that job is
  running, whether the loop has returned, and the results it has sent.
\<close>

record 'j sched =
  control :: "'j list"
  normal :: "'j list"
  transfers :: "(string \<rightharpoonup> 'j list) option"
  order :: "string list"
  failed :: "sched_error option"
  lastNormal :: bool
  ctx_err :: "sched_error option"
  current :: "'j option"
  started :: bool
  stopped :: bool
  results :: "('j \<times> sched_error option) list"

definition NewScheduler :: "'j sched" where
  "NewScheduler = \<lparr>control = [], normal = [], transfers = Some Map.empty, order = [], failed = None,
     lastNormal = False, ctx_err = None, current = None, started = False, stopped = False, results = []\<rparr>"

datatype 'j post_result = Posted "'j sched" | Refused sched_error | Nil_map_panic

text \<open>Indexing a possibly nil map: a missing key is the nil slice.\<close>

definition transfer_queue :: "'j sched \<Rightarrow> string \<Rightarrow> 'j list" where
  "transfer_queue s t =
     (case transfers s of None \<Rightarrow> [] | Some m \<Rightarrow> (case m t of None \<Rightarrow> [] | Some q \<Rightarrow> q))"

definition Post :: "'j sched \<Rightarrow> bool \<Rightarrow> string \<Rightarrow> 'j \<Rightarrow> 'j post_result" where
  "Post s priority transfer j =
     (case failed s of Some e \<Rightarrow> Refused e
      | None \<Rightarrow>
     (case ctx_err s of Some e \<Rightarrow> Refused e
      | None \<Rightarrow>
        if priority then
          (if length (control s) \<ge> 256 then Refused Control_full
           else Posted (s\<lparr>control := control s @ [j]\<rparr>))
        else if transfer = [] then
          (if length (normal s) \<ge> 128 then Refused Request_full
           else Posted (s\<lparr>normal := normal s @ [j]\<rparr>))
        else
          (let q = transfer_queue s transfer in
           if length q \<ge> 5 then Refused Transfer_full
           else
             (let s1 = (if length q = 0 then s\<lparr>order := order s @ [transfer]\<rparr> else s) in
              case transfers s1 of
                None \<Rightarrow> Nil_map_panic
              | Some m \<Rightarrow> Posted (s1\<lparr>transfers := Some (m(transfer \<mapsto> q @ [j]))\<rparr>)))))"

text \<open>\<open>next_job\<close> is \<^verbatim>\<open>next\<close>; \<open>None\<close> as the job is its \<open>false\<close>.\<close>

definition next_job :: "'j sched \<Rightarrow> 'j option \<times> 'j sched" where
  "next_job s =
     (case control s of
        j # rest \<Rightarrow> (Some j, s\<lparr>control := rest\<rparr>)
      | [] \<Rightarrow>
        (if normal s \<noteq> [] \<and> (order s = [] \<or> \<not> lastNormal s) then
           (Some (hd (normal s)), s\<lparr>normal := tl (normal s), lastNormal := True\<rparr>)
         else case order s of
           [] \<Rightarrow> (None, s)
         | t # rest \<Rightarrow>
             (let q = transfer_queue s t; q1 = tl q; s1 = s\<lparr>lastNormal := False\<rparr> in
              (Some (hd q),
               if q1 \<noteq> []
               then s1\<lparr>order := rest @ [t], transfers := map_option (\<lambda>m. m(t \<mapsto> q1)) (transfers s)\<rparr>
               else s1\<lparr>order := rest, transfers := map_option (\<lambda>m. m(t := None)) (transfers s)\<rparr>))))"

text \<open>
  The deferred function of \<^verbatim>\<open>Run\<close>. The transfer queues are a map that Go walks in an unspecified
  order; the model walks them in \<open>order\<close>, which lists exactly the keys of the map.
\<close>

definition drain :: "'j sched \<Rightarrow> 'j sched" where
  "drain s =
     (let fail = (case failed s of None \<Rightarrow> Canceled | Some e \<Rightarrow> e);
          send = map (\<lambda>j. (j, Some fail)) in
      s\<lparr>results := results s @ send (control s) @ send (normal s)
          @ concat (map (\<lambda>t. send (transfer_queue s t)) (order s)),
        control := [], normal := [], transfers := None, order := [], stopped := True\<rparr>)"

definition fatal :: "sched_error option \<Rightarrow> bool" where
  "fatal e \<longleftrightarrow> e \<noteq> None \<and> e \<noteq> Some Canceled \<and> e \<noteq> Some DeadlineExceeded"

text \<open>
  One pass of the loop of \<^verbatim>\<open>Run\<close> is three steps, since other goroutines may post or cancel in
  between: taking the next job under the lock (or, when there is none, leaving because the
  scheduler's context is done), deciding whether to run it, where \<open>job_ctx\<close> is \<^verbatim>\<open>j.ctx.Err()\<close>, and
  finishing it, where \<open>res\<close> is what \<^verbatim>\<open>j.run()\<close> returns.
\<close>

definition run_take :: "'j sched \<Rightarrow> 'j sched" where
  "run_take s =
     (if stopped s \<or> current s \<noteq> None then s
      else case next_job s of
        (Some j, s1) \<Rightarrow> s1\<lparr>current := Some j\<rparr>
      | (None, s1) \<Rightarrow> (if ctx_err s1 \<noteq> None then drain s1 else s1))"

definition report :: "'j sched \<Rightarrow> 'j \<Rightarrow> sched_error option \<Rightarrow> 'j sched" where
  "report s j e = s\<lparr>results := results s @ [(j, e)], current := None, started := False\<rparr>"

definition run_begin :: "'j sched \<Rightarrow> sched_error option \<Rightarrow> 'j sched" where
  "run_begin s job_ctx =
     (case current s of
        None \<Rightarrow> s
      | Some j \<Rightarrow>
          if started s then s
          else (case ctx_err s of
             Some e \<Rightarrow> drain (report s j (Some e))
           | None \<Rightarrow> if job_ctx \<noteq> None then report s j job_ctx else s\<lparr>started := True\<rparr>))"

definition run_finish :: "'j sched \<Rightarrow> sched_error option \<Rightarrow> 'j sched" where
  "run_finish s res =
     (case current s of
        None \<Rightarrow> s
      | Some j \<Rightarrow>
          if \<not> started s then s
          else if fatal res then drain ((report s j res)\<lparr>failed := res\<rparr>)
          else report s j res)"

datatype 'j sched_event =
  Do_Post bool string 'j
| Cancel_ctx sched_error
| Take
| Begin "sched_error option"
| Finish "sched_error option"

fun sched_step :: "'j sched \<Rightarrow> 'j sched_event \<Rightarrow> 'j sched" where
  "sched_step s (Do_Post priority t j) = (case Post s priority t j of Posted s1 \<Rightarrow> s1 | _ \<Rightarrow> s)"
| "sched_step s (Cancel_ctx e) = (if ctx_err s = None then s\<lparr>ctx_err := Some e\<rparr> else s)"
| "sched_step s Take = run_take s"
| "sched_step s (Begin job_ctx) = run_begin s job_ctx"
| "sched_step s (Finish res) = run_finish s res"

section \<open>The queues as lanes\<close>

text \<open>The abstract view: one first-in first-out lane per kind of traffic.\<close>

datatype lane = Control_lane | Normal_lane | Transfer_lane string

fun lane_jobs :: "'j sched \<Rightarrow> lane \<Rightarrow> 'j list" where
  "lane_jobs s Control_lane = control s"
| "lane_jobs s Normal_lane = normal s"
| "lane_jobs s (Transfer_lane t) = transfer_queue s t"

definition lane_of :: "bool \<Rightarrow> string \<Rightarrow> lane" where
  "lane_of priority t = (if priority then Control_lane else if t = [] then Normal_lane
     else Transfer_lane t)"

fun lane_bound :: "lane \<Rightarrow> nat" where
  "lane_bound Control_lane = 256"
| "lane_bound Normal_lane = 128"
| "lane_bound (Transfer_lane t) = 5"

text \<open>
  The invariant: every queue is within its bound, \<open>order\<close> lists exactly the transfers with a
  non-empty queue, once each, and the map is nil only after the loop has returned, when nothing can
  be posted any more.
\<close>

definition sched_inv :: "'j sched \<Rightarrow> bool" where
  "sched_inv s \<longleftrightarrow>
     (\<forall>l. length (lane_jobs s l) \<le> lane_bound l)
     \<and> distinct (order s)
     \<and> (\<forall>t. t \<in> set (order s) \<longleftrightarrow> transfer_queue s t \<noteq> [])
     \<and> (\<forall>m t. transfers s = Some m \<longrightarrow> m t \<noteq> Some [])
     \<and> (stopped s \<longleftrightarrow> transfers s = None)
     \<and> (stopped s \<longrightarrow> control s = [] \<and> normal s = [] \<and> current s = None)
     \<and> (stopped s \<longrightarrow> failed s \<noteq> None \<or> ctx_err s \<noteq> None)
     \<and> (\<not> stopped s \<longrightarrow> failed s = None)"

lemma transfer_queue_upd [simp]:
  "transfer_queue (s\<lparr>transfers := Some (m(t \<mapsto> q))\<rparr>) u = (if u = t then q else transfer_queue (s\<lparr>transfers := Some m\<rparr>) u)"
  "transfer_queue (s\<lparr>transfers := Some (m(t := None))\<rparr>) u = (if u = t then [] else transfer_queue (s\<lparr>transfers := Some m\<rparr>) u)"
  "transfer_queue (s\<lparr>transfers := None\<rparr>) u = []"
  by (simp_all add: transfer_queue_def)

lemma transfer_queue_frame [simp]:
  "transfer_queue (s\<lparr>control := c\<rparr>) = transfer_queue s"
  "transfer_queue (s\<lparr>normal := n\<rparr>) = transfer_queue s"
  "transfer_queue (s\<lparr>order := k\<rparr>) = transfer_queue s"
  "transfer_queue (s\<lparr>failed := f\<rparr>) = transfer_queue s"
  "transfer_queue (s\<lparr>lastNormal := b\<rparr>) = transfer_queue s"
  "transfer_queue (s\<lparr>ctx_err := e\<rparr>) = transfer_queue s"
  "transfer_queue (s\<lparr>current := cu\<rparr>) = transfer_queue s"
  "transfer_queue (s\<lparr>stopped := st\<rparr>) = transfer_queue s"
  "transfer_queue (s\<lparr>started := sd\<rparr>) = transfer_queue s"
  "transfer_queue (s\<lparr>results := r\<rparr>) = transfer_queue s"
  by (simp_all add: transfer_queue_def fun_eq_iff)

lemma transfer_queue_same: "transfers s = Some m \<Longrightarrow> transfer_queue (s\<lparr>transfers := Some m\<rparr>) u = transfer_queue s u"
  by (simp add: transfer_queue_def)

lemma lanes_cases:
  "(\<forall>l. P l) \<longleftrightarrow> P Control_lane \<and> P Normal_lane \<and> (\<forall>t. P (Transfer_lane t))"
  by (metis lane.exhaust)

text \<open>A successful post appends to its own lane and leaves every other lane alone.\<close>

lemma Post_cases:
  assumes "Post s p t j = Posted s'"
  obtains (control) "p" "failed s = None" "ctx_err s = None" "length (control s) < 256"
      "s' = s\<lparr>control := control s @ [j]\<rparr>"
  | (normal) "\<not> p" "t = []" "failed s = None" "ctx_err s = None" "length (normal s) < 128"
      "s' = s\<lparr>normal := normal s @ [j]\<rparr>"
  | (transfer) m where "\<not> p" "t \<noteq> []" "failed s = None" "ctx_err s = None"
      "transfers s = Some m" "length (transfer_queue s t) < 5"
      "s' = s\<lparr>order := (if transfer_queue s t = [] then order s @ [t] else order s),
              transfers := Some (m(t \<mapsto> transfer_queue s t @ [j]))\<rparr>"
  using assms
  by (auto simp: Post_def Let_def split: option.splits if_splits)

lemma Post_lane:
  assumes "Post s p t j = Posted s'"
  shows "lane_jobs s' l = (if l = lane_of p t then lane_jobs s l @ [j] else lane_jobs s l)"
  using assms by (cases rule: Post_cases; cases l) (auto simp: lane_of_def transfer_queue_same)

lemma Post_inv:
  assumes "sched_inv s" and "Post s p t j = Posted s'"
  shows "sched_inv s'"
  using assms(2)
proof (cases rule: Post_cases)
  case control
  with assms(1) show ?thesis
    by (auto simp: sched_inv_def lanes_cases)
next
  case normal
  with assms(1) show ?thesis
    by (auto simp: sched_inv_def lanes_cases)
next
  case (transfer m)
  with assms(1) show ?thesis
    by (auto simp: sched_inv_def lanes_cases transfer_queue_same)
qed

text \<open>The lane the picker serves.\<close>

definition picked_lane :: "'j sched \<Rightarrow> lane" where
  "picked_lane s =
     (if control s \<noteq> [] then Control_lane
      else if normal s \<noteq> [] \<and> (order s = [] \<or> \<not> lastNormal s) then Normal_lane
      else Transfer_lane (hd (order s)))"

lemma next_job_None:
  assumes "sched_inv s" and "next_job s = (None, s')"
  shows "s' = s \<and> (\<forall>l. lane_jobs s l = [])"
proof -
  have "control s = [] \<and> normal s = [] \<and> order s = [] \<and> s' = s"
    using assms(2) by (auto simp: next_job_def Let_def split: list.splits if_splits)
  then show ?thesis using assms(1) by (auto simp: sched_inv_def lanes_cases)
qed

lemma next_job_cases:
  assumes "next_job s = (Some j, s')" and "sched_inv s"
  obtains (control) rest where "control s = j # rest" "s' = s\<lparr>control := rest\<rparr>"
      "picked_lane s = Control_lane"
  | (normal) rest where "control s = []" "normal s = j # rest" "order s = [] \<or> \<not> lastNormal s"
      "s' = s\<lparr>normal := rest, lastNormal := True\<rparr>" "picked_lane s = Normal_lane"
  | (transfer) t rest q m where "control s = []" "order s = t # rest" "transfers s = Some m"
      "transfer_queue s t = j # q" "picked_lane s = Transfer_lane t"
      "s' = s\<lparr>lastNormal := False, order := (if q = [] then rest else rest @ [t]),
              transfers := Some (m(t := (if q = [] then None else Some q)))\<rparr>"
proof (cases "control s")
  case (Cons a list)
  then show ?thesis using assms control by (auto simp: next_job_def picked_lane_def)
next
  case Nil
  note c = this
  show ?thesis
  proof (cases "normal s \<noteq> [] \<and> (order s = [] \<or> \<not> lastNormal s)")
    case True
    then obtain r where "normal s = j # r"
      using assms c by (cases "normal s") (auto simp: next_job_def)
    then show ?thesis using assms c True normal by (auto simp: next_job_def picked_lane_def)
  next
    case False
    then obtain t rest where o: "order s = t # rest"
      using assms c by (cases "order s") (auto simp: next_job_def)
    then have "transfer_queue s t \<noteq> []" using assms(2) by (auto simp: sched_inv_def)
    moreover then obtain m where "transfers s = Some m"
      by (cases "transfers s") (auto simp: transfer_queue_def)
    ultimately show ?thesis using assms c o False transfer
      by (cases "transfer_queue s t") (auto simp: next_job_def picked_lane_def Let_def)
  qed
qed

lemma next_job_lane:
  assumes "sched_inv s" and "next_job s = (Some j, s')"
  shows "lane_jobs s l = (if l = picked_lane s then j # lane_jobs s' l else lane_jobs s' l)"
  using assms(2,1)
proof (cases rule: next_job_cases)
  case (control rest)
  then show ?thesis by (cases l) auto
next
  case (normal rest)
  then show ?thesis by (cases l) auto
next
  case (transfer t rest q m)
  then show ?thesis
    by (cases l) (auto simp: transfer_queue_same)
qed

lemma next_job_inv:
  assumes "sched_inv s" and "next_job s = (Some j, s')"
  shows "sched_inv s'"
  using assms(2,1)
proof (cases rule: next_job_cases)
  case (control rest)
  with assms(1) show ?thesis by (auto simp: sched_inv_def lanes_cases)
next
  case (normal rest)
  with assms(1) show ?thesis by (auto simp: sched_inv_def lanes_cases)
next
  case (transfer t rest q m)
  then have "length q \<le> 5" "distinct (t # rest)"
    using assms(1) by (auto simp: sched_inv_def lanes_cases dest: spec [of _ t])
  with transfer assms(1) show ?thesis
    by (auto simp: sched_inv_def lanes_cases transfer_queue_same)
qed

lemma drain_inv:
  assumes "failed s \<noteq> None \<or> ctx_err s \<noteq> None" and "current s = None"
  shows "sched_inv (drain s)"
  using assms by (auto simp: sched_inv_def drain_def lanes_cases Let_def)

lemma next_job_frame:
  "next_job s = (r, s1) \<Longrightarrow> stopped s1 = stopped s \<and> current s1 = current s \<and> results s1 = results s
     \<and> failed s1 = failed s \<and> ctx_err s1 = ctx_err s"
  by (auto simp: next_job_def Let_def split: list.splits if_splits)

lemma sched_inv_frame [simp]:
  "\<not> stopped s \<Longrightarrow> sched_inv (s\<lparr>current := c\<rparr>) = sched_inv s"
  "sched_inv (s\<lparr>results := r\<rparr>) = sched_inv s"
  "sched_inv (s\<lparr>started := b\<rparr>) = sched_inv s"
  by (simp_all add: sched_inv_def lanes_cases)

lemma run_take_inv:
  assumes "sched_inv s"
  shows "sched_inv (run_take s)"
proof (cases "stopped s \<or> current s \<noteq> None")
  case True
  then show ?thesis using assms by (auto simp: run_take_def)
next
  case False
  obtain r s1 where nx: "next_job s = (r, s1)" by (cases "next_job s")
  show ?thesis
  proof (cases r)
    case None
    then have "s1 = s" using next_job_None [OF assms] nx by simp
    then have "run_take s = (if ctx_err s \<noteq> None then drain s else s)"
      using False nx None by (simp add: run_take_def)
    then show ?thesis using assms False drain_inv [of s] by simp
  next
    case (Some j)
    then have "sched_inv s1" using next_job_inv [OF assms] nx by simp
    moreover have "\<not> stopped s1" using next_job_frame [OF nx] False by simp
    moreover have "run_take s = s1\<lparr>current := Some j\<rparr>" using False nx Some by (simp add: run_take_def)
    ultimately show ?thesis by simp
  qed
qed

lemma run_finish_inv:
  assumes "sched_inv s"
  shows "sched_inv (run_finish s res)"
proof (cases "current s")
  case None
  then show ?thesis using assms by (simp add: run_finish_def)
next
  case (Some j)
  then have run: "\<not> stopped s" using assms by (auto simp: sched_inv_def)
  have "fatal res \<Longrightarrow> res \<noteq> None" by (simp add: fatal_def)
  with run assms Some show ?thesis
    by (simp add: run_finish_def report_def drain_inv)
qed

lemma run_begin_inv:
  assumes "sched_inv s"
  shows "sched_inv (run_begin s job_ctx)"
proof (cases "current s")
  case None
  then show ?thesis using assms by (simp add: run_begin_def)
next
  case (Some j)
  then have run: "\<not> stopped s" using assms by (auto simp: sched_inv_def)
  with assms Some show ?thesis
    by (simp add: run_begin_def report_def drain_inv split: option.split)
qed

lemma sched_step_inv [inv_rules]: "sched_inv s \<Longrightarrow> sched_inv (sched_step s e)"
proof (induction s e rule: sched_step.induct)
  case (1 s p t j)
  then show ?case using Post_inv by (auto split: post_result.splits)
next
  case (2 s e)
  then show ?case by (auto simp: sched_inv_def lanes_cases)
next
  case (3 s)
  then show ?case by (simp add: run_take_inv)
next
  case (4 s a)
  then show ?case by (simp add: run_begin_inv)
next
  case (5 s a)
  then show ?case by (simp add: run_finish_inv)
qed

interpretation scheduler: component "\<lambda>s. s = NewScheduler" sched_step sched_inv
proof
  show "sched_inv s" if "s = NewScheduler" for s :: "'j sched"
    using that by (auto simp: sched_inv_def NewScheduler_def transfer_queue_def lanes_cases)
  show "sched_inv (sched_step s e)" if "sched_inv s" for s :: "'j sched" and e
    using that by (rule sched_step_inv)
qed

section \<open>First in, first out on every lane\<close>

datatype ('a, 'j) queue_event = Push 'a 'j | Pop

text \<open>
  A queue of many lanes: \<open>push\<close> may refuse, \<open>pop\<close> takes from the lane \<open>pick\<close> names. The trace of a
  run is what was pushed and what was popped, with its lane.
\<close>

fun queue_trace :: "('s \<Rightarrow> 'a \<Rightarrow> 'j \<Rightarrow> 's option) \<Rightarrow> ('s \<Rightarrow> 'j option \<times> 's) \<Rightarrow> ('s \<Rightarrow> 'l) \<Rightarrow> ('a \<Rightarrow> 'l)
    \<Rightarrow> 's \<Rightarrow> ('a, 'j) queue_event list \<Rightarrow> ('l \<times> 'j) list \<times> ('l \<times> 'j) list \<times> 's" where
  "queue_trace push pop pick lane s [] = ([], [], s)"
| "queue_trace push pop pick lane s (Push a j # es) =
     (case push s a j of
        None \<Rightarrow> queue_trace push pop pick lane s es
      | Some s1 \<Rightarrow> (case queue_trace push pop pick lane s1 es of (i, out, s2) \<Rightarrow> ((lane a, j) # i, out, s2)))"
| "queue_trace push pop pick lane s (Pop # es) =
     (case pop s of
        (None, s1) \<Rightarrow> queue_trace push pop pick lane s1 es
      | (Some j, s1) \<Rightarrow> (case queue_trace push pop pick lane s1 es of (i, out, s2) \<Rightarrow> (i, (pick s, j) # out, s2)))"

definition on_lane :: "'l \<Rightarrow> ('l \<times> 'j) list \<Rightarrow> 'j list" where
  "on_lane l xs = map snd (filter (\<lambda>x. fst x = l) xs)"

lemma on_lane_simps [simp]:
  "on_lane l [] = []"
  "on_lane l ((k, j) # xs) = (if k = l then j # on_lane l xs else on_lane l xs)"
  by (simp_all add: on_lane_def)

locale lane_queue =
  fixes jobs :: "'s \<Rightarrow> 'l \<Rightarrow> 'j list"
    and push :: "'s \<Rightarrow> 'a \<Rightarrow> 'j \<Rightarrow> 's option"
    and pop :: "'s \<Rightarrow> 'j option \<times> 's"
    and pick :: "'s \<Rightarrow> 'l" and lane :: "'a \<Rightarrow> 'l"
    and inv :: "'s \<Rightarrow> bool"
  assumes push_inv: "inv s \<Longrightarrow> push s a j = Some s' \<Longrightarrow> inv s'"
    and push_jobs: "inv s \<Longrightarrow> push s a j = Some s' \<Longrightarrow>
      jobs s' l = (if l = lane a then jobs s l @ [j] else jobs s l)"
    and pop_inv: "inv s \<Longrightarrow> pop s = (Some j, s') \<Longrightarrow> inv s'"
    and pop_jobs: "inv s \<Longrightarrow> pop s = (Some j, s') \<Longrightarrow>
      jobs s l = (if l = pick s then j # jobs s' l else jobs s' l)"
    and pop_empty: "inv s \<Longrightarrow> pop s = (None, s') \<Longrightarrow> s' = s \<and> jobs s l = []"
begin

lemma trace_fifo:
  assumes "inv s" and "queue_trace push pop pick lane s es = (i, out, s')"
  shows "jobs s l @ on_lane l i = on_lane l out @ jobs s' l"
  using assms
proof (induction es arbitrary: s i out)
  case Nil
  then show ?case by simp
next
  case (Cons e es)
  show ?case
  proof (cases e)
    case (Push a j)
    show ?thesis
    proof (cases "push s a j")
      case None
      then show ?thesis using Cons Push by auto
    next
      case (Some s1)
      then obtain i1 where "queue_trace push pop pick lane s1 es = (i1, out, s')" "i = (lane a, j) # i1"
        using Cons.prems Push by (auto split: prod.splits)
      with Cons.IH [OF push_inv [OF Cons.prems(1) Some] this(1)] push_jobs [OF Cons.prems(1) Some, of l]
      show ?thesis by (auto split: if_splits)
    qed
  next
    case Pop
    obtain r s1 where p: "pop s = (r, s1)" by (cases "pop s")
    show ?thesis
    proof (cases r)
      case None
      then have "s1 = s" using p pop_empty [OF Cons.prems(1)] by blast
      then have "queue_trace push pop pick lane s es = (i, out, s')"
        using Cons.prems(2) Pop p None by simp
      then show ?thesis by (rule Cons.IH [OF Cons.prems(1)])
    next
      case (Some j)
      then obtain o1 where "queue_trace push pop pick lane s1 es = (i, o1, s')" "out = (pick s, j) # o1"
        using Cons.prems Pop p by (auto split: prod.splits)
      with Cons.IH [OF pop_inv [OF Cons.prems(1)] this(1)] pop_jobs [OF Cons.prems(1), of j s1 l] p Some
      show ?thesis by (auto split: if_splits)
    qed
  qed
qed

end

definition post_opt :: "'j sched \<Rightarrow> bool \<times> string \<Rightarrow> 'j \<Rightarrow> 'j sched option" where
  "post_opt s a j = (case Post s (fst a) (snd a) j of Posted s1 \<Rightarrow> Some s1 | _ \<Rightarrow> None)"

lemma post_opt_Some: "post_opt s a j = Some s' \<longleftrightarrow> Post s (fst a) (snd a) j = Posted s'"
  by (auto simp: post_opt_def split: post_result.splits)

interpretation lanes: lane_queue lane_jobs post_opt next_job picked_lane
  "\<lambda>a. lane_of (fst a) (snd a)" sched_inv
proof
  fix s s' :: "'j sched" and a j l
  assume inv: "sched_inv s"
  show "sched_inv s'" if "post_opt s a j = Some s'"
    using that inv by (auto simp: post_opt_Some intro: Post_inv)
  show "lane_jobs s' l = (if l = lane_of (fst a) (snd a) then lane_jobs s l @ [j] else lane_jobs s l)"
    if "post_opt s a j = Some s'"
    using that by (simp add: post_opt_Some Post_lane)
  show "sched_inv s'" if "next_job s = (Some j, s')"
    using that inv by (rule next_job_inv [rotated])
  show "lane_jobs s l = (if l = picked_lane s then j # lane_jobs s' l else lane_jobs s' l)"
    if "next_job s = (Some j, s')"
    using that inv by (rule next_job_lane [rotated])
  show "s' = s \<and> lane_jobs s l = []" if "next_job s = (None, s')"
    using next_job_None [OF inv that] by simp
qed

section \<open>Accounting for every accepted job\<close>

definition queued :: "'j sched \<Rightarrow> 'j list" where
  "queued s = control s @ normal s @ concat (map (transfer_queue s) (order s))"

definition pending :: "'j sched \<Rightarrow> 'j multiset" where
  "pending s = mset (queued s) + (case current s of None \<Rightarrow> {#} | Some j \<Rightarrow> {#j#})"

definition reported :: "'j sched \<Rightarrow> 'j multiset" where
  "reported s = mset (map fst (results s))"

text \<open>The jobs an execution accepts, in order.\<close>

fun accepts :: "'j sched \<Rightarrow> 'j sched_event \<Rightarrow> 'j list" where
  "accepts s (Do_Post p t j) = (case Post s p t j of Posted _ \<Rightarrow> [j] | _ \<Rightarrow> [])"
| "accepts s _ = []"

fun accepted :: "'j sched \<Rightarrow> 'j sched_event list \<Rightarrow> 'j list" where
  "accepted s [] = []"
| "accepted s (e # es) = accepts s e @ accepted (sched_step s e) es"

lemma map_queue_other:
  "t \<notin> set ts \<Longrightarrow> (\<And>u. u \<noteq> t \<Longrightarrow> f u = g u) \<Longrightarrow> map f ts = map g ts"
  by (metis (no_types, lifting) map_eq_conv)

lemma mset_concat_update:
  assumes "distinct ts" "t \<in> set ts" "\<And>u. u \<noteq> t \<Longrightarrow> f u = g u" "mset (f t) = mset (g t) + A"
  shows "mset (concat (map f ts)) = mset (concat (map g ts)) + A"
  using assms(1,2)
proof (induction ts)
  case Nil
  then show ?case by simp
next
  case (Cons u ts)
  show ?case
  proof (cases "u = t")
    case True
    then have "map f ts = map g ts" using Cons.prems assms(3) by (intro map_queue_other [of t]) auto
    then show ?thesis using True assms(4) by (simp del: map_eq_conv)
  next
    case False
    then show ?thesis using Cons assms(3) by simp
  qed
qed

lemma Post_queued:
  assumes "Post s p t j = Posted s'" and "sched_inv s"
  shows "mset (queued s') = mset (queued s) + {#j#}"
  using assms(1)
proof (cases rule: Post_cases)
  case control
  then show ?thesis by (simp add: queued_def)
next
  case normal
  then show ?thesis by (simp add: queued_def)
next
  case (transfer m)
  have q: "transfer_queue s' u = (if u = t then transfer_queue s t @ [j] else transfer_queue s u)" for u
    using transfer by (simp add: transfer_queue_same)
  show ?thesis
  proof (cases "transfer_queue s t = []")
    case True
    then have "t \<notin> set (order s)" using assms(2) by (simp add: sched_inv_def)
    then have "map (transfer_queue s') (order s) = map (transfer_queue s) (order s)"
      using q by (intro map_queue_other [of t]) auto
    moreover have "control s' = control s" "normal s' = normal s" "order s' = order s @ [t]"
      using transfer True by simp_all
    ultimately show ?thesis using True q [of t] by (simp add: queued_def del: map_eq_conv)
  next
    case False
    then have "t \<in> set (order s)" "distinct (order s)" using assms(2) by (simp_all add: sched_inv_def)
    then have "mset (concat (map (transfer_queue s') (order s)))
        = mset (concat (map (transfer_queue s) (order s))) + {#j#}"
      using q by (intro mset_concat_update [of _ t]) auto
    moreover have "control s' = control s" "normal s' = normal s" "order s' = order s"
      using transfer False by simp_all
    ultimately show ?thesis by (simp add: queued_def)
  qed
qed

lemma next_job_queued:
  assumes "next_job s = (Some j, s')" and "sched_inv s"
  shows "mset (queued s) = mset (queued s') + {#j#}"
  using assms
proof (cases rule: next_job_cases)
  case (control rest)
  then show ?thesis by (simp add: queued_def)
next
  case (normal rest)
  then show ?thesis by (simp add: queued_def)
next
  case (transfer t rest q m)
  have "t \<notin> set rest" using assms(2) transfer by (auto simp: sched_inv_def)
  moreover have qs: "transfer_queue s' u = (if u = t then q else transfer_queue s u)" for u
    using transfer by (simp add: transfer_queue_same)
  ultimately have "map (transfer_queue s') rest = map (transfer_queue s) rest"
    by (intro map_queue_other [of t]) auto
  moreover have "control s' = control s" "normal s' = normal s"
    "order s' = (if q = [] then rest else rest @ [t])" using transfer by simp_all
  ultimately show ?thesis using transfer(2,4) qs [of t] by (simp add: queued_def del: map_eq_conv)
qed

lemma drain_reported [simp]: "reported (drain s) = reported s + mset (queued s)"
  by (simp add: drain_def queued_def reported_def Let_def o_def map_concat)

lemma drain_pending [simp]: "current s = None \<Longrightarrow> pending (drain s) = {#}"
  by (simp add: drain_def pending_def queued_def Let_def)

lemma queued_frame [simp]:
  "queued (s\<lparr>failed := f\<rparr>) = queued s" "queued (s\<lparr>ctx_err := e\<rparr>) = queued s"
  "queued (s\<lparr>current := c\<rparr>) = queued s" "queued (s\<lparr>started := b\<rparr>) = queued s"
  "queued (s\<lparr>results := r\<rparr>) = queued s"
  by (simp_all add: queued_def)

definition accounted :: "'j sched \<Rightarrow> 'j multiset" where
  "accounted s = reported s + pending s"

lemma accounted_drain: "current s = None \<Longrightarrow> accounted (drain s) = accounted s"
  by (simp add: accounted_def) (simp add: pending_def)

lemma accounted_report: "current s = Some j \<Longrightarrow> accounted (report s j e) = accounted s"
  by (simp add: accounted_def reported_def pending_def report_def)

lemma accounted_frame [simp]:
  "accounted (s\<lparr>failed := f\<rparr>) = accounted s" "accounted (s\<lparr>ctx_err := e\<rparr>) = accounted s"
  "accounted (s\<lparr>started := b\<rparr>) = accounted s"
  by (simp_all add: accounted_def reported_def pending_def)

lemma run_take_account:
  assumes "sched_inv s"
  shows "accounted (run_take s) = accounted s"
proof (cases "stopped s \<or> current s \<noteq> None")
  case True
  then show ?thesis by (auto simp: run_take_def)
next
  case False
  obtain r s1 where nx: "next_job s = (r, s1)" by (cases "next_job s")
  show ?thesis
  proof (cases r)
    case None
    then have "s1 = s" using next_job_None [OF assms] nx by simp
    then have "run_take s = (if ctx_err s \<noteq> None then drain s else s)"
      using False nx None by (simp add: run_take_def)
    then show ?thesis using False accounted_drain [of s] by simp
  next
    case (Some j)
    then have "run_take s = s1\<lparr>current := Some j\<rparr>" using False nx by (simp add: run_take_def)
    moreover have "mset (queued s) = mset (queued s1) + {#j#}"
      using next_job_queued [OF _ assms] nx Some by simp
    ultimately show ?thesis using False next_job_frame [OF nx]
      by (simp add: accounted_def reported_def pending_def)
  qed
qed

lemma report_current [simp]: "current (report s j e) = None"
  by (simp add: report_def)

lemma run_begin_account: "accounted (run_begin s job_ctx) = accounted s"
  by (simp add: run_begin_def accounted_drain accounted_report split: option.split)

lemma run_finish_account: "accounted (run_finish s res) = accounted s"
  by (simp add: run_finish_def accounted_drain accounted_report split: option.split)

lemma sched_step_account:
  assumes "sched_inv s"
  shows "accounted (sched_step s e) = accounted s + mset (accepts s e)"
proof (cases e)
  case (Do_Post p t j)
  show ?thesis
  proof (cases "Post s p t j")
    case (Posted s')
    have "results s' = results s \<and> current s' = current s"
      using Posted by (cases rule: Post_cases) auto
    then show ?thesis using Do_Post Posted Post_queued [OF Posted assms]
      by (simp add: accounted_def reported_def pending_def)
  qed (simp_all add: Do_Post)
qed (simp_all add: assms run_take_account run_begin_account run_finish_account)

lemma run_account:
  assumes "sched_inv s"
  shows "accounted (run sched_step s es) = accounted s + mset (accepted s es)"
  using assms
proof (induction es arbitrary: s)
  case Nil
  then show ?case by simp
next
  case (Cons e es)
  show ?case
    using sched_step_account [OF Cons.prems, of e] Cons.IH [OF sched_step_inv [OF Cons.prems, of e]]
    by simp
qed

lemma stopped_pending: "sched_inv s \<Longrightarrow> stopped s \<Longrightarrow> pending s = {#}"
proof -
  assume inv: "sched_inv s" and "stopped s"
  then have "transfers s = None" "control s = []" "normal s = []" "current s = None"
    by (auto simp: sched_inv_def)
  then show "pending s = {#}" by (simp add: pending_def queued_def transfer_queue_def)
qed

section \<open>Bounded waiting\<close>

text \<open>
  How many picks a transfer waits for at most, from its place in the rotation: each transfer in
  front of it costs one pick and possibly one of normal traffic.
\<close>

definition turns :: "'j sched \<Rightarrow> nat \<Rightarrow> nat" where
  "turns s i = 2 * i + (if lastNormal s then 1 else 2)"

fun background :: "(bool \<times> string, 'j) queue_event \<Rightarrow> bool" where
  "background (Push a j) = (\<not> fst a)"
| "background Pop = True"

lemma post_opt_waiting:
  assumes "post_opt s a j = Some s'" "\<not> fst a" "control s = []" "i < length (order s)"
  shows "control s' = [] \<and> i < length (order s') \<and> order s' ! i = order s ! i \<and> turns s' i = turns s i"
  using assms
  by (auto simp: post_opt_Some turns_def nth_append elim!: Post_cases)

lemma next_job_waiting:
  assumes "sched_inv s" "control s = []" "i < length (order s)"
    and t: "order s ! i = t"
  obtains (served) j s' where "next_job s = (Some j, s')" "picked_lane s = Transfer_lane t"
  | (closer) j s' k where "next_job s = (Some j, s')" "control s' = []" "k < length (order s')"
      "order s' ! k = t" "turns s' k < turns s i"
proof (cases "next_job s")
  case (Pair r s')
  have "order s \<noteq> []" using assms(3) by auto
  then have "r \<noteq> None" using Pair assms(2)
    by (auto simp: next_job_def Let_def split: list.splits if_splits)
  then obtain j where nx: "next_job s = (Some j, s')" using Pair by auto
  from nx assms(1) show ?thesis
  proof (cases rule: next_job_cases)
    case (control rest)
    then show ?thesis using assms(2) by simp
  next
    case (normal rest)
    then show ?thesis using closer [OF nx, of i] assms \<open>order s \<noteq> []\<close> by (auto simp: turns_def)
  next
    case (transfer u rest q m)
    show ?thesis
    proof (cases i)
      case 0
      then show ?thesis using served [OF nx] transfer t by simp
    next
      case (Suc k)
      have "control s' = []" "k < length (order s')" "order s' ! k = t" "turns s' k < turns s i"
        using transfer Suc assms(3) t by (auto simp: turns_def nth_append)
      then show ?thesis by (rule closer [OF nx])
    qed
  qed
qed

lemma served_in_turn:
  assumes "sched_inv s" "control s = []" "i < length (order s)" "order s ! i = t"
    and "list_all background es" "turns s i \<le> length (filter (\<lambda>e. e = Pop) es)"
    and "queue_trace post_opt next_job picked_lane (\<lambda>a. lane_of (fst a) (snd a)) s es = (posts, takes, s')"
  shows "on_lane (Transfer_lane t) takes \<noteq> []"
  using assms
proof (induction es arbitrary: s i posts takes)
  case Nil
  then show ?case by (simp add: turns_def split: if_splits)
next
  case (Cons e es)
  show ?case
  proof (cases e)
    case (Push a j)
    show ?thesis
    proof (cases "post_opt s a j")
      case None
      then show ?thesis using Cons Push by auto
    next
      case (Some s1)
      have "\<not> fst a" using Cons.prems(5) Push by simp
      note w = post_opt_waiting [OF Some this Cons.prems(2,3)]
      obtain p1 where "queue_trace post_opt next_job picked_lane (\<lambda>a. lane_of (fst a) (snd a)) s1 es = (p1, takes, s')"
        using Cons.prems(7) Push Some by (auto split: prod.splits)
      then show ?thesis using Cons.IH [OF lanes.push_inv [OF Cons.prems(1) Some], of i] w Cons.prems Push
        by simp
    qed
  next
    case Pop
    show ?thesis
      using Cons.prems(1,2,3,4)
    proof (cases rule: next_job_waiting)
      case (served j s1)
      then show ?thesis using Cons.prems(7) Pop by (auto split: prod.splits)
    next
      case (closer j s1 k)
      obtain o1 where tr: "queue_trace post_opt next_job picked_lane (\<lambda>a. lane_of (fst a) (snd a)) s1 es = (posts, o1, s')"
        and tk: "takes = (picked_lane s, j) # o1"
        using Cons.prems(7) Pop closer(1) by (auto split: prod.splits)
      have "on_lane (Transfer_lane t) o1 \<noteq> []"
        using Cons.IH [OF next_job_inv [OF Cons.prems(1) closer(1)] closer(2,3,4) _ _ tr] closer(5)
          Cons.prems(5,6) Pop by simp
      then show ?thesis using tk by simp
    qed
  qed
qed

section \<open>Properties\<close>

text \<open>
  C17: however posting, cancelling, taking, starting and finishing interleave, every queue of the
  scheduler stays within its bound, and a post never writes to the map the loop dropped.
\<close>

theorem scheduler_bounded_and_never_panics:
  "(\<forall>l. length (lane_jobs (run sched_step NewScheduler es) l) \<le> lane_bound l)
   \<and> Post (run sched_step NewScheduler es) p t j \<noteq> Nil_map_panic"
proof -
  have inv: "sched_inv (run sched_step NewScheduler es)"
    by (rule scheduler.reachable_inv) simp
  have "Post s p t j \<noteq> Nil_map_panic" if "sched_inv s" for s :: "'a sched"
    using that by (auto simp: Post_def sched_inv_def Let_def split: option.splits if_splits)
  with inv show ?thesis by (auto simp: sched_inv_def)
qed

text \<open>
  C12: every job the scheduler accepts is reported exactly once: at any point of any execution the
  accepted jobs are the reported ones plus those still waiting or running, and once the loop has
  returned none is left.
\<close>

theorem scheduler_reports_every_job_once:
  "mset (accepted NewScheduler es)
     = reported (run sched_step NewScheduler es) + pending (run sched_step NewScheduler es)
   \<and> (stopped (run sched_step NewScheduler es) \<longrightarrow> pending (run sched_step NewScheduler es) = {#})"
proof -
  have inv: "sched_inv NewScheduler" by (rule scheduler.start_inv) simp
  have empty: "accounted NewScheduler = {#}"
    by (simp add: NewScheduler_def accounted_def reported_def pending_def queued_def)
  show ?thesis
    using run_account [OF inv, of es] stopped_pending [OF scheduler.run_inv [OF inv, of es]]
    by (simp add: empty) (simp add: accounted_def)
qed

theorem scheduler_reports_every_job_once_witness:
  "stopped (run sched_step NewScheduler
      [Do_Post False ''t'' (1::nat), Do_Post False [] 2, Take, Begin None, Do_Post True [] 3,
       Finish (Some (Job_failed ''eof''))])
   \<and> pending (run sched_step NewScheduler
      [Do_Post False ''t'' (1::nat), Do_Post False [] 2, Take, Begin None, Do_Post True [] 3,
       Finish (Some (Job_failed ''eof''))]) = {#}"
  (is "stopped (run sched_step NewScheduler ?es) \<and> _")
proof -
  have "stopped (run sched_step NewScheduler ?es)"
    by (simp add: NewScheduler_def Post_def run_take_def next_job_def run_begin_def run_finish_def
        fatal_def report_def drain_def transfer_queue_def Let_def)
  with scheduler_reports_every_job_once [of ?es] show ?thesis by simp
qed

text \<open>
  C18: on each lane the scheduler is first in, first out: what an execution posts to a lane is what
  it takes from it followed by what is still there.
\<close>

theorem scheduler_lanes_are_fifo:
  assumes "queue_trace post_opt next_job picked_lane (\<lambda>a. lane_of (fst a) (snd a)) NewScheduler es
    = (posts, takes, s')"
  shows "on_lane l posts = on_lane l takes @ lane_jobs s' l"
proof -
  have inv: "sched_inv NewScheduler" by (rule scheduler.start_inv) simp
  have empty: "lane_jobs NewScheduler l = []"
    by (cases l) (simp_all add: NewScheduler_def transfer_queue_def)
  show ?thesis using lanes.trace_fifo [OF inv assms, of l] by (simp add: empty)
qed

theorem scheduler_lanes_are_fifo_witness:
  "\<exists>s'. queue_trace post_opt next_job picked_lane (\<lambda>a. lane_of (fst a) (snd a)) NewScheduler
      [Push (False, ''t'') (1::nat), Push (False, ''t'') 2, Push (False, []) 3, Pop, Pop]
    = ([(Transfer_lane ''t'', 1), (Transfer_lane ''t'', 2), (Normal_lane, 3)],
       [(Normal_lane, 3), (Transfer_lane ''t'', 1)], s')
    \<and> on_lane (Transfer_lane ''t'') [(Transfer_lane ''t'', 1), (Transfer_lane ''t'', 2), (Normal_lane, 3)]
      = on_lane (Transfer_lane ''t'') [(Normal_lane, 3), (Transfer_lane ''t'', 1)]
        @ lane_jobs s' (Transfer_lane ''t'')"
proof -
  let ?es = "[Push (False, ''t'') (1::nat), Push (False, ''t'') 2, Push (False, []) 3, Pop, Pop]"
  obtain s' where t: "queue_trace post_opt next_job picked_lane (\<lambda>a. lane_of (fst a) (snd a)) NewScheduler ?es
    = ([(Transfer_lane ''t'', 1), (Transfer_lane ''t'', 2), (Normal_lane, 3)],
       [(Normal_lane, 3), (Transfer_lane ''t'', 1)], s')"
    by (simp add: post_opt_def Post_def next_job_def picked_lane_def lane_of_def NewScheduler_def
        transfer_queue_def Let_def)
  show ?thesis using t scheduler_lanes_are_fifo [OF t] by blast
qed

text \<open>
  C19: a waiting transfer is never starved: as long as no control traffic arrives, the transfer at
  place \<open>i\<close> of the rotation has its oldest frame taken within \<open>2 * i + 2\<close> picks, whatever normal
  and transfer traffic is posted meanwhile.
\<close>

theorem transfers_are_not_starved:
  assumes "s = run sched_step NewScheduler before"
    and "control s = []" "i < length (order s)" "t = order s ! i"
    and "list_all background es" "2 * i + 2 \<le> length (filter (\<lambda>e. e = Pop) es)"
    and "queue_trace post_opt next_job picked_lane (\<lambda>a. lane_of (fst a) (snd a)) s es = (posts, takes, s')"
  shows "\<exists>rest. on_lane (Transfer_lane t) takes = hd (transfer_queue s t) # rest"
proof -
  have inv: "sched_inv s" unfolding assms(1) by (rule scheduler.reachable_inv) simp
  have "turns s i \<le> length (filter (\<lambda>e. e = Pop) es)" using assms(6) by (simp add: turns_def)
  then obtain j rest where tk: "on_lane (Transfer_lane t) takes = j # rest"
    using served_in_turn [OF inv assms(2,3) assms(4) [symmetric] assms(5) _ assms(7)]
    by (cases "on_lane (Transfer_lane t) takes") auto
  have "t \<in> set (order s)" using assms(3,4) by simp
  then obtain q qs where "transfer_queue s t = q # qs"
    using inv by (cases "transfer_queue s t") (simp_all add: sched_inv_def)
  moreover from this have "q = j"
    using lanes.trace_fifo [OF inv assms(7), of "Transfer_lane t"] unfolding tk by simp
  ultimately show ?thesis unfolding tk by simp
qed

theorem transfers_are_not_starved_witness:
  "\<exists>posts takes s' rest.
    queue_trace post_opt next_job picked_lane (\<lambda>a. lane_of (fst a) (snd a))
      (run sched_step NewScheduler
        [Do_Post False ''a'' (1::nat), Do_Post False ''b'' 2, Do_Post False [] 3])
      [Pop, Push (False, []) 4, Pop, Pop, Pop] = (posts, takes, s')
    \<and> on_lane (Transfer_lane ''b'') takes = 2 # rest"
proof -
  let ?b = "[Do_Post False ''a'' (1::nat), Do_Post False ''b'' 2, Do_Post False [] 3]"
  let ?s = "run sched_step NewScheduler ?b"
  let ?es = "[Pop, Push (False, []) (4::nat), Pop, Pop, Pop]"
  obtain posts takes s' where t: "queue_trace post_opt next_job picked_lane
      (\<lambda>a. lane_of (fst a) (snd a)) ?s ?es = (posts, takes, s')"
    by (rule prod_cases3)
  have st: "control ?s = []" "order ?s = [''a'', ''b'']" "transfer_queue ?s ''b'' = [2]"
    by (simp_all add: NewScheduler_def Post_def transfer_queue_def Let_def)
  have "\<exists>rest. on_lane (Transfer_lane ''b'') takes = hd (transfer_queue ?s ''b'') # rest"
    by (rule transfers_are_not_starved [OF refl _ _ _ _ _ t, of 1]) (simp_all only: st, simp_all)
  then show ?thesis using t unfolding st list.sel by blast
qed

end
