(* ===== verification/Go_Lib.thy ===== *)
theory Go_Lib
  imports Prelude "HOL-Library.AList"
begin

text \<open>
  The parts of Go's standard library the components share: maps as association lists whose keys are
  distinct (Go's \<^verbatim>\<open>len\<close>, assignment and \<^verbatim>\<open>delete\<close>), UTF-8 as in \<^verbatim>\<open>unicode/utf8\<close>, and base64 as in
  \<^verbatim>\<open>encoding/base64\<close>. A Go string and a byte slice are both a \<^typ>\<open>string\<close>, one \<^typ>\<open>char\<close> per byte.
\<close>

section \<open>Maps\<close>

text \<open>
  \<^verbatim>\<open>m[k] = v\<close> is \<open>AList.update\<close>, \<^verbatim>\<open>delete(m, k)\<close> is \<open>AList.delete\<close>, \<^verbatim>\<open>m[k]\<close> is \<open>map_of\<close>. A total over the
  values of a map changes by the entry that changes.
\<close>

type_synonym ('k, 'v) go_map = "('k \<times> 'v) list"

definition distinct_keys :: "('k, 'v) go_map \<Rightarrow> bool" where
  "distinct_keys m \<longleftrightarrow> distinct (map fst m)"

definition total_of :: "('v \<Rightarrow> int) \<Rightarrow> ('k, 'v) go_map \<Rightarrow> int" where
  "total_of f m = sum_list (map (\<lambda>kv. f (snd kv)) m)"

named_theorems go_map \<open>maps: keys, lookups, sizes and totals after an operation\<close>

lemma total_simps [simp]: "total_of f [] = 0" "total_of f ((k, v) # m) = f v + total_of f m"
  by (simp_all add: total_of_def)

lemma distinct_keys_simps [simp]:
  "distinct_keys []" "distinct_keys ((k, v) # m) \<longleftrightarrow> k \<notin> fst ` set m \<and> distinct_keys m"
  by (simp_all add: distinct_keys_def)

lemma distinct_keys_update [go_map]: "distinct_keys m \<Longrightarrow> distinct_keys (AList.update k v m)"
  by (simp add: distinct_keys_def distinct_update)

lemma distinct_keys_delete [go_map]: "distinct_keys m \<Longrightarrow> distinct_keys (AList.delete k m)"
  by (simp add: distinct_keys_def distinct_delete)

lemma map_of_update [go_map]: "map_of (AList.update k v m) = (map_of m)(k \<mapsto> v)"
  by (simp add: update_conv')

lemma map_of_delete [go_map]: "map_of (AList.delete k m) = (map_of m)(k := None)"
  by (simp add: delete_conv')

lemma map_of_fst: "map_of m k = None \<longleftrightarrow> k \<notin> fst ` set m"
  by (rule map_of_eq_None_iff)

lemma total_update_new [go_map]:
  "map_of m k = None \<Longrightarrow> total_of f (AList.update k v m) = total_of f m + f v"
  by (induction m) (auto split: if_splits)

lemma total_update [go_map]:
  "distinct_keys m \<Longrightarrow> map_of m k = Some w \<Longrightarrow> total_of f (AList.update k v m) = total_of f m - f w + f v"
  by (induction m) (auto split: if_splits)

lemma delete_absent: "k \<notin> fst ` set m \<Longrightarrow> AList.delete k m = m"
  by (induction m) (auto simp: AList.delete_eq)

lemma total_delete [go_map]:
  "distinct_keys m \<Longrightarrow> map_of m k = Some w \<Longrightarrow> total_of f (AList.delete k m) = total_of f m - f w"
  by (induction m) (auto simp: delete_absent split: if_splits)

lemma length_update_new [go_map]: "map_of m k = None \<Longrightarrow> length (AList.update k v m) = Suc (length m)"
  by (induction m) (auto split: if_splits)

lemma length_update_old [go_map]: "map_of m k = Some w \<Longrightarrow> length (AList.update k v m) = length m"
  by (induction m) (auto split: if_splits)

lemma length_delete [go_map]: "length (AList.delete k m) \<le> length m"
  by (simp add: AList.delete_eq)

lemma total_le:
  assumes "\<And>k v. map_of m k = Some v \<Longrightarrow> f v \<le> b" and "distinct_keys m"
  shows "total_of f m \<le> b * int (length m)"
  using assms
proof (induction m)
  case Nil
  then show ?case by simp
next
  case (Cons kv m)
  obtain k v where kv: "kv = (k, v)" by force
  have "f v \<le> b" using Cons.prems(1) [of k v] kv by simp
  moreover have "f w \<le> b" if "map_of m l = Some w" for l w
    using Cons.prems that kv by (metis map_of_Cons_code(2) distinct_keys_simps(2) domI dom_map_of_conv_image_fst)
  ultimately show ?case using Cons kv by (simp add: algebra_simps)
qed

lemma total_nonneg:
  assumes "\<And>k v. map_of m k = Some v \<Longrightarrow> 0 \<le> f v" and "distinct_keys m"
  shows "0 \<le> total_of f m"
proof -
  have "total_of (\<lambda>v. - f v) m \<le> 0 * int (length m)"
    using assms by (intro total_le) auto
  moreover have "total_of (\<lambda>v. - f v) m = - total_of f m" by (induction m) auto
  ultimately show ?thesis by simp
qed

lemma total_zero:
  assumes "\<And>k v. map_of m k = Some v \<Longrightarrow> f v = 0" and "distinct_keys m"
  shows "total_of f m = 0"
  using total_nonneg [of m f] total_le [of m f 0] assms by force

lemma total_strict:
  assumes "\<And>k v. map_of m k = Some v \<Longrightarrow> f v \<le> b" and "distinct_keys m"
    and "map_of m k = Some w" "f w < b"
  shows "total_of f m < b * int (length m)"
proof -
  have "total_of f (AList.delete k m) \<le> b * int (length (AList.delete k m))"
    using assms by (intro total_le) (auto simp: map_of_delete distinct_keys_delete split: if_splits)
  moreover have "Suc (length (AList.delete k m)) = length m"
    using assms(2,3) by (induction m) (auto simp: delete_absent split: if_splits)
  then have "int (length m) = int (length (AList.delete k m)) + 1" by simp
  moreover have "total_of f (AList.delete k m) = total_of f m - f w"
    using assms by (simp add: total_delete)
  ultimately show ?thesis using assms(4) by (simp add: distrib_left)
qed

text \<open>Dropping entries by a test, as a loop that deletes from the map it ranges over.\<close>

lemma distinct_keys_filter [go_map]: "distinct_keys m \<Longrightarrow> distinct_keys (filter P m)"
  by (simp add: distinct_keys_def distinct_map_filter)

text \<open>Replacing every value, as a loop that updates the objects a map points to.\<close>

definition map_vals :: "('v \<Rightarrow> 'w) \<Rightarrow> ('k, 'v) go_map \<Rightarrow> ('k, 'w) go_map" where
  "map_vals f m = map (\<lambda>kv. (fst kv, f (snd kv))) m"

lemma map_of_map_vals [go_map]: "map_of (map_vals f m) k = map_option f (map_of m k)"
  by (induction m) (auto simp: map_vals_def)

lemma map_vals_facts [go_map]:
  "distinct_keys (map_vals f m) = distinct_keys m" "length (map_vals f m) = length m"
  "total_of g (map_vals f m) = total_of (\<lambda>v. g (f v)) m"
  by (simp_all add: map_vals_def distinct_keys_def total_of_def o_def)

section \<open>UTF-8\<close>

definition byte :: "char \<Rightarrow> nat" where
  "byte c = of_char c"

lemma byte_less [simp]: "byte c < 256"
proof -
  have "(of_char c :: nat) mod 256 < 256" by simp
  then show ?thesis by (simp add: byte_def)
qed

lemma byte_le: "byte c \<le> 255"
  using byte_less [of c] by linarith

lemma byte_char_of [simp]: "n < 256 \<Longrightarrow> byte (char_of n) = n"
  by (simp add: byte_def)

lemma char_of_byte [simp]: "char_of (byte c) = c"
  by (simp add: byte_def)

lemma byte_inject [simp]: "byte c = byte d \<longleftrightarrow> c = d"
  by (simp add: byte_def)

text \<open>
  \<^verbatim>\<open>utf8.DecodeRune\<close> on a non-empty string: the rune and its width, or \<^verbatim>\<open>RuneError\<close> with width 1 for a
  byte that starts no well-formed sequence (overlong forms, surrogates and values above
  \<^verbatim>\<open>10FFFF\<close> are not well formed).
\<close>

definition cont :: "nat \<Rightarrow> bool" where
  "cont b \<longleftrightarrow> 128 \<le> b \<and> b < 192"

definition second_ok :: "nat \<Rightarrow> nat \<Rightarrow> bool" where
  "second_ok b0 b1 \<longleftrightarrow>
     (if b0 = 224 then 160 \<le> b1 \<and> b1 < 192
      else if b0 = 237 then 128 \<le> b1 \<and> b1 < 160
      else if b0 = 240 then 144 \<le> b1 \<and> b1 < 192
      else if b0 = 244 then 128 \<le> b1 \<and> b1 < 144
      else cont b1)"

fun decode_rune :: "string \<Rightarrow> (nat \<times> nat) option" where
  "decode_rune [] = None"
| "decode_rune (c # s) =
     (let b0 = byte c in
      if b0 < 128 then Some (b0, 1)
      else if 194 \<le> b0 \<and> b0 < 224 then
        (case s of
           c1 # _ \<Rightarrow> if second_ok b0 (byte c1) then Some ((b0 - 192) * 64 + (byte c1 - 128), 2) else None
         | _ \<Rightarrow> None)
      else if 224 \<le> b0 \<and> b0 < 240 then
        (case s of
           c1 # c2 # _ \<Rightarrow>
             if second_ok b0 (byte c1) \<and> cont (byte c2)
             then Some ((b0 - 224) * 4096 + (byte c1 - 128) * 64 + (byte c2 - 128), 3) else None
         | _ \<Rightarrow> None)
      else if 240 \<le> b0 \<and> b0 < 245 then
        (case s of
           c1 # c2 # c3 # _ \<Rightarrow>
             if second_ok b0 (byte c1) \<and> cont (byte c2) \<and> cont (byte c3)
             then Some ((b0 - 240) * 262144 + (byte c1 - 128) * 4096 + (byte c2 - 128) * 64
                        + (byte c3 - 128), 4) else None
         | _ \<Rightarrow> None)
      else None)"

lemma decode_rune_width: "decode_rune s = Some (r, n) \<Longrightarrow> 0 < n \<and> n \<le> length s"
  by (cases s) (auto simp: Let_def split: if_splits list.splits)

text \<open>\<^verbatim>\<open>range s\<close>: the runes of a string, an ill-formed byte giving \<^verbatim>\<open>U+FFFD\<close>.\<close>

function runes :: "string \<Rightarrow> nat list" where
  "runes s =
     (case s of
        [] \<Rightarrow> []
      | c # t \<Rightarrow> (case decode_rune s of None \<Rightarrow> 65533 # runes t | Some (r, n) \<Rightarrow> r # runes (drop n s)))"
  by auto
termination
  by (relation "measure length") (auto dest: decode_rune_width simp del: decode_rune.simps)

function utf8_valid :: "string \<Rightarrow> bool" where
  "utf8_valid s =
     (s = [] \<or> (case decode_rune s of None \<Rightarrow> False | Some (r, n) \<Rightarrow> utf8_valid (drop n s)))"
  by auto
termination
  by (relation "measure length") (auto dest: decode_rune_width simp del: decode_rune.simps)

declare runes.simps [simp del] utf8_valid.simps [simp del]

lemma decode_rune_append:
  "decode_rune s = Some (r, n) \<Longrightarrow> decode_rune (s @ t) = Some (r, n)"
  by (cases s) (auto simp: Let_def split: if_splits list.splits)

lemma utf8_valid_Nil [simp]: "utf8_valid []"
  by (simp add: utf8_valid.simps)

lemma utf8_valid_append:
  "utf8_valid s \<Longrightarrow> utf8_valid (s @ t) = utf8_valid t"
proof (induction s rule: utf8_valid.induct)
  case (1 s)
  show ?case
  proof (cases "s = []")
    case False
    then obtain r n where d: "decode_rune s = Some (r, n)" and v: "utf8_valid (drop n s)"
      using 1(2) by (subst (asm) utf8_valid.simps) (auto split: option.splits)
    have "drop n (s @ t) = drop n s @ t" using decode_rune_width [OF d] by simp
    then have "utf8_valid (s @ t) = utf8_valid (drop n s @ t)"
      using False decode_rune_append [OF d] by (subst utf8_valid.simps) simp
    also have "\<dots> = utf8_valid t" using 1(1) [OF d refl v] .
    finally show ?thesis .
  qed simp
qed

text \<open>Text of ASCII bytes is well formed, one rune per byte.\<close>

lemma ascii_runes: "\<forall>c \<in> set s. byte c < 128 \<Longrightarrow> utf8_valid s \<and> runes s = map byte s"
proof (induction s)
  case Nil
  then show ?case by (simp add: runes.simps)
next
  case (Cons c s)
  then show ?case by (subst utf8_valid.simps, subst runes.simps) simp
qed

section \<open>Base64\<close>

text \<open>The standard alphabet with padding: three bytes are four digits of six bits.\<close>

definition b64_digit :: "nat \<Rightarrow> char" where
  "b64_digit n =
     (if n < 26 then char_of (65 + n)
      else if n < 52 then char_of (97 + (n - 26))
      else if n < 62 then char_of (48 + (n - 52))
      else if n = 62 then CHR ''+'' else CHR ''/'')"

definition b64_value :: "char \<Rightarrow> nat option" where
  "b64_value c =
     (let b = byte c in
      if 65 \<le> b \<and> b < 91 then Some (b - 65)
      else if 97 \<le> b \<and> b < 123 then Some (b - 97 + 26)
      else if 48 \<le> b \<and> b < 58 then Some (b - 48 + 52)
      else if b = 43 then Some 62
      else if b = 47 then Some 63
      else None)"

fun b64_encode :: "string \<Rightarrow> string" where
  "b64_encode [] = []"
| "b64_encode [a] =
     (let n = byte a * 16 in [b64_digit (n div 64), b64_digit (n mod 64), CHR ''='', CHR ''=''])"
| "b64_encode [a, b] =
     (let n = (byte a * 256 + byte b) * 4 in
      [b64_digit (n div 4096), b64_digit (n div 64 mod 64), b64_digit (n mod 64), CHR ''=''])"
| "b64_encode (a # b # c # s) =
     (let n = byte a * 65536 + byte b * 256 + byte c in
      b64_digit (n div 262144) # b64_digit (n div 4096 mod 64) # b64_digit (n div 64 mod 64)
      # b64_digit (n mod 64) # b64_encode s)"

text \<open>
  \<^verbatim>\<open>Strict().DecodeString\<close>: line breaks are skipped wherever they stand, the padding ends the text and
  the bits it leaves unused must be zero.
\<close>

fun b64_quanta :: "string \<Rightarrow> string option" where
  "b64_quanta [] = Some []"
| "b64_quanta (p # q # r # t # s) =
     (case (b64_value p, b64_value q) of
        (Some x, Some y) \<Rightarrow>
          if r = CHR ''='' \<and> t = CHR ''='' then
            (if s = [] \<and> y mod 16 = 0 then Some [char_of (x * 4 + y div 16)] else None)
          else
            (case b64_value r of
               None \<Rightarrow> None
             | Some z \<Rightarrow>
                 if t = CHR ''='' then
                   (if s = [] \<and> z mod 4 = 0
                    then Some [char_of (x * 4 + y div 16), char_of (y mod 16 * 16 + z div 4)] else None)
                 else
                   (case (b64_value t, b64_quanta s) of
                      (Some w, Some rest) \<Rightarrow>
                        Some (char_of (x * 4 + y div 16) # char_of (y mod 16 * 16 + z div 4)
                              # char_of (z mod 4 * 64 + w) # rest)
                    | _ \<Rightarrow> None))
      | _ \<Rightarrow> None)"
| "b64_quanta _ = None"

definition line_break :: "char \<Rightarrow> bool" where
  "line_break c \<longleftrightarrow> byte c = 10 \<or> byte c = 13"

definition b64_decode :: "string \<Rightarrow> string option" where
  "b64_decode s = b64_quanta (filter (\<lambda>c. \<not> line_break c) s)"

definition b64_encoded_len :: "nat \<Rightarrow> nat" where
  "b64_encoded_len n = (n + 2) div 3 * 4"

lemma b64_encode_length: "length (b64_encode s) = b64_encoded_len (length s)"
proof (induction s rule: b64_encode.induct)
  case (4 a b c s)
  have "(length s + 5) div 3 = Suc ((length s + 2) div 3)" by presburger
  with 4 show ?case by (simp add: Let_def b64_encoded_len_def add.commute)
qed (simp_all add: Let_def b64_encoded_len_def)

lemma b64_digit_value: "n < 64 \<Longrightarrow> b64_value (b64_digit n) = Some n"
  by (auto simp: b64_value_def b64_digit_def Let_def byte_def)

lemma b64_value_less: "b64_value c = Some n \<Longrightarrow> n < 64"
  by (auto simp: b64_value_def Let_def split: if_splits)

lemma b64_digit_plain: "n < 64 \<Longrightarrow> b64_digit n \<noteq> CHR ''='' \<and> \<not> line_break (b64_digit n)"
proof -
  assume n: "n < 64"
  have "b64_value (CHR ''='') = None" by (simp add: b64_value_def byte_def)
  moreover have "b64_value c = None" if "line_break c" for c
    using that by (auto simp: b64_value_def line_break_def)
  ultimately show ?thesis using b64_digit_value [OF n] by (metis option.distinct(1))
qed

lemma b64_top:
  "byte a * 16 div 64 < 64" "(byte a * 256 + byte b) * 4 div 4096 < 64"
  "(byte a * 65536 + byte b * 256 + byte c) div 262144 < 64"
proof -
  show "byte a * 16 div 64 < 64" using byte_le [of a] by linarith
  show "(byte a * 256 + byte b) * 4 div 4096 < 64"
    using byte_le [of a] byte_le [of b] by (intro less_mult_imp_div_less) simp
  show "(byte a * 65536 + byte b * 256 + byte c) div 262144 < 64"
    using byte_le [of a] byte_le [of b] byte_le [of c] by (intro less_mult_imp_div_less) linarith
qed

lemma b64_plain: "\<forall>c \<in> set (b64_encode s). \<not> line_break c"
proof (induction s rule: b64_encode.induct)
  case (4 a b c s)
  with b64_top(3) [of a b c] show ?case by (simp add: Let_def b64_digit_plain)
next
  case (2 a)
  show ?case using b64_top(1) [of a]
    by (simp add: Let_def b64_digit_plain) (simp add: line_break_def byte_def)
next
  case (3 a b)
  show ?case using b64_top(2) [of a b]
    by (simp add: Let_def b64_digit_plain) (simp add: line_break_def byte_def)
qed simp

text \<open>Regrouping digits of one width into digits of another.\<close>

lemma digits_mod: "s < b \<Longrightarrow> (q * b + s) mod (b * c) = q mod c * b + (s::nat)"
  by (simp add: mod_mult2_eq)

lemma digits_div: "0 < b \<Longrightarrow> x div (b * c) * c + x mod (b * c) div b = x div (b::nat)"
proof -
  assume b: "0 < b"
  have "x div b = (b * (x div (b * c) * c) + x mod (b * c)) div b"
    by (metis div_mult_mod_eq mult.assoc mult.commute)
  also have "\<dots> = x div (b * c) * c + x mod (b * c) div b"
    using b by (rule div_mult_self4 [OF less_imp_neq [symmetric]])
  finally show ?thesis by simp
qed

lemma b64_first: "(x::nat) div 64 * 4 + x mod 64 div 16 = x div 16"
  using digits_div [of 16 x 4] by simp

lemma b64_second: "(y::nat) div 64 mod 64 mod 16 * 16 + y mod 64 div 4 = y div 4 mod 256"
proof -
  have "y mod 64 div 4 < 16" by (intro less_mult_imp_div_less) simp
  then have "(y div 64 * 16 + y mod 64 div 4) mod (16 * 16) = y div 64 mod 16 * 16 + y mod 64 div 4"
    by (rule digits_mod)
  then show ?thesis using digits_div [of 4 y 16] by (simp add: mod_mod_cancel)
qed

lemma b64_third: "(z::nat) div 64 mod 64 mod 4 * 64 + z mod 64 = z mod 256"
proof -
  have "(z div 64 * 64 + z mod 64) mod (64 * 4) = z div 64 mod 4 * 64 + z mod 64"
    by (rule digits_mod) simp
  then show ?thesis by (simp add: mod_mod_cancel)
qed

lemma pad_char: "b64_value (CHR ''='') = None"
  by (simp add: b64_value_def byte_def)

lemma b64_quanta_encode: "b64_quanta (b64_encode s) = Some s"
proof (induction s rule: b64_encode.induct)
  case 1
  then show ?case by simp
next
  case (2 a)
  define n where "n = byte a * 16"
  have "n div 64 * 4 + n mod 64 div 16 = byte a" using b64_first [of n] by (simp add: n_def)
  moreover have "n mod 64 mod 16 = 0" by (simp add: n_def mod_mod_cancel)
  ultimately show ?case using b64_top(1) [of a]
    by (simp add: Let_def b64_digit_value pad_char flip: n_def)
next
  case (3 a b)
  define n where "n = (byte a * 256 + byte b) * 4"
  have "n div 4096 * 4 + n div 64 mod 64 div 16 = byte a"
    using b64_first [of "n div 64"] byte_less [of b] by (simp add: n_def flip: div_mult2_eq)
  moreover have "n div 64 mod 64 mod 16 * 16 + n mod 64 div 4 = byte b"
    using b64_second [of n] by (simp add: n_def)
  moreover have "n mod 64 mod 4 = 0" by (simp add: n_def mod_mod_cancel)
  moreover have "n div 4096 < 64" using b64_top(2) [of a b] by (simp only: n_def)
  moreover have "b64_encode [a, b] =
      [b64_digit (n div 4096), b64_digit (n div 64 mod 64), b64_digit (n mod 64), CHR ''='']"
    by (simp only: b64_encode.simps Let_def n_def)
  ultimately show ?case
    by (simp add: b64_digit_value b64_digit_plain pad_char)
next
  case (4 a b c s)
  define n where "n = byte a * 65536 + byte b * 256 + byte c"
  have "byte b * 256 + byte c < 65536" using byte_less [of b] byte_less [of c] by linarith
  then have a: "n div 65536 = byte a" unfolding n_def by (simp add: add.assoc)
  have "n div 262144 * 4 + n div 4096 mod 64 div 16 = byte a"
    using b64_first [of "n div 4096"] a by (simp flip: div_mult2_eq)
  moreover have q: "n = (byte a * 256 + byte b) * 256 + byte c" by (simp add: n_def)
  then have "n div 256 = byte a * 256 + byte b"
    using div_mult_self3 [of 256 "byte a * 256 + byte b" "byte c"] by simp
  then have "n div 4096 mod 64 mod 16 * 16 + n div 64 mod 64 div 4 = byte b"
    using b64_second [of "n div 64"] by (simp flip: div_mult2_eq)
  moreover have "n div 64 mod 64 mod 4 * 64 + n mod 64 = byte c"
    using b64_third [of n] mod_mult_self3 [of "byte a * 256 + byte b" 256 "byte c"] q by simp
  ultimately show ?case using 4 b64_top(3) [of a b c]
    by (simp add: Let_def b64_digit_value b64_digit_plain flip: n_def)
qed

theorem b64_decode_encode: "b64_decode (b64_encode s) = Some s"
proof -
  have "filter (\<lambda>c. \<not> line_break c) (b64_encode s) = b64_encode s"
    using b64_plain [of s] by (simp add: filter_id_conv)
  then show ?thesis by (simp add: b64_decode_def b64_quanta_encode)
qed

lemma b64_encode_inject: "b64_encode s = b64_encode t \<longleftrightarrow> s = t"
  by (metis b64_decode_encode option.inject)

end
