(* ===== verification/Frames.thy ===== *)
theory Frames
  imports Go_Lib
begin

text \<open>
  The frames of the transfer protocol (\<^verbatim>\<open>src/internal/protocol/transfer.go\<close>): the frame record, the
  fields each kind of frame carries, identifiers, and the payload of a chunk. The type of JSON values
  is a parameter here; \<open>None\<close> stands for a nil map or slice and for the zero time.
\<close>

definition ChunkBytes :: nat where "ChunkBytes = 65536"
definition TransferWindow :: int where "TransferWindow = 4"
definition ConnectionWindow :: int where "ConnectionWindow = 32"
definition ManagementBytes :: int where "ManagementBytes = 1048576"
definition CommitBytes :: int where "CommitBytes = 16777216"

record FileBinding =
  binding_Pointer :: string
  binding_FileID :: string

record 'v frame =
  Type :: string
  ID :: string
  TransferID :: string
  Capability :: string
  CallerBinding :: string
  DefinitionHash :: string
  InputDeadline :: "time option"
  Pointer :: string
  Name :: string
  MIMEType :: string
  FileID :: string
  Sequence :: int
  DataBase64 :: string
  Size :: int
  SizeBytes :: int
  SHA256 :: string
  Params :: "(string, 'v) go_map option"
  Files :: "FileBinding list option"

text \<open>The zero value of a frame, which composite literals start from.\<close>

definition zero_frame :: "'v frame" where
  "zero_frame = \<lparr>Type = [], ID = [], TransferID = [], Capability = [], CallerBinding = [],
     DefinitionHash = [], InputDeadline = None, Pointer = [], Name = [], MIMEType = [], FileID = [],
     Sequence = 0, DataBase64 = [], Size = 0, SizeBytes = 0, SHA256 = [], Params = None, Files = None\<rparr>"

definition fields :: "(string, string list) go_map" where
  "fields =
    [(''request_begin'', [''id'', ''capability'', ''caller_binding'', ''definition_hash'', ''input_deadline'']),
     (''request_accept'', [''id'']),
     (''input_open'', [''id'', ''transfer_id'', ''pointer'', ''name'', ''mime_type'']),
     (''input_accept'', [''id'', ''transfer_id'']),
     (''input_ready'', [''id'', ''transfer_id'', ''file_id'', ''size_bytes'', ''sha256'']),
     (''request_commit'', [''id'', ''params'', ''files'']),
     (''transfer_open'', [''id'', ''transfer_id'', ''file_id'']),
     (''transfer_chunk'', [''id'', ''transfer_id'', ''sequence'', ''data_base64'']),
     (''transfer_end'', [''id'', ''transfer_id'', ''size'', ''sha256'']),
     (''transfer_cancel'', [''id'', ''transfer_id'']),
     (''ack'', [''transfer_id'', ''sequence''])]"

definition IsTransferType :: "string \<Rightarrow> bool" where
  "IsTransferType kind \<longleftrightarrow> map_of fields kind \<noteq> None"

definition ValidID :: "string \<Rightarrow> bool" where
  "ValidID i \<longleftrightarrow> i \<noteq> [] \<and> length i \<le> 256 \<and> utf8_valid i \<and> 0 \<notin> set (runes i)"

definition FrameLimit :: "string \<Rightarrow> int" where
  "FrameLimit kind = (if kind = ''request_commit'' then CommitBytes else ManagementBytes)"

text \<open>\<^verbatim>\<open>Frame.Chunk\<close>; \<open>None\<close> is its error.\<close>

definition Chunk :: "'v frame \<Rightarrow> string option" where
  "Chunk f =
     (if length (DataBase64 f) > b64_encoded_len ChunkBytes then None
      else case b64_decode (DataBase64 f) of
        None \<Rightarrow> None
      | Some b \<Rightarrow>
          if length b = 0 \<or> length b > ChunkBytes \<or> b64_encode b \<noteq> DataBase64 f then None else Some b)"

lemma b64_encoded_len_mono: "m \<le> n \<Longrightarrow> b64_encoded_len m \<le> b64_encoded_len n"
  by (simp add: b64_encoded_len_def div_le_mono)

lemma Chunk_iff:
  "Chunk f = Some b \<longleftrightarrow> DataBase64 f = b64_encode b \<and> 0 < length b \<and> length b \<le> ChunkBytes"
proof
  assume "Chunk f = Some b"
  then show "DataBase64 f = b64_encode b \<and> 0 < length b \<and> length b \<le> ChunkBytes"
    by (auto simp: Chunk_def split: if_splits option.splits)
next
  assume b: "DataBase64 f = b64_encode b \<and> 0 < length b \<and> length b \<le> ChunkBytes"
  then have "length (DataBase64 f) \<le> b64_encoded_len ChunkBytes"
    by (simp add: b64_encode_length b64_encoded_len_mono)
  with b show "Chunk f = Some b" by (simp add: Chunk_def b64_decode_encode)
qed

text \<open>
  The payload of a chunk frame is read back exactly when it is the canonical base64 form of one
  to 65536 bytes: no other text (line breaks, stray padding bits, an empty or oversized chunk) is
  accepted, and every such payload is.
\<close>

theorem chunk_payload_is_canonical:
  "Chunk (f\<lparr>DataBase64 := text\<rparr>) = Some b
     \<longleftrightarrow> text = b64_encode b \<and> 0 < length b \<and> length b \<le> 65536"
  by (simp add: Chunk_iff ChunkBytes_def)

end
