(* ===== verification/Transfers.thy ===== *)
theory Transfers
  imports Frames
begin

text \<open>
  Both ends of the windowed file transfer (\<^verbatim>\<open>src/internal/ws/transfer.go\<close>): the table of live and
  recently retired transfers of one connection, the goroutine of each transfer, the frames handed to
  the connection's scheduler, and \<^verbatim>\<open>Handle\<close>, which takes the peer's frames. One event is one critical
  section of the source or one step of a goroutine between two of them.
\<close>

section \<open>State\<close>

datatype terr = ErrProtocol | ErrNotFound | ErrCapacity | Ctx_error | EOF | ErrNoProgress | Other_error string

record retired =
  r_expiry :: time
  r_request :: string
  r_sending :: bool
  r_canceled :: bool
  r_ending :: bool
  r_next :: int
  r_acked :: int
  r_sent :: int

text \<open>
  Where the goroutine of a transfer stands. A receiver selects on its queue, writes an item, and waits
  for its acknowledgement to be sent; a sender reserves a slot of the window, reads, waits for the
  chunk to be sent, and finally drains the acknowledgements and sends the end frame. The arguments of
  \<open>S_chunk\<close> are the data \<^verbatim>\<open>Read\<close> returned and the error it returned along with them.
\<close>

datatype 'v goroutine =
  R_init bool
| R_select
| R_write "'v frame" string
| R_end "'v frame"
| R_ack
| R_acked
| S_open
| S_reserve
| S_read
| S_chunk string "terr option"
| S_sent "terr option"
| S_drain
| S_end

text \<open>
  A \<^verbatim>\<open>wireTransfer\<close>. \<open>ref\<close> is its address, so that comparing the table's entry with a goroutine's own
  transfer is comparing references; \<open>done_ctx\<close> is \<^verbatim>\<open>v.ctx.Err() != nil\<close>; the queue holds frames with
  their decoded bodies. \<open>hashed\<close> is what the sending goroutine has written to its hash, \<open>size\<close> its
  byte count.
\<close>

record 'v wire_transfer =
  ref :: nat
  request :: string
  sending :: bool
  done_ctx :: bool
  queue :: "('v frame \<times> string) list"
  next_seq :: int
  acked :: int
  sent :: int
  ending :: bool
  granted :: bool
  expiry :: time
  pc :: "'v goroutine"
  size :: int
  hashed :: string

text \<open>
  A frame handed to \<^verbatim>\<open>t.send\<close>: it waits in the scheduler until its write starts. The write first looks
  at the transfer's context (\<open>checked\<close>), then runs the callback, then puts the frame on the wire; both
  users of the package build \<^verbatim>\<open>send\<close> this way (\<^verbatim>\<open>sendTransferFrame\<close> of the agent and
  \<^verbatim>\<open>initializeTransfers\<close> of the gateway).
\<close>

datatype callback = Count_sent | Grant_credit | No_callback

record 'v job =
  job_ref :: nat
  job_id :: string
  job_frame :: "'v frame"
  job_callback :: callback
  checked :: bool

record 'v transfers =
  live :: "(string, 'v wire_transfer) go_map"
  recent :: "(string, retired) go_map"
  retained :: int
  closed :: bool
  conn_done :: bool
  next_ref :: nat
  jobs :: "'v job list"
  wire :: "(nat \<times> 'v frame) list"

definition NewTransfers :: "'v transfers" where
  "NewTransfers = \<lparr>live = [], recent = [], retained = 0, closed = False, conn_done = False,
     next_ref = 0, jobs = [], wire = []\<rparr>"

section \<open>Adding and retiring\<close>

text \<open>
  \<^verbatim>\<open>add\<close> with the clock and the caller's context as arguments; \<open>start\<close> is the point its caller starts
  the goroutine from. Expired entries of the recent table go first, whatever \<^verbatim>\<open>add\<close> decides.
\<close>

definition expire :: "time \<Rightarrow> (string, retired) go_map \<Rightarrow> (string, retired) go_map" where
  "expire now m = filter (\<lambda>kv. now < r_expiry (snd kv)) m"

definition add :: "'v transfers \<Rightarrow> bool \<Rightarrow> time option \<Rightarrow> time \<Rightarrow> string \<Rightarrow> string \<Rightarrow> bool
    \<Rightarrow> 'v goroutine \<Rightarrow> (terr + nat) \<times> 'v transfers" where
  "add t ctx_err deadline now rq i snd_side start =
     (if closed t then (Inl Ctx_error, t)
      else if ctx_err then (Inl Ctx_error, t)
      else if conn_done t then (Inl Ctx_error, t)
      else
        (let t1 = t\<lparr>recent := expire now (recent t)\<rparr> in
         if int (length (live t1)) \<ge> ConnectionWindow div TransferWindow
            \<or> length (live t1) + length (recent t1) \<ge> 4096 then (Inl ErrCapacity, t1)
         else if \<not> ValidID rq \<or> \<not> ValidID i \<or> map_of (live t1) i \<noteq> None \<or> map_of (recent t1) i \<noteq> None
         then (Inl ErrProtocol, t1)
         else case deadline of
           None \<Rightarrow> (Inl ErrProtocol, t1)
         | Some d \<Rightarrow>
             (let v = \<lparr>ref = next_ref t1, request = rq, sending = snd_side, done_ctx = False, queue = [],
                        next_seq = 0, acked = 0, sent = 0, ending = False, granted = False, expiry = d,
                        pc = start, size = 0, hashed = []\<rparr> in
              (Inr (next_ref t1), t1\<lparr>live := AList.update i v (live t1), next_ref := Suc (next_ref t1)\<rparr>))))"

definition retire :: "'v transfers \<Rightarrow> string \<Rightarrow> 'v wire_transfer \<Rightarrow> bool \<Rightarrow> 'v transfers" where
  "retire t i v failed =
     t\<lparr>live := AList.delete i (live t),
       recent := AList.update i
         \<lparr>r_expiry = expiry v + 5 * second, r_request = request v, r_sending = sending v,
          r_canceled = (failed \<or> done_ctx v), r_ending = ending v, r_next = next_seq v,
          r_acked = acked v, r_sent = sent v\<rparr> (recent t),
       retained := retained t - (next_seq v - acked v)\<rparr>"

definition put :: "'v transfers \<Rightarrow> string \<Rightarrow> 'v wire_transfer \<Rightarrow> 'v transfers" where
  "put t i v = t\<lparr>live := AList.update i v (live t)\<rparr>"

definition Grant :: "'v transfers \<Rightarrow> string \<Rightarrow> terr option \<times> 'v transfers" where
  "Grant t i =
     (case map_of (live t) i of
        None \<Rightarrow> (Some ErrProtocol, t)
      | Some v \<Rightarrow> if sending v \<or> granted v then (Some ErrProtocol, t)
                  else (None, put t i (v\<lparr>granted := True\<rparr>)))"

section \<open>Frames from the peer\<close>

definition Handle_recent :: "'v transfers \<Rightarrow> time \<Rightarrow> 'v frame \<Rightarrow> terr option \<times> 'v transfers" where
  "Handle_recent t now f =
     (let refuse = (if Type f = ''transfer_cancel'' then ErrNotFound else ErrProtocol);
          keep = (\<lambda>r. (None, t\<lparr>recent := AList.update (TransferID f) r (recent t)\<rparr>)) in
      case map_of (recent t) (TransferID f) of
        None \<Rightarrow> (Some refuse, t)
      | Some r \<Rightarrow>
          if r_canceled r \<and> now < r_expiry r then
            (if Type f = ''ack'' \<and> r_sending r \<and> Sequence f = r_acked r \<and> r_acked r < r_sent r
             then keep (r\<lparr>r_acked := r_acked r + 1\<rparr>)
             else if ID f \<noteq> r_request r then (Some ErrProtocol, t)
             else if Type f = ''transfer_cancel'' then (None, t)
             else if \<not> r_sending r \<and> \<not> r_ending r \<and> Type f = ''transfer_chunk'' \<and> Sequence f = r_next r
                     \<and> r_next r - r_acked r < TransferWindow
             then keep (r\<lparr>r_next := r_next r + 1\<rparr>)
             else if \<not> r_sending r \<and> \<not> r_ending r \<and> Type f = ''transfer_end''
             then keep (r\<lparr>r_ending := True\<rparr>)
             else (Some refuse, t))
          else (Some refuse, t))"

text \<open>Putting an item on the queue: a channel of capacity five, and a full one is an error.\<close>

definition enqueue :: "'v transfers \<Rightarrow> string \<Rightarrow> 'v wire_transfer \<Rightarrow> 'v frame \<times> string
    \<Rightarrow> terr option \<times> 'v transfers" where
  "enqueue t i v item =
     (if length (queue v) < 5 then (None, put t i (v\<lparr>queue := queue v @ [item]\<rparr>))
      else (Some ErrProtocol, put t i v))"

definition Handle :: "'v transfers \<Rightarrow> time \<Rightarrow> 'v frame \<Rightarrow> terr option \<times> 'v transfers" where
  "Handle t now f =
     (case map_of (live t) (TransferID f) of
        None \<Rightarrow> Handle_recent t now f
      | Some v \<Rightarrow>
          if Type f = ''ack'' then
            (if \<not> sending v \<or> Sequence f \<noteq> acked v \<or> acked v \<ge> sent v then (Some ErrProtocol, t)
             else (None, put (t\<lparr>retained := retained t - 1\<rparr>) (TransferID f) (v\<lparr>acked := acked v + 1\<rparr>)))
          else if ID f \<noteq> request v then (Some ErrProtocol, t)
          else if Type f = ''transfer_cancel'' then (None, put t (TransferID f) (v\<lparr>done_ctx := True\<rparr>))
          else if sending v \<or> ending v \<or> \<not> granted v then (Some ErrProtocol, t)
          else if Type f = ''transfer_chunk'' then
            (if Sequence f \<noteq> next_seq v \<or> next_seq v - acked v \<ge> TransferWindow
                \<or> retained t \<ge> ConnectionWindow then (Some ErrProtocol, t)
             else case Chunk f of
               None \<Rightarrow> (Some ErrProtocol, t)
             | Some b \<Rightarrow> enqueue (t\<lparr>retained := retained t + 1\<rparr>) (TransferID f)
                           (v\<lparr>next_seq := next_seq v + 1\<rparr>) (f, b))
          else if Type f = ''transfer_end'' then
            enqueue t (TransferID f) (v\<lparr>ending := True\<rparr>) (f, [])
          else (Some ErrProtocol, t))"

section \<open>Cancelling\<close>

definition CancelRequest :: "'v transfers \<Rightarrow> string \<Rightarrow> 'v transfers" where
  "CancelRequest t rq =
     t\<lparr>live := map_vals (\<lambda>v. if request v = rq then v\<lparr>done_ctx := True\<rparr> else v) (live t)\<rparr>"

definition Close :: "'v transfers \<Rightarrow> 'v transfers" where
  "Close t = t\<lparr>closed := True, live := map_vals (\<lambda>v. v\<lparr>done_ctx := True\<rparr>) (live t)\<rparr>"

definition Cancel :: "'v transfers \<Rightarrow> string \<Rightarrow> 'v transfers" where
  "Cancel t i =
     (case map_of (live t) i of None \<Rightarrow> t | Some v \<Rightarrow> put t i (v\<lparr>done_ctx := True\<rparr>))"

section \<open>The goroutines\<close>

text \<open>The frames they build; \<open>hash\<close> is the hexadecimal SHA-256 digest of a byte sequence.\<close>

definition ack_frame :: "string \<Rightarrow> int \<Rightarrow> 'v frame" where
  "ack_frame i seq = zero_frame\<lparr>Type := ''ack'', TransferID := i, Sequence := seq\<rparr>"

definition chunk_frame :: "string \<Rightarrow> string \<Rightarrow> int \<Rightarrow> string \<Rightarrow> 'v frame" where
  "chunk_frame rq i seq b =
     zero_frame\<lparr>Type := ''transfer_chunk'', ID := rq, TransferID := i, Sequence := seq,
       DataBase64 := b64_encode b\<rparr>"

definition end_frame :: "(string \<Rightarrow> string) \<Rightarrow> string \<Rightarrow> string \<Rightarrow> int \<Rightarrow> string \<Rightarrow> 'v frame" where
  "end_frame hash rq i n b =
     zero_frame\<lparr>Type := ''transfer_end'', ID := rq, TransferID := i, Size := n, SHA256 := hash b\<rparr>"

text \<open>
  What the environment decides in a step of a goroutine: what \<^verbatim>\<open>write\<close>, \<^verbatim>\<open>end\<close>, \<^verbatim>\<open>open\<close>, \<^verbatim>\<open>Read\<close>, \<^verbatim>\<open>bytes\<close> and
  \<^verbatim>\<open>t.send\<close> return, and which ready case of a select is taken.
\<close>

datatype go_event =
  G_start
| G_recv
| G_ctx
| G_wrote "terr option"
| G_ended "terr option"
| G_send_returns "terr option"
| G_opened "terr option"
| G_reserve
| G_read string "terr option" "terr option"
| G_drained

definition post :: "'v transfers \<Rightarrow> string \<Rightarrow> 'v wire_transfer \<Rightarrow> 'v frame \<Rightarrow> callback \<Rightarrow> 'v transfers" where
  "post t i v f cb =
     (put t i v)\<lparr>jobs := jobs t @ [\<lparr>job_ref = ref v, job_id = i, job_frame = f, job_callback = cb, checked = False\<rparr>]\<rparr>"

text \<open>The goroutine of \<^verbatim>\<open>receive\<close>: the steps it can take from where it stands.\<close>

definition receiver_step :: "'v transfers \<Rightarrow> string \<Rightarrow> 'v wire_transfer \<Rightarrow> go_event \<Rightarrow> 'v transfers" where
  "receiver_step t i v e =
     (case pc v of
        R_init g \<Rightarrow> (case e of G_start \<Rightarrow> put t i (v\<lparr>granted := g, pc := R_select\<rparr>) | _ \<Rightarrow> t)
      | R_select \<Rightarrow>
          (case e of
             G_recv \<Rightarrow>
               (case queue v of
                  [] \<Rightarrow> t
                | item # rest \<Rightarrow>
                    if Type (fst item) = ''transfer_end''
                    then put t i (v\<lparr>queue := rest, pc := R_end (fst item)\<rparr>)
                    else put t i (v\<lparr>queue := rest, pc := R_write (fst item) (snd item)\<rparr>))
           | G_ctx \<Rightarrow> (if done_ctx v \<or> conn_done t then retire t i v True else t)
           | _ \<Rightarrow> t)
      | R_end f \<Rightarrow> (case e of G_ended err \<Rightarrow> retire t i v (err \<noteq> None) | _ \<Rightarrow> t)
      | R_write f b \<Rightarrow>
          (case e of
             G_wrote err \<Rightarrow>
               (if err \<noteq> None then retire t i v True
                else post t i (v\<lparr>pc := R_ack\<rparr>) (ack_frame i (Sequence f)) Grant_credit)
           | _ \<Rightarrow> t)
      | R_ack \<Rightarrow>
          (case e of G_send_returns err \<Rightarrow> (if err \<noteq> None then retire t i v True else t) | _ \<Rightarrow> t)
      | R_acked \<Rightarrow>
          (case e of
             G_send_returns err \<Rightarrow>
               (if err \<noteq> None then retire t i v True else put t i (v\<lparr>pc := R_select\<rparr>))
           | _ \<Rightarrow> t)
      | _ \<Rightarrow> t)"

text \<open>The end of one pass of the reading loop, after \<open>n\<close> bytes and the error \<open>re\<close>.\<close>

definition after_read :: "'v transfers \<Rightarrow> string \<Rightarrow> 'v wire_transfer \<Rightarrow> nat \<Rightarrow> terr option \<Rightarrow> 'v transfers" where
  "after_read t i v n re =
     (case re of
        Some e \<Rightarrow> if e \<noteq> EOF then retire t i v True else put t i (v\<lparr>pc := S_drain\<rparr>)
      | None \<Rightarrow> if n = 0 then retire t i v True else put t i (v\<lparr>pc := S_reserve\<rparr>))"

text \<open>
  The goroutine of \<^verbatim>\<open>sendReader\<close>, with \<^verbatim>\<open>SendOpen\<close>'s call of \<^verbatim>\<open>open\<close> before it. \<^verbatim>\<open>Read\<close> is given a buffer of
  \<^verbatim>\<open>ChunkBytes\<close> bytes and, as \<^verbatim>\<open>io.Reader\<close> demands, returns no more than fit.
\<close>

definition sender_step :: "(string \<Rightarrow> string) \<Rightarrow> 'v transfers \<Rightarrow> string \<Rightarrow> 'v wire_transfer
    \<Rightarrow> go_event \<Rightarrow> 'v transfers" where
  "sender_step hash t i v e =
     (case pc v of
        S_open \<Rightarrow>
          (case e of
             G_opened err \<Rightarrow> (if err \<noteq> None then retire t i v True else put t i (v\<lparr>pc := S_reserve\<rparr>))
           | _ \<Rightarrow> t)
      | S_reserve \<Rightarrow>
          (case e of
             G_reserve \<Rightarrow>
               (if next_seq v - acked v < TransferWindow \<and> retained t < ConnectionWindow
                then put (t\<lparr>retained := retained t + 1\<rparr>) i (v\<lparr>next_seq := next_seq v + 1, pc := S_read\<rparr>)
                else t)
           | G_ctx \<Rightarrow> (if done_ctx v \<or> conn_done t then retire t i v True else t)
           | _ \<Rightarrow> t)
      | S_read \<Rightarrow>
          (case e of
             G_read b re budget \<Rightarrow>
               (if length b > ChunkBytes then t
                else if b \<noteq> [] then
                  (if budget \<noteq> None then retire t i v True
                   else post t i (v\<lparr>pc := S_chunk b re, hashed := hashed v @ b,
                                    size := size v + int (length b)\<rparr>)
                          (chunk_frame (request v) i (next_seq v - 1) b) Count_sent)
                else after_read (t\<lparr>retained := retained t - 1\<rparr>) i (v\<lparr>next_seq := next_seq v - 1\<rparr>) 0 re)
           | _ \<Rightarrow> t)
      | S_chunk b re \<Rightarrow>
          (case e of G_send_returns err \<Rightarrow> (if err \<noteq> None then retire t i v True else t) | _ \<Rightarrow> t)
      | S_sent re \<Rightarrow>
          (case e of
             G_send_returns err \<Rightarrow> (if err \<noteq> None then retire t i v True else after_read t i v 1 re)
           | _ \<Rightarrow> t)
      | S_drain \<Rightarrow>
          (case e of
             G_drained \<Rightarrow>
               (if sent v = acked v
                then post t i (v\<lparr>pc := S_end\<rparr>) (end_frame hash (request v) i (size v) (hashed v)) No_callback
                else t)
           | G_ctx \<Rightarrow> (if done_ctx v \<or> conn_done t then retire t i v True else t)
           | _ \<Rightarrow> t)
      | S_end \<Rightarrow> (case e of G_send_returns err \<Rightarrow> retire t i v (err \<noteq> None) | _ \<Rightarrow> t)
      | _ \<Rightarrow> t)"

section \<open>Writing a frame\<close>

definition remove_nth :: "nat \<Rightarrow> 'a list \<Rightarrow> 'a list" where
  "remove_nth n xs = take n xs @ drop (Suc n) xs"

text \<open>The entry of the table if it still is the given transfer: \<^verbatim>\<open>t.live[v.id] == v\<close>.\<close>

definition lookup :: "'v transfers \<Rightarrow> string \<Rightarrow> nat \<Rightarrow> 'v wire_transfer option" where
  "lookup t i r =
     (case map_of (live t) i of
        None \<Rightarrow> None
      | Some v \<Rightarrow> if ref v = r then Some v else None)"

text \<open>
  The write of a frame starts with a look at the transfer's context, which is done once the transfer
  has been retired.
\<close>

definition job_check :: "'v transfers \<Rightarrow> nat \<Rightarrow> 'v transfers" where
  "job_check t n =
     (if n < length (jobs t) \<and> \<not> checked (jobs t ! n) then
        (let j = jobs t ! n in
         case lookup t (job_id j) (job_ref j) of
           Some v \<Rightarrow> if done_ctx v then t\<lparr>jobs := remove_nth n (jobs t)\<rparr>
                      else t\<lparr>jobs := (jobs t)[n := j\<lparr>checked := True\<rparr>]\<rparr>
         | None \<Rightarrow> t\<lparr>jobs := remove_nth n (jobs t)\<rparr>)
      else t)"

text \<open>The callbacks, and with them where the goroutine waiting for the frame stands.\<close>

fun written :: "'v goroutine \<Rightarrow> 'v goroutine" where
  "written (S_chunk b re) = S_sent re"
| "written R_ack = R_acked"
| "written p = p"

definition run_callback :: "'v transfers \<Rightarrow> 'v job \<Rightarrow> 'v transfers" where
  "run_callback t j =
     (case lookup t (job_id j) (job_ref j) of
        None \<Rightarrow> t
      | Some v \<Rightarrow>
          (case job_callback j of
             Count_sent \<Rightarrow> put t (job_id j) (v\<lparr>sent := sent v + 1, pc := written (pc v)\<rparr>)
           | Grant_credit \<Rightarrow>
               put (t\<lparr>retained := retained t - 1\<rparr>) (job_id j) (v\<lparr>acked := acked v + 1, pc := written (pc v)\<rparr>)
           | No_callback \<Rightarrow> t))"

definition job_write :: "'v transfers \<Rightarrow> nat \<Rightarrow> 'v transfers" where
  "job_write t n =
     (if n < length (jobs t) \<and> checked (jobs t ! n) then
        (let j = jobs t ! n; t1 = run_callback t j in
         t1\<lparr>jobs := remove_nth n (jobs t), wire := wire t @ [(job_ref j, job_frame j)]\<rparr>)
      else t)"

section \<open>Executions\<close>

datatype 'v transfer_event =
  Receive bool "time option" time string string bool
| Send bool "time option" time string string bool
| Do_Grant string
| Peer time "'v frame"
| Step string nat go_event
| Job_check nat
| Job_write nat
| Job_drop nat
| Do_CancelRequest string
| Do_Cancel string
| Do_Close
| Transfer_ctx_done string
| Conn_ctx_done

fun transfer_step :: "(string \<Rightarrow> string) \<Rightarrow> 'v transfers \<Rightarrow> 'v transfer_event \<Rightarrow> 'v transfers" where
  "transfer_step hash t (Receive ctx_err deadline now rq i g) =
     snd (add t ctx_err deadline now rq i False (R_init g))"
| "transfer_step hash t (Send ctx_err deadline now rq i open) =
     snd (add t ctx_err deadline now rq i True (if open then S_open else S_reserve))"
| "transfer_step hash t (Do_Grant i) = snd (Grant t i)"
| "transfer_step hash t (Peer now f) = snd (Handle t now f)"
| "transfer_step hash t (Step i r e) =
     (case lookup t i r of
        None \<Rightarrow> t
      | Some v \<Rightarrow> if sending v then sender_step hash t i v e else receiver_step t i v e)"
| "transfer_step hash t (Job_check n) = job_check t n"
| "transfer_step hash t (Job_write n) = job_write t n"
| "transfer_step hash t (Job_drop n) = t\<lparr>jobs := remove_nth n (jobs t)\<rparr>"
| "transfer_step hash t (Do_CancelRequest rq) = CancelRequest t rq"
| "transfer_step hash t (Do_Cancel i) = Cancel t i"
| "transfer_step hash t Do_Close = Close t"
| "transfer_step hash t (Transfer_ctx_done i) = Cancel t i"
| "transfer_step hash t Conn_ctx_done = t\<lparr>conn_done := True\<rparr>"

section \<open>The invariant\<close>

text \<open>
  Chunks a goroutine holds outside the queue: a receiver between taking an item and crediting it, a
  sender between reserving a slot and counting it as sent.
\<close>

fun in_hand :: "'v goroutine \<Rightarrow> int" where
  "in_hand (R_write f b) = 1"
| "in_hand R_ack = 1"
| "in_hand S_read = 1"
| "in_hand (S_chunk b re) = 1"
| "in_hand _ = 0"

fun sender_pc :: "'v goroutine \<Rightarrow> bool" where
  "sender_pc (R_init g) = False"
| "sender_pc R_select = False"
| "sender_pc (R_write f b) = False"
| "sender_pc (R_end f) = False"
| "sender_pc R_ack = False"
| "sender_pc R_acked = False"
| "sender_pc _ = True"

fun at_end :: "'v goroutine \<Rightarrow> bool" where
  "at_end (R_end f) = True"
| "at_end _ = False"

definition chunk_count :: "('v frame \<times> string) list \<Rightarrow> int" where
  "chunk_count q = int (length (filter (\<lambda>x. Type (fst x) \<noteq> ''transfer_end'') q))"

definition end_count :: "('v frame \<times> string) list \<Rightarrow> int" where
  "end_count q = int (length (filter (\<lambda>x. Type (fst x) = ''transfer_end'') q))"

definition window :: "'v wire_transfer \<Rightarrow> int" where
  "window v = next_seq v - acked v"

text \<open>
  A transfer on its own: its window is at most four chunks; a sender has acknowledgements only for
  what it sent and one reserved slot more than it sent while it works on a chunk; a receiver's
  outstanding chunks are those in its queue and the one in hand, and the end frame comes once.
\<close>

definition transfer_ok :: "'v wire_transfer \<Rightarrow> bool" where
  "transfer_ok v \<longleftrightarrow> 0 \<le> window v \<and> window v \<le> TransferWindow \<and> 0 \<le> acked v
     \<and> sender_pc (pc v) = sending v
     \<and> (if sending v
        then queue v = [] \<and> acked v \<le> sent v \<and> next_seq v = sent v + in_hand (pc v)
        else window v = chunk_count (queue v) + in_hand (pc v)
          \<and> end_count (queue v) + (if at_end (pc v) then 1 else 0) = (if ending v then 1 else 0))"

fun waits_for :: "'v goroutine \<Rightarrow> callback \<Rightarrow> bool" where
  "waits_for (S_chunk b re) cb = (cb = Count_sent)"
| "waits_for R_ack cb = (cb = Grant_credit)"
| "waits_for S_end cb = (cb = No_callback)"
| "waits_for _ cb = False"

definition jobs_of :: "'v transfers \<Rightarrow> nat \<Rightarrow> 'v job list" where
  "jobs_of t r = filter (\<lambda>j. job_ref j = r) (jobs t)"

text \<open>A transfer has at most one frame waiting to be written, the one its goroutine waits for.\<close>

definition jobs_ok :: "string \<Rightarrow> 'v goroutine \<Rightarrow> 'v job list \<Rightarrow> bool" where
  "jobs_ok i p js \<longleftrightarrow> length js \<le> 1 \<and> list_all (\<lambda>j. job_id j = i \<and> waits_for p (job_callback j)) js"

definition entry_ok :: "'v transfers \<Rightarrow> string \<Rightarrow> 'v wire_transfer \<Rightarrow> bool" where
  "entry_ok t i v \<longleftrightarrow> transfer_ok v \<and> ref v < next_ref t \<and> jobs_ok i (pc v) (jobs_of t (ref v))"

definition refs_distinct :: "(string, 'v wire_transfer) go_map \<Rightarrow> bool" where
  "refs_distinct l \<longleftrightarrow> distinct (map (\<lambda>kv. ref (snd kv)) l)"

definition transfers_inv :: "'v transfers \<Rightarrow> bool" where
  "transfers_inv t \<longleftrightarrow>
     distinct_keys (live t) \<and> length (live t) \<le> 8 \<and> retained t = total_of window (live t)
     \<and> refs_distinct (live t)
     \<and> (\<forall>i v. map_of (live t) i = Some v \<longrightarrow> entry_ok t i v)
     \<and> (\<forall>j \<in> set (jobs t). job_ref j < next_ref t)"

lemma transfers_invI:
  assumes "distinct_keys (live t)" "length (live t) \<le> 8" "retained t = total_of window (live t)"
    "refs_distinct (live t)" "\<And>i v. map_of (live t) i = Some v \<Longrightarrow> entry_ok t i v"
    "\<And>j. j \<in> set (jobs t) \<Longrightarrow> job_ref j < next_ref t"
  shows "transfers_inv t"
  using assms by (simp add: transfers_inv_def)

lemma transfers_invD:
  assumes "transfers_inv t"
  shows "distinct_keys (live t)" "length (live t) \<le> 8" "retained t = total_of window (live t)"
    "refs_distinct (live t)" "\<And>i v. map_of (live t) i = Some v \<Longrightarrow> entry_ok t i v"
    "\<And>j. j \<in> set (jobs t) \<Longrightarrow> job_ref j < next_ref t"
  using assms by (simp_all add: transfers_inv_def)

lemma refs_distinct_Cons [simp]:
  "refs_distinct []"
  "refs_distinct ((k, v) # l) \<longleftrightarrow> ref v \<notin> (\<lambda>kv. ref (snd kv)) ` set l \<and> refs_distinct l"
  by (simp_all add: refs_distinct_def)

lemma refs_distinctD:
  assumes "refs_distinct l" "map_of l i = Some v" "map_of l k = Some w" "k \<noteq> i"
  shows "ref w \<noteq> ref v"
  using assms
proof (induction l)
  case (Cons x l)
  obtain a b where x: "x = (a, b)" by force
  define R where "R = (\<lambda>kv. ref (snd kv)) ` set l"
  have m: "ref w \<in> R" if "map_of l j = Some w" for j w
    using map_of_SomeD [OF that] unfolding R_def by force
  have "ref b \<notin> R \<and> refs_distinct l" using Cons.prems(1) x by (simp add: R_def)
  with Cons x m [of k w] m [of i v] show ?case by (auto split: if_splits)
qed simp

lemma refs_map_update:
  "map_of l i = Some v \<Longrightarrow> ref v' = ref v \<Longrightarrow>
     map (\<lambda>kv. ref (snd kv)) (AList.update i v' l) = map (\<lambda>kv. ref (snd kv)) l"
  by (induction l) auto

lemma refs_distinct_delete: "refs_distinct l \<Longrightarrow> refs_distinct (AList.delete i l)"
  by (simp add: refs_distinct_def AList.delete_eq distinct_map_filter)

lemma refs_distinct_new:
  "refs_distinct l \<Longrightarrow> map_of l i = None \<Longrightarrow> (\<And>kv. kv \<in> set l \<Longrightarrow> ref (snd kv) < ref v) \<Longrightarrow>
     refs_distinct (AList.update i v l)"
proof (induction l)
  case (Cons x l)
  obtain a b where x: "x = (a, b)" by force
  have "ref b < ref v" using Cons.prems(3) [of "(a, b)"] x by simp
  moreover have "set (AList.update i v l) \<subseteq> insert (i, v) (set l)"
    by (induction l) auto
  moreover have "refs_distinct (AList.update i v l)" using Cons x by (auto split: if_splits)
  ultimately show ?case using Cons.prems x by (auto split: if_splits)
qed simp

lemma count_simps [simp]:
  "chunk_count [] = 0" "end_count [] = 0"
  "chunk_count (x # q) = (if Type (fst x) = ''transfer_end'' then 0 else 1) + chunk_count q"
  "end_count (x # q) = (if Type (fst x) = ''transfer_end'' then 1 else 0) + end_count q"
  "chunk_count (p @ q) = chunk_count p + chunk_count q"
  "end_count (p @ q) = end_count p + end_count q"
  by (simp_all add: chunk_count_def end_count_def)

lemma count_length: "int (length q) = chunk_count q + end_count q" "0 \<le> chunk_count q" "0 \<le> end_count q"
  by (induction q) auto

lemma in_hand_bounds: "0 \<le> in_hand p" "in_hand p \<le> 1"
  by (cases p; simp)+

lemma transfer_ok_done [simp]: "transfer_ok (v\<lparr>done_ctx := b\<rparr>) = transfer_ok v"
  by (simp add: transfer_ok_def window_def)

lemma transfer_ok_granted [simp]: "transfer_ok (v\<lparr>granted := b\<rparr>) = transfer_ok v"
  by (simp add: transfer_ok_def window_def)

lemma window_frame [simp]:
  "window (v\<lparr>done_ctx := b\<rparr>) = window v" "window (v\<lparr>granted := b\<rparr>) = window v"
  "window (v\<lparr>pc := p\<rparr>) = window v" "window (v\<lparr>queue := q\<rparr>) = window v"
  "window (v\<lparr>ending := b\<rparr>) = window v" "window (v\<lparr>sent := n\<rparr>) = window v"
  "window (v\<lparr>size := n\<rparr>) = window v" "window (v\<lparr>hashed := h\<rparr>) = window v"
  "window (v\<lparr>next_seq := next_seq v + 1\<rparr>) = window v + 1"
  "window (v\<lparr>next_seq := next_seq v - 1\<rparr>) = window v - 1"
  "window (v\<lparr>acked := acked v + 1\<rparr>) = window v - 1"
  by (simp_all add: window_def)

text \<open>A receiver's queue never holds five items when one more arrives.\<close>

lemma queue_has_room:
  assumes "transfer_ok v" "\<not> sending v" "\<not> ending v"
  shows "length (queue v) < 5" "window v < TransferWindow \<Longrightarrow> length (queue v) < 4"
proof -
  have "end_count (queue v) \<le> 0" using assms by (simp add: transfer_ok_def split: if_splits)
  moreover have "chunk_count (queue v) \<le> window v"
    using assms in_hand_bounds(1) [of "pc v"] by (simp add: transfer_ok_def)
  ultimately have "int (length (queue v)) \<le> window v" using count_length(1) [of "queue v"] by simp
  then show "length (queue v) < 5" "window v < TransferWindow \<Longrightarrow> length (queue v) < 4"
    using assms(1) by (auto simp: transfer_ok_def TransferWindow_def)
qed

section \<open>The primitive updates keep the invariant\<close>

lemma jobs_of_frame [simp]:
  "jobs_of (t\<lparr>live := l\<rparr>) r = jobs_of t r" "jobs_of (t\<lparr>recent := m\<rparr>) r = jobs_of t r"
  "jobs_of (t\<lparr>retained := n\<rparr>) r = jobs_of t r" "jobs_of (t\<lparr>closed := b\<rparr>) r = jobs_of t r"
  "jobs_of (t\<lparr>conn_done := b\<rparr>) r = jobs_of t r" "jobs_of (t\<lparr>wire := w\<rparr>) r = jobs_of t r"
  "jobs_of (t\<lparr>next_ref := k\<rparr>) r = jobs_of t r"
  by (simp_all add: jobs_of_def)

lemma transfers_inv_frame [simp]:
  "transfers_inv (t\<lparr>recent := m\<rparr>) = transfers_inv t" "transfers_inv (t\<lparr>closed := b\<rparr>) = transfers_inv t"
  "transfers_inv (t\<lparr>conn_done := b\<rparr>) = transfers_inv t" "transfers_inv (t\<lparr>wire := w\<rparr>) = transfers_inv t"
  by (simp_all add: transfers_inv_def entry_ok_def)

lemma entry_ok_frame [simp]:
  "entry_ok (t\<lparr>live := l\<rparr>) i v = entry_ok t i v" "entry_ok (t\<lparr>recent := m\<rparr>) i v = entry_ok t i v"
  "entry_ok (t\<lparr>retained := n\<rparr>) i v = entry_ok t i v"
  by (simp_all add: entry_ok_def)

lemma put_fields [simp]:
  "live (put t i v) = AList.update i v (live t)" "retained (put t i v) = retained t"
  "next_ref (put t i v) = next_ref t" "jobs (put t i v) = jobs t" "wire (put t i v) = wire t"
  "recent (put t i v) = recent t" "jobs_of (put t i v) r = jobs_of t r" "entry_ok (put t i v) k w = entry_ok t k w"
  by (simp_all add: put_def)

lemma put_inv:
  assumes "transfers_inv t" "map_of (live t) i = Some v"
    and "transfer_ok v'" "ref v' = ref v" "jobs_ok i (pc v') (jobs_of t (ref v))"
    and "n = retained t - window v + window v'"
  shows "transfers_inv (put (t\<lparr>retained := n\<rparr>) i v')"
proof (rule transfers_invI)
  note d = transfers_invD [OF assms(1)]
  fix k w assume "map_of (live (put (t\<lparr>retained := n\<rparr>) i v')) k = Some w"
  then show "entry_ok (put (t\<lparr>retained := n\<rparr>) i v') k w"
    using d(5) [of k w] d(5) [OF assms(2)] assms(3,4,5)
    by (auto simp: map_of_update entry_ok_def split: if_splits)
qed (use transfers_invD [OF assms(1)] assms in
  \<open>simp_all add: go_map total_update [of _ _ v] length_update_old [of _ _ v] refs_distinct_def refs_map_update [of _ _ v]\<close>)

lemma retire_inv:
  assumes "transfers_inv t" "map_of (live t) i = Some v"
  shows "transfers_inv (retire t i v b)"
proof (rule transfers_invI)
  note d = transfers_invD [OF assms(1)]
  fix k w assume "map_of (live (retire t i v b)) k = Some w"
  then show "entry_ok (retire t i v b) k w"
    using d(5) [of k w] by (auto simp: map_of_delete retire_def split: if_splits)
next
  show "length (live (retire t i v b)) \<le> 8"
    using transfers_invD(2) [OF assms(1)] length_delete [of i "live t"] by (simp add: retire_def)
qed (use transfers_invD [OF assms(1)] assms in
  \<open>simp_all add: retire_def go_map total_delete [of _ _ v] refs_distinct_delete window_def\<close>)

text \<open>Dropping a job, or marking it checked, leaves each transfer with no more jobs than it had.\<close>

definition same_job :: "'v job \<Rightarrow> 'v job \<Rightarrow> bool" where
  "same_job j k \<longleftrightarrow> job_ref j = job_ref k \<and> job_id j = job_id k \<and> job_callback j = job_callback k"

definition fewer_jobs :: "'v job list \<Rightarrow> 'v job list \<Rightarrow> bool" where
  "fewer_jobs js ks \<longleftrightarrow>
     (\<forall>r. length (filter (\<lambda>j. job_ref j = r) js) \<le> length (filter (\<lambda>j. job_ref j = r) ks))
     \<and> (\<forall>j \<in> set js. \<exists>k \<in> set ks. same_job j k)"

lemma fewer_jobsE:
  assumes "fewer_jobs js ks" "j \<in> set js"
  obtains k where "k \<in> set ks" "same_job j k"
proof -
  have "\<exists>k \<in> set ks. same_job j k" using assms by (simp add: fewer_jobs_def)
  then show ?thesis using that by (elim bexE)
qed

lemma jobs_ok_fewer:
  assumes "fewer_jobs js ks" "jobs_ok i p (filter (\<lambda>j. job_ref j = r) ks)"
  shows "jobs_ok i p (filter (\<lambda>j. job_ref j = r) js)"
proof -
  have "length (filter (\<lambda>j. job_ref j = r) js) \<le> length (filter (\<lambda>j. job_ref j = r) ks)"
    using assms(1) by (simp add: fewer_jobs_def)
  moreover have "job_id j = i \<and> waits_for p (job_callback j)" if j: "j \<in> set js" "job_ref j = r" for j
  proof -
    obtain k where "k \<in> set ks" "same_job j k"
      using assms(1) j(1) by (rule fewer_jobsE)
    then show ?thesis using assms(2) j(2) by (simp add: jobs_ok_def list_all_iff same_job_def)
  qed
  ultimately show ?thesis using assms(2) by (simp add: jobs_ok_def list_all_iff)
qed

lemma jobs_inv:
  assumes "transfers_inv t" "fewer_jobs js (jobs t)"
  shows "transfers_inv (t\<lparr>jobs := js\<rparr>)"
proof -
  have "\<forall>j \<in> set js. job_ref j < next_ref t"
  proof
    fix j assume "j \<in> set js"
    with assms(2) obtain k where "k \<in> set (jobs t)" "same_job j k" by (rule fewer_jobsE)
    then show "job_ref j < next_ref t" using assms(1) by (simp add: transfers_inv_def same_job_def)
  qed
  with assms(1) show ?thesis
    by (simp add: transfers_inv_def entry_ok_def jobs_of_def jobs_ok_fewer [OF assms(2)])
qed

lemma remove_nth_split:
  assumes "n < length xs"
  obtains ys x zs where "xs = ys @ x # zs" "remove_nth n xs = ys @ zs" "length ys = n" "xs ! n = x"
  using assms that [of "take n xs" "xs ! n" "drop (Suc n) xs"]
  by (simp add: remove_nth_def id_take_nth_drop [symmetric])

lemma filter_remove_nth: "length (filter P (remove_nth n xs)) \<le> length (filter P xs)"
proof (cases "n < length xs")
  case True
  then obtain ys x zs where s: "xs = ys @ x # zs" and r: "remove_nth n xs = ys @ zs"
    by (rule remove_nth_split)
  show ?thesis unfolding r by (simp add: s)
qed (simp add: remove_nth_def)

lemma fewer_jobs_remove: "fewer_jobs (remove_nth n js) js"
proof -
  have "set (remove_nth n js) \<subseteq> set js"
    unfolding remove_nth_def using set_take_subset [of n js] set_drop_subset [of "Suc n" js] by auto
  moreover have "same_job j j" for j :: "'a job" by (simp add: same_job_def)
  ultimately show ?thesis unfolding fewer_jobs_def using filter_remove_nth by blast
qed

lemma fewer_jobs_check:
  assumes "n < length js"
  shows "fewer_jobs (js[n := (js ! n)\<lparr>checked := True\<rparr>]) js"
proof -
  let ?ks = "js[n := (js ! n)\<lparr>checked := True\<rparr>]"
  have m: "map job_ref ?ks = map job_ref js"
    using assms by (intro nth_equalityI) (auto simp: nth_list_update)
  have len: "length (filter (\<lambda>j. job_ref j = r) ls) = length (filter (\<lambda>x. x = r) (map job_ref ls))"
    for r and ls :: "'a job list" by (simp add: filter_map o_def)
  have "\<exists>k \<in> set js. same_job j k" if "j \<in> set ?ks" for j
    using that assms set_update_subset_insert [of js n "(js ! n)\<lparr>checked := True\<rparr>"]
    by (auto simp: same_job_def dest!: subsetD)
  then show ?thesis unfolding fewer_jobs_def len m by simp
qed

lemma post_fields [simp]:
  "live (post t i v f cb) = AList.update i v (live t)" "retained (post t i v f cb) = retained t"
  "next_ref (post t i v f cb) = next_ref t" "wire (post t i v f cb) = wire t" "recent (post t i v f cb) = recent t"
  "jobs (post t i v f cb) = jobs t @ [\<lparr>job_ref = ref v, job_id = i, job_frame = f, job_callback = cb, checked = False\<rparr>]"
  by (simp_all add: post_def)

lemma post_inv:
  assumes "transfers_inv t" "map_of (live t) i = Some v"
    and "transfer_ok v'" "ref v' = ref v" "jobs_of t (ref v) = []" "waits_for (pc v') cb"
    and "window v' = window v"
  shows "transfers_inv (post t i v' f cb)"
proof (rule transfers_invI)
  note d = transfers_invD [OF assms(1)]
  note p = transfers_invD [OF put_inv [OF assms(1-4), of "retained t"]]
  fix k w assume k: "map_of (live (post t i v' f cb)) k = Some w"
  show "entry_ok (post t i v' f cb) k w"
  proof (cases "k = i")
    case True
    then show ?thesis using k d(5) [OF assms(2)] assms(3,4,5,6)
      by (simp add: entry_ok_def jobs_of_def jobs_ok_def map_of_update)
  next
    case False
    then have w: "map_of (live t) k = Some w" using k by (simp add: map_of_update)
    have "ref w \<noteq> ref v'" using refs_distinctD [OF d(4) assms(2) w False] assms(4) by simp
    then show ?thesis using d(5) [OF w] by (simp add: entry_ok_def jobs_of_def)
  qed
next
  fix j assume "j \<in> set (jobs (post t i v' f cb))"
  then show "job_ref j < next_ref (post t i v' f cb)"
    using transfers_invD(6) [OF assms(1), of j] transfers_invD(5) [OF assms(1,2)] assms(4)
    by (auto simp: entry_ok_def)
qed (use transfers_invD [OF assms(1)] assms in
  \<open>simp_all add: go_map total_update [of _ _ v] length_update_old [of _ _ v] refs_distinct_def refs_map_update [of _ _ v]\<close>)

lemma no_jobs: "jobs_ok i p js \<Longrightarrow> (\<And>cb. \<not> waits_for p cb) \<Longrightarrow> js = []"
  by (cases js) (auto simp: jobs_ok_def)

lemma jobs_ok_Nil [simp]: "jobs_ok i p []"
  by (simp add: jobs_ok_def)

text \<open>What an entry of the table satisfies.\<close>

lemma entry:
  assumes "transfers_inv t" "map_of (live t) i = Some v"
  shows "transfer_ok v" "jobs_ok i (pc v) (jobs_of t (ref v))" "ref v < next_ref t"
  using transfers_invD(5) [OF assms] by (simp_all add: entry_ok_def)

lemmas ok_simps = transfer_ok_def TransferWindow_def

lemma put_same [simp]: "put (t\<lparr>retained := retained t\<rparr>) i v = put t i v"
    "put t i v\<lparr>retained := retained t\<rparr> = put t i v"
  by (simp_all add: put_def)

lemma receiver_step_inv:
  assumes inv: "transfers_inv t" and v: "map_of (live t) i = Some v" and r: "\<not> sending v"
  shows "transfers_inv (receiver_step t i v e)"
proof -
  note ok = entry(1) [OF inv v] and js = entry(2) [OF inv v]
  have put: "transfers_inv (put t i v')" if "transfer_ok v'" "ref v' = ref v" "window v' = window v"
    "jobs_of t (ref v) = []" for v'
    using put_inv [OF inv v that(1,2), of "retained t"] that(3,4) by simp
  show ?thesis
  proof (cases "pc v")
    case (R_init g)
    then have "jobs_of t (ref v) = []" using no_jobs [OF js] by simp
    then show ?thesis using R_init ok r inv
      by (auto simp: receiver_step_def ok_simps intro!: put split: go_event.split)
  next
    case R_select
    then have n: "jobs_of t (ref v) = []" using no_jobs [OF js] by simp
    show ?thesis
    proof (cases "queue v")
      case Nil
      then show ?thesis using R_select inv v
        by (simp add: receiver_step_def retire_inv split: go_event.split)
    next
      case (Cons x rest)
      have "transfer_ok (v\<lparr>queue := rest, pc := R_end (fst x)\<rparr>)" if "Type (fst x) = ''transfer_end''"
        using ok r R_select Cons that count_length(3) [of rest] by (auto simp: ok_simps split: if_splits)
      moreover have "transfer_ok (v\<lparr>queue := rest, pc := R_write (fst x) (snd x)\<rparr>)"
        if "Type (fst x) \<noteq> ''transfer_end''"
        using ok r R_select Cons that by (auto simp: ok_simps split: if_splits)
      ultimately show ?thesis using R_select inv v n Cons
        by (simp add: receiver_step_def retire_inv put split: go_event.split)
    qed
  next
    case (R_write f b)
    then have "jobs_of t (ref v) = []" using no_jobs [OF js] by simp
    moreover have "transfer_ok (v\<lparr>pc := R_ack\<rparr>)" using ok r R_write by (simp add: ok_simps)
    ultimately show ?thesis using R_write inv v
      by (auto simp: receiver_step_def retire_inv intro!: post_inv split: go_event.split)
  next
    case R_acked
    then have "jobs_of t (ref v) = []" using no_jobs [OF js] by simp
    moreover have "transfer_ok (v\<lparr>pc := R_select\<rparr>)" using ok r R_acked by (simp add: ok_simps)
    ultimately show ?thesis using R_acked inv v
      by (auto simp: receiver_step_def retire_inv intro!: put split: go_event.split)
  qed (use inv v in \<open>simp_all add: receiver_step_def retire_inv split: go_event.split\<close>)
qed

lemma after_read_inv:
  assumes "\<And>p. p = S_drain \<or> p = S_reserve \<Longrightarrow> transfers_inv (put t i (v\<lparr>pc := p\<rparr>))"
  shows "transfers_inv (after_read t i v n re)"
proof -
  let ?v = "v\<lparr>pc := S_drain\<rparr>"
  have "retire (put t i ?v) i ?v b = retire t i v b" for b
    by (simp add: put_def retire_def delete_update_same)
  moreover have "transfers_inv (retire (put t i ?v) i ?v b)" for b
    using assms by (intro retire_inv) (simp_all add: map_of_update)
  ultimately show ?thesis using assms by (simp add: after_read_def split: option.split)
qed

lemma sender_step_inv:
  assumes inv: "transfers_inv t" and v: "map_of (live t) i = Some v" and r: "sending v"
  shows "transfers_inv (sender_step hash t i v e)"
proof -
  note ok = entry(1) [OF inv v] and js = entry(2) [OF inv v]
  show ?thesis
  proof (cases "pc v")
    case S_open
    then have "jobs_of t (ref v) = []" using no_jobs [OF js] by simp
    moreover have "transfer_ok (v\<lparr>pc := S_reserve\<rparr>)" using ok r S_open by (simp add: ok_simps)
    ultimately have "transfers_inv (put t i (v\<lparr>pc := S_reserve\<rparr>))"
      using put_inv [OF inv v, of "v\<lparr>pc := S_reserve\<rparr>" "retained t"] by simp
    then show ?thesis using S_open inv v by (simp add: sender_step_def retire_inv split: go_event.split)
  next
    case S_reserve
    then have "jobs_of t (ref v) = []" using no_jobs [OF js] by simp
    moreover have "transfer_ok (v\<lparr>next_seq := next_seq v + 1, pc := S_read\<rparr>)"
      if "next_seq v - acked v < TransferWindow"
      using ok r S_reserve that by (simp add: ok_simps window_def)
    ultimately have "transfers_inv (put (t\<lparr>retained := retained t + 1\<rparr>) i
        (v\<lparr>next_seq := next_seq v + 1, pc := S_read\<rparr>))" if "next_seq v - acked v < TransferWindow"
      using put_inv [OF inv v, of "v\<lparr>next_seq := next_seq v + 1, pc := S_read\<rparr>" "retained t + 1"] that
      by (simp add: window_def)
    then show ?thesis using S_reserve inv v by (simp add: sender_step_def retire_inv split: go_event.split)
  next
    case S_read
    then have n: "jobs_of t (ref v) = []" using no_jobs [OF js] by simp
    have "transfer_ok (v\<lparr>pc := S_chunk b re, hashed := hashed v @ b, size := size v + int (length b)\<rparr>)"
      for b re using ok r S_read by (simp add: ok_simps window_def)
    then have "transfers_inv (post t i (v\<lparr>pc := S_chunk b re, hashed := hashed v @ b,
        size := size v + int (length b)\<rparr>) f Count_sent)" for b re f
      by (intro post_inv [OF inv v]) (simp_all add: n)
    moreover have "transfers_inv (after_read (t\<lparr>retained := retained t - 1\<rparr>) i (v\<lparr>next_seq := next_seq v - 1\<rparr>) 0 re)" for re
    proof (rule after_read_inv)
      fix p :: "'a goroutine" assume p: "p = S_drain \<or> p = S_reserve"
      have "transfer_ok (v\<lparr>next_seq := next_seq v - 1, pc := p\<rparr>)"
        using ok r S_read p by (auto simp: ok_simps window_def)
      then show "transfers_inv (put (t\<lparr>retained := retained t - 1\<rparr>) i (v\<lparr>next_seq := next_seq v - 1, pc := p\<rparr>))"
        by (rule put_inv [OF inv v]) (simp_all add: n)
    qed
    ultimately show ?thesis using S_read inv v by (simp add: sender_step_def retire_inv split: go_event.split)
  next
    case (S_sent re)
    then have n: "jobs_of t (ref v) = []" using no_jobs [OF js] by simp
    have "transfers_inv (after_read t i v 1 re)"
    proof (rule after_read_inv)
      fix p :: "'a goroutine" assume p: "p = S_drain \<or> p = S_reserve"
      have "transfer_ok (v\<lparr>pc := p\<rparr>)" using ok r S_sent p by (auto simp: ok_simps)
      then show "transfers_inv (put t i (v\<lparr>pc := p\<rparr>))"
        using put_inv [OF inv v, of "v\<lparr>pc := p\<rparr>" "retained t"] n by simp
    qed
    then show ?thesis using S_sent inv v by (simp add: sender_step_def retire_inv split: go_event.split)
  next
    case S_drain
    then have n: "jobs_of t (ref v) = []" using no_jobs [OF js] by simp
    have "transfer_ok (v\<lparr>pc := S_end\<rparr>)" using ok r S_drain by (simp add: ok_simps)
    then have "transfers_inv (post t i (v\<lparr>pc := S_end\<rparr>) f No_callback)" for f
      by (intro post_inv [OF inv v]) (simp_all add: n)
    then show ?thesis using S_drain inv v by (simp add: sender_step_def retire_inv split: go_event.split)
  qed (use inv v in \<open>simp_all add: sender_step_def retire_inv split: go_event.split\<close>)
qed

lemma lookup_Some: "lookup t i r = Some v \<longleftrightarrow> map_of (live t) i = Some v \<and> ref v = r"
  by (auto simp: lookup_def split: option.splits if_splits)

lemma job_check_inv:
  assumes "transfers_inv t"
  shows "transfers_inv (job_check t n)"
proof -
  have "transfers_inv (t\<lparr>jobs := remove_nth n (jobs t)\<rparr>)"
    by (rule jobs_inv [OF assms fewer_jobs_remove])
  moreover have "transfers_inv (t\<lparr>jobs := (jobs t)[n := (jobs t ! n)\<lparr>checked := True\<rparr>]\<rparr>)" if "n < length (jobs t)"
    by (rule jobs_inv [OF assms fewer_jobs_check [OF that]])
  ultimately show ?thesis using assms by (simp add: job_check_def Let_def split: option.split)
qed

lemma written_ok:
  "waits_for p Count_sent \<Longrightarrow> in_hand p = 1 \<and> in_hand (written p) = 0 \<and> sender_pc p \<and> sender_pc (written p)"
  "waits_for p Grant_credit \<Longrightarrow> in_hand p = 1 \<and> in_hand (written p) = 0
     \<and> \<not> sender_pc p \<and> \<not> sender_pc (written p) \<and> \<not> at_end p \<and> \<not> at_end (written p)"
  by (cases p; simp)+

text \<open>
  Writing a frame: the job leaves the list and its callback moves the transfer on. The job found is
  the only one of its transfer.
\<close>

lemma job_write_inv:
  assumes inv: "transfers_inv t"
  shows "transfers_inv (job_write t n)"
proof (cases "n < length (jobs t) \<and> checked (jobs t ! n)")
  case True
  define j where "j = jobs t ! n"
  define t1 where "t1 = t\<lparr>jobs := remove_nth n (jobs t)\<rparr>"
  have inv1: "transfers_inv t1" unfolding t1_def by (rule jobs_inv [OF inv fewer_jobs_remove])
  have eq: "job_write t n = (run_callback t1 j)\<lparr>wire := wire t @ [(job_ref j, job_frame j)]\<rparr>"
    using True unfolding job_write_def run_callback_def lookup_def t1_def j_def
    by (simp add: Let_def put_def split: option.split callback.split)
  show ?thesis
  proof (cases "lookup t (job_id j) (job_ref j)")
    case None
    then show ?thesis using eq inv1 by (simp add: run_callback_def lookup_def t1_def)
  next
    case (Some v)
    then have v: "map_of (live t) (job_id j) = Some v" and r: "ref v = job_ref j"
      by (simp_all add: lookup_Some)
    note ok = entry(1) [OF inv v] and js = entry(2) [OF inv v]
    obtain ys x zs where sp: "jobs t = ys @ x # zs" "remove_nth n (jobs t) = ys @ zs" "jobs t ! n = x"
      using True by (metis remove_nth_split)
    then have x: "x = j" by (simp add: j_def)
    have w: "waits_for (pc v) (job_callback j)" and n: "jobs_of t1 (ref v) = []"
      using js sp x r by (auto simp: jobs_ok_def jobs_of_def t1_def)
    have v1: "map_of (live t1) (job_id j) = Some v" using v by (simp add: t1_def)
    have same: "retained t1 = retained t" "lookup t1 (job_id j) (job_ref j) = Some v"
      using Some by (simp_all add: t1_def lookup_def)
    show ?thesis
    proof (cases "job_callback j")
      case Count_sent
      have "transfer_ok (v\<lparr>sent := sent v + 1, pc := written (pc v)\<rparr>)"
        using ok w Count_sent written_ok(1) [of "pc v"] by (simp add: ok_simps)
      then have "transfers_inv (put t1 (job_id j) (v\<lparr>sent := sent v + 1, pc := written (pc v)\<rparr>))"
        using put_inv [OF inv1 v1, of "v\<lparr>sent := sent v + 1, pc := written (pc v)\<rparr>" "retained t1"] n by simp
      then show ?thesis using eq same Count_sent by (simp add: run_callback_def)
    next
      case Grant_credit
      have "transfer_ok (v\<lparr>acked := acked v + 1, pc := written (pc v)\<rparr>)"
        using ok w Grant_credit written_ok(2) [of "pc v"] count_length(2) [of "queue v"]
        by (auto simp: ok_simps window_def)
      then have "transfers_inv (put (t1\<lparr>retained := retained t1 - 1\<rparr>) (job_id j)
          (v\<lparr>acked := acked v + 1, pc := written (pc v)\<rparr>))"
        by (rule put_inv [OF inv1 v1]) (simp_all add: n)
      then show ?thesis using eq same Grant_credit by (simp add: run_callback_def)
    next
      case No_callback
      then show ?thesis using eq same inv1 by (simp add: run_callback_def)
    qed
  qed
next
  case False
  then show ?thesis using inv by (auto simp: job_write_def)
qed

text \<open>The connection's window is never the reason to refuse a chunk that fits the transfer's.\<close>

lemma retained_bound:
  assumes "transfers_inv t"
  shows "0 \<le> retained t" "retained t \<le> ConnectionWindow"
    "map_of (live t) i = Some v \<Longrightarrow> window v < TransferWindow \<Longrightarrow> retained t < ConnectionWindow"
proof -
  note d = transfers_invD [OF assms]
  have w: "0 \<le> window v \<and> window v \<le> 4" if "map_of (live t) k = Some v" for k v
    using entry(1) [OF assms that] by (simp add: ok_simps)
  show "0 \<le> retained t" using d(3) total_nonneg [of "live t" window] w d(1) by auto
  have "total_of window (live t) \<le> 4 * int (length (live t))" using w d(1) by (intro total_le) auto
  then show "retained t \<le> ConnectionWindow" using d(2,3) by (simp add: ConnectionWindow_def)
  assume v: "map_of (live t) i = Some v" and "window v < TransferWindow"
  then have "total_of window (live t) < 4 * int (length (live t))"
    using w d(1) by (intro total_strict [OF _ _ v]) (auto simp: TransferWindow_def)
  then show "retained t < ConnectionWindow" using d(2,3) by (simp add: ConnectionWindow_def)
qed

lemma Handle_inv:
  assumes inv: "transfers_inv t"
  shows "transfers_inv (snd (Handle t now f))"
proof (cases "map_of (live t) (TransferID f)")
  case None
  then show ?thesis using inv by (simp add: Handle_def Handle_recent_def Let_def split: option.split)
next
  case (Some v)
  note ok = entry(1) [OF inv Some] and js = entry(2) [OF inv Some]
  have put: "transfers_inv (put (t\<lparr>retained := retained t - window v + window v'\<rparr>) (TransferID f) v')"
    if "transfer_ok v'" "ref v' = ref v" "pc v' = pc v" for v'
    using put_inv [OF inv Some that(1,2)] js that(3) by simp
  have ack: "transfers_inv (put (t\<lparr>retained := retained t - 1\<rparr>) (TransferID f) (v\<lparr>acked := acked v + 1\<rparr>))"
    if "sending v" "acked v < sent v"
    using put [of "v\<lparr>acked := acked v + 1\<rparr>"] ok that in_hand_bounds [of "pc v"] by (auto simp: ok_simps window_def)
  have cancel: "transfers_inv (put t (TransferID f) (v\<lparr>done_ctx := True\<rparr>))"
    using put [of "v\<lparr>done_ctx := True\<rparr>"] ok by simp
  have chunk: "transfers_inv (snd (enqueue (t\<lparr>retained := retained t + 1\<rparr>) (TransferID f)
      (v\<lparr>next_seq := next_seq v + 1\<rparr>) (f, b)))"
    if "Type f = ''transfer_chunk''" "\<not> sending v" "\<not> ending v" "next_seq v - acked v < TransferWindow" for b
  proof -
    have "transfer_ok (v\<lparr>next_seq := next_seq v + 1, queue := queue v @ [(f, b)]\<rparr>)"
      using ok that by (simp add: ok_simps window_def)
    from put [OF this] show ?thesis using queue_has_room(1) [OF ok that(2,3)] by (simp add: enqueue_def)
  qed
  have fin: "transfers_inv (snd (enqueue t (TransferID f) (v\<lparr>ending := True\<rparr>) (f, b)))"
    if "Type f = ''transfer_end''" "\<not> sending v" "\<not> ending v" for b
    using put [of "v\<lparr>ending := True, queue := queue v @ [(f, b)]\<rparr>"] ok that queue_has_room [OF ok that(2,3)]
    by (simp add: enqueue_def ok_simps split: if_splits)
  show ?thesis using Some inv ack cancel chunk fin
    by (simp add: Handle_def split: option.split)
qed

lemma Grant_inv:
  assumes inv: "transfers_inv t"
  shows "transfers_inv (snd (Grant t i))"
proof (cases "map_of (live t) i")
  case (Some v)
  then have "transfers_inv (put t i (v\<lparr>granted := True\<rparr>))"
    using put_inv [OF inv Some, of "v\<lparr>granted := True\<rparr>" "retained t"] entry [OF inv Some] by simp
  then show ?thesis using Some inv by (simp add: Grant_def)
qed (use inv in \<open>simp add: Grant_def\<close>)

lemma Cancel_inv:
  assumes inv: "transfers_inv t"
  shows "transfers_inv (Cancel t i)"
proof (cases "map_of (live t) i")
  case (Some v)
  then have "transfers_inv (put t i (v\<lparr>done_ctx := True\<rparr>))"
    using put_inv [OF inv Some, of "v\<lparr>done_ctx := True\<rparr>" "retained t"] entry [OF inv Some] by simp
  then show ?thesis using Some inv by (simp add: Cancel_def)
qed (use inv in \<open>simp add: Cancel_def\<close>)

lemma cancel_all_inv:
  assumes inv: "transfers_inv t"
  shows "transfers_inv (t\<lparr>live := map_vals (\<lambda>v. if P v then v\<lparr>done_ctx := True\<rparr> else v) (live t)\<rparr>)"
    (is "transfers_inv (t\<lparr>live := map_vals ?f (live t)\<rparr>)")
proof (rule transfers_invI)
  note d = transfers_invD [OF inv]
  have f: "ref (?f v) = ref v" "window (?f v) = window v" "pc (?f v) = pc v" "transfer_ok (?f v) = transfer_ok v" for v
    by simp_all
  fix i w assume "map_of (live (t\<lparr>live := map_vals ?f (live t)\<rparr>)) i = Some w"
  then obtain v where "map_of (live t) i = Some v" "w = ?f v" by (auto simp: map_of_map_vals)
  then show "entry_ok (t\<lparr>live := map_vals ?f (live t)\<rparr>) i w"
    using d(5) [of i v] f [of v] by (simp only: entry_ok_def jobs_of_frame) simp
next
  note d = transfers_invD [OF inv]
  have "map (\<lambda>kv. ref (snd kv)) (map_vals ?f (live t)) = map (\<lambda>kv. ref (snd kv)) (live t)"
    by (simp add: map_vals_def)
  then show "refs_distinct (live (t\<lparr>live := map_vals ?f (live t)\<rparr>))" using d(4) by (simp add: refs_distinct_def)
  have "(\<lambda>v. window (?f v)) = window" by (simp add: fun_eq_iff)
  then show "retained (t\<lparr>live := map_vals ?f (live t)\<rparr>) = total_of window (live (t\<lparr>live := map_vals ?f (live t)\<rparr>))"
    using d(3) by (simp add: map_vals_facts)
qed (use transfers_invD [OF inv] in \<open>simp_all add: map_vals_facts\<close>)

lemma add_inv:
  assumes inv: "transfers_inv t" and start: "sender_pc p = s" "in_hand p = 0" "\<not> at_end p" "\<And>cb. \<not> waits_for p cb"
  shows "transfers_inv (snd (add t ce dl now rq i s p))"
proof -
  define v where "v d = \<lparr>ref = next_ref t, request = rq, sending = s, done_ctx = False, queue = [],
    next_seq = 0, acked = 0, sent = 0, ending = False, granted = False, expiry = d, pc = p, size = 0,
    hashed = []\<rparr>" for d
  define t1 where "t1 d = t\<lparr>recent := expire now (recent t), live := AList.update i (v d) (live t),
    next_ref := Suc (next_ref t)\<rparr>" for d
  note d = transfers_invD [OF inv]
  have new: "transfers_inv (t1 d)" if new: "map_of (live t) i = None" and room: "length (live t) < 8" for d
  proof (rule transfers_invI)
    fix k w assume "map_of (live (t1 d)) k = Some w"
    moreover have "jobs_of t (next_ref t) = []"
      using d(6) by (force simp: jobs_of_def filter_empty_conv)
    moreover have "transfer_ok (v d)" using start by (simp add: v_def ok_simps window_def)
    ultimately show "entry_ok (t1 d) k w" using d(5) [of k w] new
      by (auto simp: t1_def entry_ok_def map_of_update v_def split: if_splits)
  next
    have "ref (snd kv) < next_ref t" if "kv \<in> set (live t)" for kv
    proof -
      have "map_of (live t) (fst kv) = Some (snd kv)"
        using d(1) that by (simp add: distinct_keys_def)
      then show ?thesis using d(5) by (auto simp: entry_ok_def)
    qed
    then show "refs_distinct (live (t1 d))"
      using d(4) new by (simp add: t1_def v_def refs_distinct_new)
    show "job_ref j < next_ref (t1 d)" if "j \<in> set (jobs (t1 d))" for j
      using d(6) [of j] that by (simp add: t1_def)
  qed (use d new room in \<open>simp_all add: t1_def go_map v_def window_def\<close>)
  show ?thesis using new inv
    by (simp add: add_def Let_def ConnectionWindow_def TransferWindow_def v_def t1_def split: option.split)
qed

lemma transfer_step_inv [inv_rules]: "transfers_inv t \<Longrightarrow> transfers_inv (transfer_step hash t e)"
proof (induction hash t e rule: transfer_step.induct)
  case (5 hash t i r e)
  then show ?case
    by (auto simp: lookup_Some sender_step_inv receiver_step_inv split: option.split)
next
  case (9 hash t rq)
  then show ?case using cancel_all_inv [of t "\<lambda>v. request v = rq"] by (simp add: CancelRequest_def)
next
  case (11 hash t)
  then show ?case using cancel_all_inv [of "t\<lparr>closed := True\<rparr>" "\<lambda>v. True"] by (simp add: Close_def)
next
  case (8 hash t n)
  then show ?case by (simp add: jobs_inv fewer_jobs_remove)
qed (simp_all add: add_inv Grant_inv Handle_inv job_check_inv job_write_inv Cancel_inv)

interpretation transfer_table: component "\<lambda>t. t = NewTransfers" "transfer_step hash" transfers_inv for hash
proof
  show "transfers_inv t" if "t = NewTransfers" for t :: "'v transfers"
    using that by (simp add: transfers_inv_def NewTransfers_def)
  show "transfers_inv (transfer_step hash t e)" if "transfers_inv t" for t :: "'v transfers" and e
    using that by (rule transfer_step_inv)
qed

section \<open>Properties\<close>

text \<open>
  C6: after any execution, on either side and whatever the peer sends, the connection retains between 0
  and 32 chunks, exactly the sum of the windows of its transfers, of which there are at most eight with
  at most four outstanding chunks each; and a sender has no more acknowledgements than chunks it sent.
\<close>

theorem transfer_windows_are_bounded:
  "retained (run (transfer_step hash) NewTransfers es) = total_of window (live (run (transfer_step hash) NewTransfers es))
   \<and> 0 \<le> retained (run (transfer_step hash) NewTransfers es)
   \<and> retained (run (transfer_step hash) NewTransfers es) \<le> ConnectionWindow
   \<and> length (live (run (transfer_step hash) NewTransfers es)) \<le> 8
   \<and> list_all (\<lambda>kv. 0 \<le> window (snd kv) \<and> window (snd kv) \<le> TransferWindow
        \<and> (sending (snd kv) \<longrightarrow> acked (snd kv) \<le> sent (snd kv) \<and> sent (snd kv) \<le> next_seq (snd kv)))
      (live (run (transfer_step hash) NewTransfers es))"
proof -
  let ?t = "run (transfer_step hash) NewTransfers es"
  have inv: "transfers_inv ?t" by (rule transfer_table.reachable_inv) simp
  note d = transfers_invD [OF inv]
  have "0 \<le> window v \<and> window v \<le> TransferWindow \<and> (sending v \<longrightarrow> acked v \<le> sent v \<and> sent v \<le> next_seq v)"
    if "(k, v) \<in> set (live ?t)" for k v
  proof -
    have "map_of (live ?t) k = Some v" using d(1) that by (simp add: distinct_keys_def)
    then have "transfer_ok v" using entry(1) [OF inv] by simp
    then show ?thesis using in_hand_bounds(1) [of "pc v"] by (simp add: transfer_ok_def)
  qed
  then have "list_all (\<lambda>kv. 0 \<le> window (snd kv) \<and> window (snd kv) \<le> TransferWindow
      \<and> (sending (snd kv) \<longrightarrow> acked (snd kv) \<le> sent (snd kv) \<and> sent (snd kv) \<le> next_seq (snd kv))) (live ?t)"
    by (auto simp: list_all_iff)
  then show ?thesis using d(2,3) retained_bound(1,2) [OF inv] by simp
qed

theorem transfer_windows_are_bounded_witness:
  "list_all (\<lambda>kv. 0 \<le> window (snd kv) \<and> window (snd kv) \<le> TransferWindow
        \<and> (sending (snd kv) \<longrightarrow> acked (snd kv) \<le> sent (snd kv) \<and> sent (snd kv) \<le> next_seq (snd kv)))
      (live (run (transfer_step id) (NewTransfers :: unit transfers) [Send False (Some 10) 0 ''r'' ''t'' False, Step ''t'' 0 G_reserve]))
   \<and> live (run (transfer_step id) (NewTransfers :: unit transfers) [Send False (Some 10) 0 ''r'' ''t'' False, Step ''t'' 0 G_reserve]) \<noteq> []"
proof -
  have "utf8_valid ''r'' \<and> runes ''r'' = [114]" "utf8_valid ''t'' \<and> runes ''t'' = [116]"
    using ascii_runes [of "''r''"] ascii_runes [of "''t''"] by (simp_all add: byte_def)
  then have "live (run (transfer_step id) (NewTransfers :: unit transfers)
      [Send False (Some 10) 0 ''r'' ''t'' False, Step ''t'' 0 G_reserve]) \<noteq> []"
    by (simp add: NewTransfers_def add_def ValidID_def ConnectionWindow_def TransferWindow_def
        expire_def lookup_def sender_step_def Let_def)
  then show ?thesis using transfer_windows_are_bounded [of id "[Send False (Some 10) 0 ''r'' ''t'' False, Step ''t'' 0 G_reserve]"]
    by blast
qed


text \<open>
  A sender is held back by its own window only: whenever fewer than four of its chunks are
  outstanding it reserves the next slot, since the connection's 32 slots are then not used up.
\<close>

theorem open_window_lets_sender_reserve:
  assumes "t = run (transfer_step hash) NewTransfers es"
    and "map_of (live t) i = Some v" "sending v" "pc v = S_reserve" "next_seq v - acked v < TransferWindow"
  shows "map_of (live (transfer_step hash t (Step i (ref v) G_reserve))) i
    = Some (v\<lparr>next_seq := next_seq v + 1, pc := S_read\<rparr>)"
proof -
  have inv: "transfers_inv t" unfolding assms(1) by (rule transfer_table.reachable_inv) simp
  have "retained t < ConnectionWindow"
    using retained_bound(3) [OF inv assms(2)] assms(5) by (simp add: window_def)
  then show ?thesis using assms(2-5) by (simp add: lookup_def sender_step_def map_of_update)
qed

theorem open_window_lets_sender_reserve_witness:
  "\<exists>v. map_of (live (run (transfer_step id) (NewTransfers :: unit transfers) [Send False (Some 10) 0 ''r'' ''t'' False])) ''t'' = Some v
     \<and> map_of (live (transfer_step id (run (transfer_step id) (NewTransfers :: unit transfers) [Send False (Some 10) 0 ''r'' ''t'' False])
          (Step ''t'' (ref v) G_reserve))) ''t'' = Some (v\<lparr>next_seq := next_seq v + 1, pc := S_read\<rparr>)"
proof -
  let ?t = "run (transfer_step id) (NewTransfers :: unit transfers) [Send False (Some 10) 0 ''r'' ''t'' False]"
  have "utf8_valid ''r'' \<and> runes ''r'' = [114]" "utf8_valid ''t'' \<and> runes ''t'' = [116]"
    using ascii_runes [of "''r''"] ascii_runes [of "''t''"] by (simp_all add: byte_def)
  then obtain v where "map_of (live ?t) ''t'' = Some v" "sending v" "pc v = S_reserve"
      "next_seq v - acked v < TransferWindow"
    by (simp add: NewTransfers_def add_def ValidID_def ConnectionWindow_def TransferWindow_def
        expire_def Let_def)
  with open_window_lets_sender_reserve [OF refl this] show ?thesis by blast
qed

end
