(* ===== verification/Ws_Frame.thy ===== *)
theory Ws_Frame
  imports Prelude "HOL-Library.Word"
begin

text \<open>
  The framing layer of a WebSocket connection (\<^verbatim>\<open>src/internal/ws/ws.go\<close>): building and parsing a frame,
  reassembling a text message out of fragments while control frames arrive in between, and writing a
  frame in full. Bytes are 8-bit words; what the network delivers is a list of bytes, and the random
  mask, the results of the writer and of the start callback are arguments.
\<close>

unbundle bit_operations_syntax

type_synonym byte = "8 word"

section \<open>Definitions\<close>

definition maxMessageSize :: nat where
  "maxMessageSize = 16777216"

datatype ws_error =
  Unexpected_EOF | EOF_close | Extensions | Must_not_be_masked | Must_be_masked | Non_canonical_length
| Invalid_length | Invalid_control | Frame_too_large | Unexpected_continuation | Message_too_large
| Nested_message | Binary_message | Invalid_close | Unsupported_opcode | Control_payload_too_large
| Short_write | Write_failed

text \<open>\<^verbatim>\<open>io.ReadFull\<close> on what is left of the input.\<close>

definition read_full :: "nat \<Rightarrow> byte list \<Rightarrow> (byte list \<times> byte list) option" where
  "read_full n bs = (if length bs < n then None else Some (take n bs, drop n bs))"

text \<open>Big-endian integers of a fixed number of bytes.\<close>

fun put_uint :: "nat \<Rightarrow> nat \<Rightarrow> byte list" where
  "put_uint 0 n = []"
| "put_uint (Suc k) n = word_of_nat (n div 256 ^ k) # put_uint k n"

definition get_uint :: "byte list \<Rightarrow> nat" where
  "get_uint bs = foldl (\<lambda>acc b. acc * 256 + unat b) 0 bs"

definition apply_mask :: "byte list \<Rightarrow> byte list \<Rightarrow> byte list" where
  "apply_mask key p = map (\<lambda>i. p ! i XOR key ! (i mod 4)) [0..<length p]"

text \<open>
  The length field of \<^verbatim>\<open>readFrame\<close>: seven bits of the second byte, or two or eight more bytes, which must
  not be used for a length that fits a shorter form.
\<close>

definition read_length :: "nat \<Rightarrow> byte list \<Rightarrow> ws_error + (nat \<times> byte list)" where
  "read_length l bs =
     (if l = 126 then
        (case read_full 2 bs of
           None \<Rightarrow> Inl Unexpected_EOF
         | Some (b, bs1) \<Rightarrow>
             if get_uint b < 126 then Inl Non_canonical_length else Inr (get_uint b, bs1))
      else if l = 127 then
        (case read_full 8 bs of
           None \<Rightarrow> Inl Unexpected_EOF
         | Some (b, bs1) \<Rightarrow>
             if get_uint b \<ge> 2 ^ 63 \<or> get_uint b \<le> 65535 then Inl Invalid_length
             else Inr (get_uint b, bs1))
      else Inr (l, bs))"

text \<open>What a frame read gives: the final bit, the opcode, the payload and the rest of the input.\<close>

definition readFrame :: "bool \<Rightarrow> byte list \<Rightarrow> ws_error + (bool \<times> byte \<times> byte list \<times> byte list)" where
  "readFrame isClient bs =
     (case read_full 2 bs of
        None \<Rightarrow> Inl Unexpected_EOF
      | Some (h, bs1) \<Rightarrow>
          (let fin = (h ! 0 AND 0x80 \<noteq> 0) in
           if h ! 0 AND 0x70 \<noteq> 0 then Inl Extensions
           else
             (let op = h ! 0 AND 0x0f; masked = (h ! 1 AND 0x80 \<noteq> 0) in
              if masked = isClient then (if isClient then Inl Must_not_be_masked else Inl Must_be_masked)
              else case read_length (unat (h ! 1 AND 0x7f)) bs1 of
                Inl e \<Rightarrow> Inl e
              | Inr (l, bs2) \<Rightarrow>
                  if op \<ge> 8 \<and> (\<not> fin \<or> l > 125) then Inl Invalid_control
                  else if l > maxMessageSize then Inl Frame_too_large
                  else
                    (case read_full (if masked then 4 else 0) bs2 of
                       None \<Rightarrow> Inl Unexpected_EOF
                     | Some (key, bs3) \<Rightarrow>
                         (case read_full l bs3 of
                            None \<Rightarrow> Inl Unexpected_EOF
                          | Some (payload, bs4) \<Rightarrow>
                              Inr (fin, op, if masked then apply_mask key payload else payload, bs4))))))"

text \<open>
  The bytes \<^verbatim>\<open>writeFrameStart\<close> puts together; \<open>key\<close> are the four random bytes of a client. \<open>start\<close> is the
  result of the callback that runs just before the first network write.
\<close>

definition frame_bytes :: "bool \<Rightarrow> byte list \<Rightarrow> byte \<Rightarrow> byte list \<Rightarrow> byte list" where
  "frame_bytes isClient key op payload =
     (let maskBit = (if isClient then 0x80 else 0 :: byte);
          n = length payload;
          head = (if n < 126 then [maskBit OR word_of_nat n]
                  else if n \<le> 65535 then (maskBit OR 126) # put_uint 2 n
                  else (maskBit OR 127) # put_uint 8 n) in
      (0x80 OR op) # head @ (if isClient then key @ apply_mask key payload else payload))"

definition writeFrameStart :: "bool \<Rightarrow> byte \<Rightarrow> byte list \<Rightarrow> ws_error option \<Rightarrow> ws_error + byte list
    \<Rightarrow> ws_error option \<Rightarrow> ws_error + byte list" where
  "writeFrameStart isClient op payload deadline random start =
     (if op \<ge> 8 \<and> length payload > 125 then Inl Control_payload_too_large
      else case deadline of
        Some e \<Rightarrow> Inl e
      | None \<Rightarrow>
          (case (if isClient then random else Inr []) of
             Inl e \<Rightarrow> Inl e
           | Inr key \<Rightarrow>
               (case start of Some e \<Rightarrow> Inl e | None \<Rightarrow> Inr (frame_bytes isClient key op payload))))"

text \<open>
  \<^verbatim>\<open>writeFull\<close> against a writer that answers its calls from a list: how many bytes it took, at most as
  many as it was given, and its error. The result is what reached the network and the error.
\<close>

fun writeFull :: "(nat \<times> ws_error option) list \<Rightarrow> byte list \<Rightarrow> byte list \<times> ws_error option" where
  "writeFull ws [] = ([], None)"
| "writeFull [] p = ([], Some Write_failed)"
| "writeFull ((n, err) # ws) p =
     (let k = min n (length p) in
      case err of
        Some e \<Rightarrow> (take k p, Some e)
      | None \<Rightarrow>
          if k = 0 then ([], Some Short_write)
          else (case writeFull ws (drop k p) of (out, e) \<Rightarrow> (take k p @ out, e)))"

text \<open>
  \<^verbatim>\<open>ReadText\<close>: \<open>reply\<close> tells whether writing a pong succeeds; \<open>close_sent\<close> is the state of
  \<^verbatim>\<open>closeFrameOnce\<close>. The result is the message or the error, the control frames written on the way (opcode
  and payload), and the rest of the input.
\<close>

record read_result =
  outcome :: "ws_error + byte list"
  replies :: "(byte \<times> byte list) list"
  input_left :: "byte list"

lemma read_length_rest: "read_length l bs = Inr (n, bs1) \<Longrightarrow> length bs1 \<le> length bs"
  by (auto simp: read_length_def read_full_def split: if_splits option.splits)

lemma read_full_Some: "read_full n bs = Some (a, r) \<longleftrightarrow> bs = a @ r \<and> length a = n"
  by (auto simp: read_full_def)

lemma readFrame_cases:
  assumes "readFrame c bs = Inr (fin, op, p, rest)"
  obtains h0 h1 bs1 l key q where "bs = h0 # h1 # bs1"
    "h0 AND 0x70 = 0" "fin = (h0 AND 0x80 \<noteq> 0)" "op = h0 AND 0x0f" "(h1 AND 0x80 \<noteq> 0) = (\<not> c)"
    "read_length (unat (h1 AND 0x7f)) bs1 = Inr (l, key @ q @ rest)"
    "length key = (if c then 0 else 4)" "length q = l" "p = (if c then q else apply_mask key q)"
    "\<not> (op \<ge> 8 \<and> (\<not> fin \<or> l > 125))" "l \<le> maxMessageSize"
proof -
  obtain h bs1 where h: "read_full 2 bs = Some (h, bs1)"
    using assms by (cases "read_full 2 bs") (auto simp: readFrame_def)
  then obtain h0 h1 where bs: "h = [h0, h1]" "bs = h0 # h1 # bs1"
    by (auto simp: read_full_Some numeral_2_eq_2 length_Suc_conv)
  obtain l bs2 where l: "read_length (unat (h1 AND 0x7f)) bs1 = Inr (l, bs2)"
    using assms h bs by (cases "read_length (unat (h1 AND 0x7f)) bs1") (auto simp: readFrame_def Let_def split: if_splits)
  obtain key bs3 where k: "read_full (if h1 AND 0x80 \<noteq> 0 then 4 else 0) bs2 = Some (key, bs3)"
    using assms h bs l
    by (cases "read_full (if h1 AND 0x80 \<noteq> 0 then 4 else 0) bs2") (auto simp: readFrame_def Let_def split: if_splits)
  obtain q bs4 where q: "read_full l bs3 = Some (q, bs4)"
    using assms h bs l k by (cases "read_full l bs3") (auto simp: readFrame_def Let_def split: if_splits)
  have e: "readFrame c bs = (if h0 AND 0x70 \<noteq> 0 then Inl Extensions
      else if (h1 AND 0x80 \<noteq> 0) = c then (if c then Inl Must_not_be_masked else Inl Must_be_masked)
      else if h0 AND 0x0f \<ge> 8 \<and> (h0 AND 0x80 = 0 \<or> l > 125) then Inl Invalid_control
      else if l > maxMessageSize then Inl Frame_too_large
      else Inr (h0 AND 0x80 \<noteq> 0, h0 AND 0x0f, if h1 AND 0x80 \<noteq> 0 then apply_mask key q else q, bs4))"
    using h bs l k q by (simp add: readFrame_def Let_def cong: if_cong)
  show ?thesis
  proof (rule that [of h0 h1 bs1 l key q])
    show "read_length (unat (h1 AND 0x7f)) bs1 = Inr (l, key @ q @ rest)"
      using assms l k q e by (auto simp: read_full_Some split: if_splits)
  qed (use assms bs k q e in \<open>auto simp: read_full_Some split: if_splits\<close>)
qed

lemma readFrame_rest: "readFrame c bs = Inr (fin, op, p, rest) \<Longrightarrow> length rest < length bs"
  by (erule readFrame_cases) (drule read_length_rest, simp)

function ReadText_loop :: "bool \<Rightarrow> (byte list \<Rightarrow> bool) \<Rightarrow> bool \<Rightarrow> bool \<Rightarrow> byte list \<Rightarrow> byte list \<Rightarrow> read_result" where
  "ReadText_loop isClient reply close_sent fragmented message bs =
     (case readFrame isClient bs of
        Inl e \<Rightarrow> \<lparr>outcome = Inl e, replies = [], input_left = bs\<rparr>
      | Inr (fin, op, payload, rest) \<Rightarrow>
          (let stop = (\<lambda>e. \<lparr>outcome = Inl e, replies = [], input_left = rest\<rparr>);
               give = (\<lambda>m. \<lparr>outcome = Inr m, replies = [], input_left = rest\<rparr>) in
           if op = 0 then
             (if \<not> fragmented then stop Unexpected_continuation
              else if length message + length payload > maxMessageSize then stop Message_too_large
              else if fin then give (message @ payload)
              else ReadText_loop isClient reply close_sent fragmented (message @ payload) rest)
           else if op = 1 then
             (if fragmented then stop Nested_message
              else if fin then give payload
              else ReadText_loop isClient reply close_sent True (message @ payload) rest)
           else if op = 2 then stop Binary_message
           else if op = 8 then
             (if length payload = 1 then stop Invalid_close
              else (stop EOF_close)\<lparr>replies := if close_sent then [] else [(8, payload)]\<rparr>)
           else if op = 9 then
             (if \<not> reply payload then stop Write_failed
              else (let r = ReadText_loop isClient reply close_sent fragmented message rest in
                    r\<lparr>replies := (10, payload) # replies r\<rparr>))
           else if op = 10 then ReadText_loop isClient reply close_sent fragmented message rest
           else stop Unsupported_opcode))"
  by auto
termination
  by (relation "measure (\<lambda>(c, r, cl, f, m, bs). length bs)") (auto dest: readFrame_rest)

declare ReadText_loop.simps [simp del]

definition ReadText :: "bool \<Rightarrow> (byte list \<Rightarrow> bool) \<Rightarrow> bool \<Rightarrow> byte list \<Rightarrow> read_result" where
  "ReadText isClient reply close_sent bs = ReadText_loop isClient reply close_sent False [] bs"

section \<open>Bytes and lengths\<close>

lemma unat_byte_less: "unat (w :: byte) < 256"
proof -
  have "unat w < 2 ^ LENGTH(8)" by (rule unsigned_less)
  then show ?thesis by simp
qed

text \<open>A claim about all bytes is a claim about 256 numbers.\<close>

lemma all_bytes: "(\<forall>w :: byte. P w) \<longleftrightarrow> list_all (\<lambda>n. P (word_of_nat n)) [0..<256]"
proof
  assume r: "list_all (\<lambda>n. P (word_of_nat n)) [0..<256]"
  show "\<forall>w :: byte. P w"
  proof
    fix w :: byte
    have "unat w \<in> {0..<256}" by (simp add: unat_byte_less)
    with r have "P (word_of_nat (unat w))" unfolding list_all_iff set_upt by blast
    then show "P w" by simp
  qed
qed (simp add: list_all_iff)

lemma first_byte:
  "\<forall>h :: byte. h AND 0x70 = 0 \<longrightarrow> h = (if h AND 0x80 \<noteq> 0 then 0x80 else 0) OR (h AND 0x0f)"
  unfolding all_bytes by code_simp

lemma first_byte_parts:
  "\<forall>op :: byte. op < 16 \<longrightarrow> (0x80 OR op) AND 0x70 = 0 \<and> (0x80 OR op) AND 0x80 \<noteq> 0 \<and> (0x80 OR op) AND 0x0f = op"
  unfolding all_bytes by code_simp

lemma second_byte:
  "\<forall>h :: byte. h = (if h AND 0x80 \<noteq> 0 then 0x80 else 0) OR (h AND 0x7f) \<and> unat (h AND 0x7f) < 128"
  unfolding all_bytes by code_simp

lemma second_byte_parts:
  "\<forall>l :: byte. unat l < 128 \<longrightarrow> ((0x80 OR l) AND 0x80 \<noteq> 0 \<and> (0x80 OR l) AND 0x7f = l
     \<and> (0 OR l) AND 0x80 = 0 \<and> (0 OR l) AND 0x7f = l)"
  unfolding all_bytes by code_simp

lemma get_uint_append: "get_uint (bs @ [b]) = get_uint bs * 256 + unat b"
  by (simp add: get_uint_def)

lemma put_uint_length [simp]: "length (put_uint k n) = k"
  by (induction k) auto

lemma put_uint_snoc: "put_uint (Suc k) n = put_uint k (n div 256) @ [word_of_nat n]"
proof (induction k arbitrary: n)
  case 0
  then show ?case by simp
next
  case (Suc k)
  have "put_uint (Suc (Suc k)) n = word_of_nat (n div 256 ^ Suc k) # put_uint (Suc k) n" by simp
  also have "\<dots> = word_of_nat (n div 256 div 256 ^ k) # put_uint k (n div 256) @ [word_of_nat n]"
    by (simp only: Suc) (simp add: div_mult2_eq)
  finally show ?case by simp
qed

lemma unat_byte: "unat (word_of_nat n :: byte) = n mod 256"
  by (simp add: unat_of_nat)

lemma get_put_uint: "n < 256 ^ k \<Longrightarrow> get_uint (put_uint k n) = n"
proof (induction k arbitrary: n)
  case 0
  then show ?case by (simp add: get_uint_def)
next
  case (Suc k)
  have "n div 256 < 256 ^ k" using Suc.prems by (simp add: less_mult_imp_div_less)
  then show ?case using Suc.IH [of "n div 256"]
    by (simp only: put_uint_snoc get_uint_append unat_byte) simp
qed

lemma put_get_uint: "put_uint (length bs) (get_uint bs) = bs \<and> get_uint bs < 256 ^ length bs"
proof (induction bs rule: rev_induct)
  case Nil
  then show ?case by (simp add: get_uint_def)
next
  case (snoc b bs)
  have b: "unat b < 256" by (rule unat_byte_less)
  have "word_of_nat (get_uint bs * 256 + unat b) = b"
    using b by (intro word_unat_eq_iff [THEN iffD2]) (simp only: unat_byte, simp)
  moreover have "(get_uint bs * 256 + unat b) div 256 = get_uint bs" using b by simp
  moreover have "get_uint bs * 256 + unat b < 256 ^ Suc (length bs)"
  proof -
    have "get_uint bs + 1 \<le> 256 ^ length bs" using snoc by simp
    then have "(get_uint bs + 1) * 256 \<le> 256 ^ length bs * 256" by (rule mult_le_mono1)
    then show ?thesis using b by simp
  qed
  ultimately show ?case using snoc
    by (simp only: length_append list.size(3,4) get_uint_append) (simp add: put_uint_snoc del: put_uint.simps)
qed

lemma apply_mask_length [simp]: "length (apply_mask key p) = length p"
  by (simp add: apply_mask_def)

lemma apply_mask_twice [simp]: "apply_mask key (apply_mask key p) = p"
  by (rule nth_equalityI) (simp_all add: apply_mask_def xor.assoc)

section \<open>Frames on the wire\<close>

text \<open>
  The general form of a frame, fragments included: \<^verbatim>\<open>writeFrameStart\<close> builds the one whose final bit is
  set.
\<close>

record ws_frame =
  fin :: bool
  opcode :: byte
  payload :: "byte list"
  mask_key :: "byte list"

definition wire_frame :: "bool \<Rightarrow> ws_frame \<Rightarrow> byte list" where
  "wire_frame isClient f =
     ((if fin f then 0x80 else 0) OR opcode f) # tl (frame_bytes isClient (mask_key f) (opcode f) (payload f))"

definition sound_frame :: "bool \<Rightarrow> ws_frame \<Rightarrow> bool" where
  "sound_frame isClient f \<longleftrightarrow> opcode f < 16 \<and> (opcode f \<ge> 8 \<longrightarrow> fin f \<and> length (payload f) \<le> 125)
     \<and> length (payload f) \<le> maxMessageSize \<and> length (mask_key f) = (if isClient then 4 else 0)"

lemma first_byte_any:
  "op < (16 :: byte) \<Longrightarrow> ((if b then 0x80 else 0) OR op) AND 0x70 = 0
     \<and> (((if b then 0x80 else 0) OR op) AND 0x80 \<noteq> 0) = b \<and> ((if b then 0x80 else 0) OR op) AND 0x0f = op"
proof -
  assume op: "op < 16"
  have "\<forall>op :: byte. op < 16 \<longrightarrow> op AND 0x70 = 0 \<and> op AND 0x80 = 0 \<and> op AND 0x0f = op"
    unfolding all_bytes by code_simp
  with first_byte_parts op show ?thesis by simp
qed

lemma second_byte_any:
  "unat (l :: byte) < 128 \<Longrightarrow> (((if b then 0x80 else 0) OR l) AND 0x80 \<noteq> 0) = b
     \<and> ((if b then 0x80 else 0) OR l) AND 0x7f = l"
  using second_byte_parts by simp

text \<open>The header after the first byte: the second byte and the length bytes.\<close>

lemma frame_head:
  assumes "n \<le> maxMessageSize"
  obtains l ext where "unat l < 128" "read_length (unat l) (ext @ rest) = Inr (n, rest)"
    "\<And>c key op p. length p = n \<Longrightarrow>
       tl (frame_bytes c key op p)
         = ((if c then 0x80 else 0) OR l) # ext @ (if c then key @ apply_mask key p else p)"
proof -
  consider "n < 126" | "\<not> n < 126" "n \<le> 65535" | "\<not> n < 126" "\<not> n \<le> 65535" by linarith
  then show ?thesis
  proof cases
    case 1
    then have "unat (word_of_nat n :: byte) = n" by (simp add: unat_byte)
    with 1 show ?thesis by (intro that [of "word_of_nat n" "[]"]) (simp_all add: read_length_def frame_bytes_def)
  next
    case 2
    then have "get_uint (put_uint 2 n) = n" by (intro get_put_uint) simp
    with 2 show ?thesis
      by (intro that [of 126 "put_uint 2 n"])
        (simp_all add: read_length_def read_full_def frame_bytes_def del: put_uint.simps)
  next
    case 3
    have "n < 2 ^ 63" using assms by (simp add: maxMessageSize_def)
    moreover from this have "get_uint (put_uint 8 n) = n" by (intro get_put_uint) simp
    ultimately show ?thesis using 3
      by (intro that [of 127 "put_uint 8 n"])
        (simp_all add: read_length_def read_full_def frame_bytes_def del: put_uint.simps)
  qed
qed

lemma read_wire_frame:
  assumes "sound_frame c f"
  shows "readFrame (\<not> c) (wire_frame c f @ rest) = Inr (fin f, opcode f, payload f, rest)"
proof -
  let ?tail = "(if c then mask_key f @ apply_mask (mask_key f) (payload f) else payload f) @ rest"
  have n: "length (payload f) \<le> maxMessageSize" using assms by (simp add: sound_frame_def)
  obtain l ext where l: "unat l < 128" "read_length (unat l) (ext @ ?tail) = Inr (length (payload f), ?tail)"
    "wire_frame c f = ((if fin f then 0x80 else 0) OR opcode f) # ((if c then 0x80 else 0) OR l) # ext
       @ (if c then mask_key f @ apply_mask (mask_key f) (payload f) else payload f)"
    by (rule frame_head [OF n, of ?tail]) (simp add: wire_frame_def)
  have op: "opcode f < 16" using assms by (simp add: sound_frame_def)
  note b = first_byte_any [OF op, of "fin f"] second_byte_any [OF l(1), of c]
  show ?thesis
    unfolding readFrame_def l(3)
    using b l(2) assms by (auto simp: read_full_def Let_def sound_frame_def)
qed

lemma wire_frame_written:
  "fin f \<Longrightarrow> wire_frame c f = frame_bytes c (mask_key f) (opcode f) (payload f)"
  by (simp add: wire_frame_def frame_bytes_def Let_def)

text \<open>What the parser accepts is the one encoding of what it returns.\<close>

lemma read_length_inverse:
  assumes "read_length (unat h) bs = Inr (n, rest)" "unat (h :: byte) < 128"
  shows "\<exists>ext. bs = ext @ rest \<and> (\<forall>c key op p. length p = n \<longrightarrow>
     tl (frame_bytes c key op p)
       = ((if c then 0x80 else 0) OR h) # ext @ (if c then key @ apply_mask key p else p))"
proof -
  consider "unat h < 126" | "unat h = 126" | "unat h = 127" using assms(2) by linarith
  then show ?thesis
  proof cases
    case 1
    then show ?thesis using assms by (auto simp: read_length_def frame_bytes_def)
  next
    case 2
    then have h: "h = 126" using word_unat_eq_iff [of h 126] by simp
    obtain b where b: "bs = b @ rest" "length b = 2" "n = get_uint b" "\<not> get_uint b < 126"
      using assms 2 by (auto simp: read_length_def read_full_Some split: if_splits option.splits)
    have "put_uint 2 n = b" "n < 65536" using put_get_uint [of b] b by simp_all
    then show ?thesis using b h
      by (intro exI [of _ b]) (auto simp: frame_bytes_def simp del: put_uint.simps)
  next
    case 3
    then have h: "h = 127" using word_unat_eq_iff [of h 127] by simp
    obtain b where b: "bs = b @ rest" "length b = 8" "n = get_uint b" "\<not> get_uint b \<le> 65535"
      using assms 3 by (auto simp: read_length_def read_full_Some split: if_splits option.splits)
    have "put_uint 8 n = b" using put_get_uint [of b] b by simp
    then show ?thesis using b h
      by (intro exI [of _ b]) (auto simp: frame_bytes_def simp del: put_uint.simps)
  qed
qed

lemma read_frame_inverse:
  assumes "readFrame c bs = Inr (fi, op, p, rest)"
  shows "\<exists>f. bs = wire_frame (\<not> c) f @ rest \<and> fin f = fi \<and> opcode f = op \<and> payload f = p \<and> sound_frame (\<not> c) f"
  using assms
proof (cases rule: readFrame_cases)
  case (1 h0 h1 bs1 l key q)
  have len: "length p = l" using 1 by auto
  have lt: "unat (h1 AND 0x7f) < 128" using second_byte by blast
  obtain ext where ext: "bs1 = ext @ key @ q @ rest"
    "tl (frame_bytes (\<not> c) key op p) = ((if \<not> c then 0x80 else 0) OR (h1 AND 0x7f)) # ext @ (if \<not> c then key @ apply_mask key p else p)"
    using read_length_inverse [OF 1(6) lt] len by auto
  have h1: "h1 = (if \<not> c then 0x80 else 0) OR (h1 AND 0x7f)"
    using second_byte [THEN spec, of h1, THEN conjunct1] unfolding 1(5) .
  have h0: "h0 = (if fi then 0x80 else 0) OR op"
    using first_byte [THEN spec, THEN mp, OF 1(2)] unfolding 1(3) 1(4) .
  have k: "(if \<not> c then key @ apply_mask key p else p) = key @ q" using 1(7,9) by auto
  have "tl (frame_bytes (\<not> c) key op p) = h1 # ext @ key @ q"
    using ext(2) unfolding k h1 [symmetric] .
  then have "bs = wire_frame (\<not> c) \<lparr>fin = fi, opcode = op, payload = p, mask_key = key\<rparr> @ rest"
    using 1(1) ext(1) h0 by (simp add: wire_frame_def)
  moreover have "op < 16"
  proof -
    have "\<forall>h :: byte. h AND 0x0f < 16" unfolding all_bytes by code_simp
    then show ?thesis using 1(4) by simp
  qed
  ultimately show ?thesis using 1(7,10,11) len
    by (intro exI [of _ "\<lparr>fin = fi, opcode = op, payload = p, mask_key = key\<rparr>"]) (auto simp: sound_frame_def)
qed

section \<open>Messages\<close>

text \<open>The frames of a message in fragments, with pings and pongs in between.\<close>

definition inner_frame :: "ws_frame \<Rightarrow> bool" where
  "inner_frame f \<longleftrightarrow> (opcode f = 0 \<and> \<not> fin f) \<or> opcode f = 9 \<or> opcode f = 10"

definition text_of :: "ws_frame list \<Rightarrow> byte list" where
  "text_of fs = concat (map payload (filter (\<lambda>f. opcode f = 0 \<or> opcode f = 1) fs))"

definition pongs_of :: "ws_frame list \<Rightarrow> (byte \<times> byte list) list" where
  "pongs_of fs = map (\<lambda>f. (10, payload f)) (filter (\<lambda>f. opcode f = 9) fs)"

lemma read_inner_frames:
  assumes "list_all (sound_frame c) (fs @ [f])" "list_all inner_frame fs" "fin f" "opcode f = 0"
    and "length m + length (text_of (fs @ [f])) \<le> maxMessageSize"
  shows "ReadText_loop (\<not> c) (\<lambda>_. True) cl True m (concat (map (wire_frame c) (fs @ [f])) @ rest)
    = \<lparr>outcome = Inr (m @ text_of (fs @ [f])), replies = pongs_of fs, input_left = rest\<rparr>"
  using assms
proof (induction fs arbitrary: m)
  case Nil
  then have "readFrame (\<not> c) (wire_frame c f @ rest) = Inr (True, 0, payload f, rest)"
    using read_wire_frame [of c f rest] by simp
  with Nil show ?case by (simp add: ReadText_loop.simps text_of_def pongs_of_def Let_def)
next
  case (Cons g fs)
  let ?rest = "concat (map (wire_frame c) (fs @ [f])) @ rest"
  have r: "readFrame (\<not> c) (wire_frame c g @ ?rest) = Inr (fin g, opcode g, payload g, ?rest)"
    using Cons.prems(1) by (intro read_wire_frame) simp
  have "opcode g = 0 \<and> \<not> fin g \<or> opcode g = 9 \<or> opcode g = 10"
    using Cons.prems(2) by (simp add: inner_frame_def)
  moreover have "length m + length (text_of (fs @ [f])) \<le> maxMessageSize"
    "opcode g = 0 \<Longrightarrow> length (m @ payload g) + length (text_of (fs @ [f])) \<le> maxMessageSize"
    using Cons.prems(5) by (auto simp: text_of_def split: if_splits)
  ultimately show ?case
    using r Cons.IH [of m] Cons.IH [of "m @ payload g"] Cons.prems
    by (auto simp: ReadText_loop.simps [of _ _ _ _ _ "wire_frame c g @ _"] Let_def text_of_def pongs_of_def)
qed

lemma ReadText_loop_bound:
  assumes "length m \<le> maxMessageSize" "fr \<or> m = []" "outcome (ReadText_loop c reply cl fr m bs) = Inr x"
  shows "length x \<le> maxMessageSize"
  using assms
proof (induction "length bs" arbitrary: fr m bs rule: less_induct)
  case less
  show ?case
  proof (cases "readFrame c bs")
    case (Inl e)
    with less.prems show ?thesis by (simp add: ReadText_loop.simps)
  next
    case (Inr a)
    obtain fi op p rest where a: "a = (fi, op, p, rest)" by (cases a)
    have p: "length p \<le> maxMessageSize" using Inr a by (auto elim!: readFrame_cases)
    have IH: "length m' \<le> maxMessageSize \<Longrightarrow> fr' \<or> m' = [] \<Longrightarrow>
        outcome (ReadText_loop c reply cl fr' m' rest) = Inr x \<Longrightarrow> ?thesis" for fr' m'
      using less.hyps [of rest m' fr'] readFrame_rest Inr a by simp
    show ?thesis
      using less.prems Inr a p IH [of m fr] IH [of "m @ p" fr] IH [of "m @ p" True]
      unfolding ReadText_loop.simps [of c reply cl fr m bs]
      by (auto simp: Let_def split: if_splits)
  qed
qed

section \<open>Properties\<close>

text \<open>
  C15: a frame one end writes is read back by the other end as it was: the bytes \<^verbatim>\<open>writeFrameStart\<close> builds,
  masked or not, give \<^verbatim>\<open>readFrame\<close> of the peer a final frame with the same opcode and payload and leave
  the rest of the stream untouched, for every payload up to the message limit and every random mask.
\<close>

theorem written_frame_is_read_back:
  assumes "writeFrameStart isClient op p None (Inr key) None = Inr bytes"
    and "op < 16" "length p \<le> maxMessageSize" "length key = 4"
  shows "readFrame (\<not> isClient) (bytes @ rest) = Inr (True, op, p, rest)"
proof -
  define f where "f = \<lparr>fin = True, opcode = op, payload = p, mask_key = if isClient then key else []\<rparr>"
  have "sound_frame isClient f" "bytes = wire_frame isClient f"
    using assms by (auto simp: f_def sound_frame_def writeFrameStart_def wire_frame_written split: if_splits)
  then show ?thesis using read_wire_frame [of isClient f rest] by (simp add: f_def)
qed

theorem written_frame_is_read_back_witness:
  "\<exists>bytes. writeFrameStart True 1 [104, 105] None (Inr [1, 2, 3, 4]) None = Inr bytes
     \<and> readFrame False (bytes @ [7]) = Inr (True, 1, [104, 105], [7])"
proof -
  obtain bytes where w: "writeFrameStart True 1 [104, 105] None (Inr [1, 2, 3, 4]) None = Inr bytes"
    by (simp add: writeFrameStart_def)
  from written_frame_is_read_back [OF w, of "[7]"] w show ?thesis by (simp add: maxMessageSize_def)
qed

text \<open>
  C21: \<^verbatim>\<open>readFrame\<close> accepts one encoding per frame: whenever it returns a frame, what it consumed is the
  canonical form of that frame (shortest length form, reserved bits clear, masked exactly if the reader
  is the server) and nothing else.
\<close>

theorem accepted_frame_is_canonical:
  assumes "readFrame isClient input = Inr (fi, op, p, rest)"
  shows "\<exists>f. input = wire_frame (\<not> isClient) f @ rest \<and> fin f = fi \<and> opcode f = op \<and> payload f = p
    \<and> sound_frame (\<not> isClient) f"
  using assms by (rule read_frame_inverse)

theorem accepted_frame_is_canonical_witness:
  "readFrame True [0x81, 2, 104, 105, 7] = Inr (True, 1, [104, 105], [7])
   \<and> (\<exists>f. [0x81, 2, 104, 105, 7] = wire_frame False f @ [7] \<and> payload f = [104, 105])"
proof -
  have r: "readFrame True [0x81, 2, 104, 105, 7] = Inr (True, 1, [104, 105], [7])"
    by (simp add: readFrame_def read_full_def read_length_def maxMessageSize_def word_le_nat_alt)
  with accepted_frame_is_canonical [OF r] show ?thesis by auto
qed

text \<open>
  C22: a text message sent in fragments, with pings and pongs arriving between them, is delivered as the
  concatenation of its fragments, every ping is answered once and in order, and what follows the message
  is left for the next read.
\<close>

theorem fragmented_message_is_reassembled:
  assumes "list_all (sound_frame c) (g # fs @ [f])" "opcode g = 1" "\<not> fin g"
    and "list_all inner_frame fs" "opcode f = 0" "fin f"
    and "length (text_of (g # fs @ [f])) \<le> maxMessageSize"
  shows "ReadText (\<not> c) (\<lambda>_. True) cl (concat (map (wire_frame c) (g # fs @ [f])) @ rest)
    = \<lparr>outcome = Inr (text_of (g # fs @ [f])), replies = pongs_of fs, input_left = rest\<rparr>"
proof -
  let ?rest = "concat (map (wire_frame c) (fs @ [f])) @ rest"
  have r: "readFrame (\<not> c) (wire_frame c g @ ?rest) = Inr (False, 1, payload g, ?rest)"
    using read_wire_frame [of c g ?rest] assms(1-3) by simp
  have "ReadText_loop (\<not> c) (\<lambda>_. True) cl True (payload g) ?rest
      = \<lparr>outcome = Inr (payload g @ text_of (fs @ [f])), replies = pongs_of fs, input_left = rest\<rparr>"
    using assms by (intro read_inner_frames) (simp_all add: text_of_def)
  then show ?thesis using r assms(2) by (simp add: ReadText_def ReadText_loop.simps Let_def text_of_def)
qed

theorem fragmented_message_is_reassembled_witness:
  "let g = \<lparr>fin = False, opcode = 1, payload = [104], mask_key = []\<rparr>;
       ping = \<lparr>fin = True, opcode = 9, payload = [1], mask_key = []\<rparr>;
       f = \<lparr>fin = True, opcode = 0, payload = [105], mask_key = []\<rparr> in
   ReadText True (\<lambda>_. True) False (concat (map (wire_frame False) [g, ping, f]) @ [9])
     = \<lparr>outcome = Inr [104, 105], replies = [(10, [1])], input_left = [9]\<rparr>"
  using fragmented_message_is_reassembled [of False "\<lparr>fin = False, opcode = 1, payload = [104], mask_key = []\<rparr>"
      "[\<lparr>fin = True, opcode = 9, payload = [1], mask_key = []\<rparr>]"
      "\<lparr>fin = True, opcode = 0, payload = [105], mask_key = []\<rparr>" False "[9]"]
  by (simp add: Let_def sound_frame_def inner_frame_def text_of_def pongs_of_def maxMessageSize_def
      word_le_nat_alt word_less_nat_alt)

text \<open>
  Whatever bytes arrive, a message \<^verbatim>\<open>ReadText\<close> delivers never exceeds the 16 MiB limit, however it is
  fragmented.
\<close>

theorem delivered_message_is_bounded:
  "case outcome (ReadText isClient reply close_sent input) of
     Inl _ \<Rightarrow> True
   | Inr m \<Rightarrow> length m \<le> maxMessageSize"
  using ReadText_loop_bound [of "[]" False isClient reply close_sent input]
  by (simp add: ReadText_def split: sum.split)

text \<open>
  Writing in full: whatever amounts the writer takes per call, what reached the network is a prefix
  of the frame, and it is the whole frame when no error is reported.
\<close>

theorem write_full_is_complete:
  "fst (writeFull ws p) = take (length (fst (writeFull ws p))) p
   \<and> (snd (writeFull ws p) = None \<longrightarrow> fst (writeFull ws p) = p)"
proof (induction ws p rule: writeFull.induct)
  case (3 n err ws b p)
  define k where "k = min n (length (b # p))"
  obtain out e where w: "writeFull ws (drop k (b # p)) = (out, e)" by force
  have k: "k \<le> length (b # p)" by (simp add: k_def)
  have step: "writeFull ((n, err) # ws) (b # p) =
     (case err of
        Some e \<Rightarrow> (take k (b # p), Some e)
      | None \<Rightarrow>
          if k = 0 then ([], Some Short_write)
          else (case writeFull ws (drop k (b # p)) of (out, e) \<Rightarrow> (take k (b # p) @ out, e)))"
    by (simp only: writeFull.simps Let_def k_def)
  show ?case
  proof (cases "err = None \<and> k \<noteq> 0")
    case True
    then have "out = take (length out) (drop k (b # p)) \<and> (e = None \<longrightarrow> out = drop k (b # p))"
      using "3.IH" [of k] w k_def by auto
    moreover have "writeFull ((n, err) # ws) (b # p) = (take k (b # p) @ out, e)"
      using True w step by simp
    moreover have "take (k + length out) (b # p) = take k (b # p) @ take (length out) (drop k (b # p))"
      by (rule take_add)
    ultimately show ?thesis using k by (auto simp: min_def)
  next
    case False
    then show ?thesis unfolding step using k by (auto simp: min_def split: option.splits)
  qed
qed auto

theorem write_full_is_complete_witness:
  "snd (writeFull [(2, None), (9, None)] [1, 2, 3]) = None
   \<and> fst (writeFull [(2, None), (9, None)] [1, 2, 3]) = [1, 2, 3]"
proof -
  have "snd (writeFull [(2, None), (9, None)] [1, 2, 3]) = None" by (simp add: Let_def)
  with write_full_is_complete [of "[(2, None), (9, None)]" "[1, 2, 3]"] show ?thesis by blast
qed

end
