(* ===== verification/Result.thy ===== *)
theory Result
  imports Go_Lib
begin

text \<open>
  Fallible computations in the style of the contract and configuration code: a result is \<open>Inl\<close> of the
  error text or \<open>Inr\<close> of the value, \<open>andThen\<close> is the early return on error, and \<open>each\<close> and \<open>traverse\<close>
  are loops whose body may return an error. Strings are handled as \<^verbatim>\<open>strings\<close> does.
\<close>

section \<open>Results\<close>

type_synonym 'a result = "string + 'a"

fun andThen :: "'e + 'a \<Rightarrow> ('a \<Rightarrow> 'e + 'b) \<Rightarrow> 'e + 'b" where
  "andThen (Inl e) f = Inl e"
| "andThen (Inr x) f = f x"

fun each :: "('a \<Rightarrow> 's \<Rightarrow> 'e + 's) \<Rightarrow> 'a list \<Rightarrow> 's \<Rightarrow> 'e + 's" where
  "each f [] s = Inr s"
| "each f (x # xs) s = andThen (f x s) (each f xs)"

definition traverse :: "('a \<Rightarrow> 'e + 'b) \<Rightarrow> 'a list \<Rightarrow> 'e + 'b list" where
  "traverse f xs = each (\<lambda>x out. andThen (f x) (\<lambda>y. Inr (out @ [y]))) xs []"

text \<open>The error of a callee replaced or prefixed by the caller.\<close>

definition orElse :: "'e + 'a \<Rightarrow> 'f \<Rightarrow> 'f + 'a" where
  "orElse m e = (case m of Inl _ \<Rightarrow> Inl e | Inr x \<Rightarrow> Inr x)"

definition wrap :: "string \<Rightarrow> 'a result \<Rightarrow> 'a result" where
  "wrap prefix m = (case m of Inl e \<Rightarrow> Inl (prefix @ e) | Inr x \<Rightarrow> Inr x)"

lemma andThen_cong [fundef_cong]:
  "m = m' \<Longrightarrow> (\<And>x. m' = Inr x \<Longrightarrow> f x = f' x) \<Longrightarrow> andThen m f = andThen m' f'"
  by (cases m') auto

lemma each_cong [fundef_cong]:
  "xs = ys \<Longrightarrow> s = t \<Longrightarrow> (\<And>x s. x \<in> set ys \<Longrightarrow> f x s = g x s) \<Longrightarrow> each f xs s = each g ys t"
proof (induction ys arbitrary: xs s t)
  case (Cons y ys)
  then show ?case by (cases "g y t") auto
qed simp

lemma traverse_cong [fundef_cong]:
  "xs = ys \<Longrightarrow> (\<And>x. x \<in> set ys \<Longrightarrow> f x = g x) \<Longrightarrow> traverse f xs = traverse g ys"
  unfolding traverse_def by (rule each_cong) auto

lemma andThen_eq_Inr: "andThen m f = Inr y \<longleftrightarrow> (\<exists>x. m = Inr x \<and> f x = Inr y)"
  by (cases m) auto

lemma andThen_eq_Inl: "andThen m f = Inl e \<longleftrightarrow> m = Inl e \<or> (\<exists>x. m = Inr x \<and> f x = Inl e)"
  by (cases m) auto

lemma andThen_assoc: "andThen (andThen m f) g = andThen m (\<lambda>x. andThen (f x) g)"
  by (cases m) auto

lemma orElse_eq_Inr [simp]: "orElse m e = Inr y \<longleftrightarrow> m = Inr y"
  by (cases m) (auto simp: orElse_def)

lemma wrap_eq_Inr [simp]: "wrap p m = Inr y \<longleftrightarrow> m = Inr y"
  by (cases m) (auto simp: wrap_def)

lemma each_append: "each f (xs @ ys) s = andThen (each f xs s) (each f ys)"
proof (induction xs arbitrary: s)
  case (Cons x xs)
  then show ?case by (cases "f x s") auto
qed simp

text \<open>What the body keeps, the loop keeps.\<close>

lemma each_invariant:
  assumes "each f xs s = Inr t" "P s"
    and "\<And>x s s'. x \<in> set xs \<Longrightarrow> P s \<Longrightarrow> f x s = Inr s' \<Longrightarrow> P s'"
  shows "P t"
  using assms
proof (induction xs arbitrary: s)
  case (Cons x xs)
  obtain s' where "f x s = Inr s'" "each f xs s' = Inr t" using Cons.prems(1) by (auto simp: andThen_eq_Inr)
  moreover have "P s'" using Cons.prems(2) Cons.prems(3) [of x s s'] \<open>f x s = Inr s'\<close> by simp
  ultimately show ?case using Cons.prems(3) by (intro Cons.IH) auto
qed simp

lemma traverse_Inr_iff: "traverse f xs = Inr ys \<longleftrightarrow> list_all2 (\<lambda>x y. f x = Inr y) xs ys"
proof -
  have "each (\<lambda>x out. andThen (f x) (\<lambda>y. Inr (out @ [y]))) xs out = Inr zs
      \<longleftrightarrow> (\<exists>ys. zs = out @ ys \<and> list_all2 (\<lambda>x y. f x = Inr y) xs ys)" for out zs
  proof (induction xs arbitrary: out)
    case (Cons x xs)
    show ?case
    proof (cases "f x")
      case (Inr y)
      then show ?thesis using Cons.IH [of "out @ [y]"] by (auto simp: list_all2_Cons1)
    qed (auto simp: list_all2_Cons1)
  qed auto
  then show ?thesis by (simp add: traverse_def)
qed

lemma traverse_simps [simp]:
  "traverse f [] = Inr []"
  "traverse f (x # xs) = andThen (f x) (\<lambda>y. andThen (traverse f xs) (\<lambda>ys. Inr (y # ys)))"
proof -
  have gen: "each (\<lambda>x out. andThen (f x) (\<lambda>y. Inr (out @ [y]))) xs (out0 @ out)
      = andThen (each (\<lambda>x out. andThen (f x) (\<lambda>y. Inr (out @ [y]))) xs out) (\<lambda>ys. Inr (out0 @ ys))" for out0 out xs
  proof (induction xs arbitrary: out)
    case (Cons x xs)
    then show ?case by (cases "f x") auto
  qed simp
  show "traverse f [] = Inr []" by (simp add: traverse_def)
  show "traverse f (x # xs) = andThen (f x) (\<lambda>y. andThen (traverse f xs) (\<lambda>ys. Inr (y # ys)))"
    using gen [of xs "[y]" "[]" for y] by (cases "f x") (auto simp: traverse_def)
qed

lemma traverse_all: "traverse f xs = Inr ys \<Longrightarrow> (\<And>x y. x \<in> set xs \<Longrightarrow> f x = Inr y \<Longrightarrow> P y) \<Longrightarrow> list_all P ys"
proof (induction xs arbitrary: ys)
  case (Cons x xs)
  obtain y zs where y: "f x = Inr y" "traverse f xs = Inr zs" "ys = y # zs"
    using Cons.prems(1) by (auto simp: andThen_eq_Inr)
  moreover have "P y" using Cons.prems(2) [of x y] y(1) by simp
  moreover have "list_all P zs" using Cons.prems(2) by (intro Cons.IH [OF y(2)]) auto
  ultimately show ?case by simp
qed simp

section \<open>Strings\<close>

text \<open>
  \<^verbatim>\<open>strings.Fields\<close> on constants separated by single spaces, \<^verbatim>\<open>strings.Split\<close> by one byte, prefixes and
  suffixes, and case mapping of ASCII letters.
\<close>

fun Split :: "char \<Rightarrow> string \<Rightarrow> string list" where
  "Split sep [] = [[]]"
| "Split sep (c # s) =
     (if c = sep then [] # Split sep s
      else case Split sep s of [] \<Rightarrow> [[c]] | w # ws \<Rightarrow> (c # w) # ws)"

definition Fields :: "string \<Rightarrow> string list" where
  "Fields s = filter (\<lambda>w. w \<noteq> []) (Split (CHR '' '') s)"

definition HasPrefix :: "string \<Rightarrow> string \<Rightarrow> bool" where
  "HasPrefix s p \<longleftrightarrow> take (length p) s = p"

definition HasSuffix :: "string \<Rightarrow> string \<Rightarrow> bool" where
  "HasSuffix s p \<longleftrightarrow> length p \<le> length s \<and> drop (length s - length p) s = p"

definition ContainsAny :: "string \<Rightarrow> string \<Rightarrow> bool" where
  "ContainsAny s chars \<longleftrightarrow> list_ex (\<lambda>c. c \<in> set chars) s"

definition lower_char :: "char \<Rightarrow> char" where
  "lower_char c = (if 65 \<le> byte c \<and> byte c \<le> 90 then char_of (byte c + 32) else c)"

definition upper_char :: "char \<Rightarrow> char" where
  "upper_char c = (if 97 \<le> byte c \<and> byte c \<le> 122 then char_of (byte c - 32) else c)"

lemma Split_not_Nil [simp]: "Split sep s \<noteq> []"
  by (induction s) (auto split: list.splits)

lemma Split_join: "sep \<notin> set w \<Longrightarrow> Split sep (w @ sep # s) = w # Split sep s"
  by (induction w) auto

lemma Split_single: "sep \<notin> set w \<Longrightarrow> Split sep w = [w]"
  by (induction w) auto

lemma Split_no_sep: "w \<in> set (Split sep s) \<Longrightarrow> sep \<notin> set w"
  by (induction s arbitrary: w) (auto split: list.splits if_splits)

end
