(* ===== verification/Json_Integer.thy ===== *)
theory Json_Integer
  imports Go_Lib
begin

text \<open>
  Deciding whether the text of a JSON number denotes an integer, and which
  (\<^verbatim>\<open>src/internal/contract/json_integer.go\<close>), without expanding its exponent. The reference is the
  value of the text as mantissa times a power of ten over the unbounded integers.
\<close>

section \<open>Definitions\<close>

definition is_decimal :: "char \<Rightarrow> bool" where
  "is_decimal c \<longleftrightarrow> 48 \<le> byte c \<and> byte c \<le> 57"

definition decimalDigits :: "string \<Rightarrow> bool" where
  "decimalDigits s \<longleftrightarrow> list_all is_decimal s"

definition digit :: "char \<Rightarrow> int" where
  "digit c = int (byte c) - 48"

definition is_exponent_mark :: "char \<Rightarrow> bool" where
  "is_exponent_mark c \<longleftrightarrow> c = CHR ''e'' \<or> c = CHR ''E''"

text \<open>The sign, the mantissa before and after its point, whether it has a point, and the exponent.\<close>

definition split_number :: "string \<Rightarrow> bool \<times> string \<times> string \<times> bool \<times> string option" where
  "split_number text =
     (let negative = (text \<noteq> [] \<and> hd text = CHR ''-'');
          s = (if negative then tl text else text);
          mantissa = takeWhile (\<lambda>c. \<not> is_exponent_mark c) s;
          rest = dropWhile (\<lambda>c. \<not> is_exponent_mark c) s;
          whole = takeWhile (\<lambda>c. c \<noteq> CHR ''.'') mantissa;
          point = dropWhile (\<lambda>c. c \<noteq> CHR ''.'') mantissa in
      (negative, whole, tl point, point \<noteq> [], if rest = [] then None else Some (tl rest)))"

text \<open>The loop over the digits of the exponent, which stops growing beyond \<^verbatim>\<open>1<<40\<close>.\<close>

definition saturated :: "string \<Rightarrow> int" where
  "saturated s = foldl (\<lambda>e c. if e < 2 ^ 40 then e * 10 + digit c else e) 0 s"

definition exponent_sign :: "string \<Rightarrow> int" where
  "exponent_sign s = (if s \<noteq> [] \<and> hd s = CHR ''-'' then -1 else 1)"

definition exponent_digits :: "string \<Rightarrow> string" where
  "exponent_digits s = (if s \<noteq> [] \<and> (hd s = CHR ''+'' \<or> hd s = CHR ''-'') then tl s else s)"

definition trim_left_zeros :: "string \<Rightarrow> string" where
  "trim_left_zeros s = dropWhile (\<lambda>c. c = CHR ''0'') s"

definition trim_right_zeros :: "string \<Rightarrow> string" where
  "trim_right_zeros s = rev (dropWhile (\<lambda>c. c = CHR ''0'') (rev s))"

definition integralJSONNumber :: "string \<Rightarrow> (bool \<times> string \<times> int) option" where
  "integralJSONNumber text =
     (case split_number text of
        (negative, whole, fraction, point, exponent) \<Rightarrow>
          if whole = [] \<or> \<not> decimalDigits whole \<or> (point \<and> (fraction = [] \<or> \<not> decimalDigits fraction)) then None
          else if exponent \<noteq> None
            \<and> (exponent_digits (the exponent) = [] \<or> \<not> decimalDigits (exponent_digits (the exponent))) then None
          else
            (let exp = (case exponent of
                          None \<Rightarrow> 0
                        | Some x \<Rightarrow> saturated (exponent_digits x) * exponent_sign x);
                 significand = trim_left_zeros (whole @ fraction) in
             if significand = [] then Some (negative, [], 0)
             else
               (let trimmed = trim_right_zeros significand;
                    exp1 = exp - int (length fraction) + int (length significand - length trimmed) in
                if exp1 < 0 then None else Some (negative, trimmed, exp1))))"

definition JSONNumberIsInteger :: "string \<Rightarrow> bool" where
  "JSONNumberIsInteger text \<longleftrightarrow> integralJSONNumber text \<noteq> None"

definition digits_value :: "string \<Rightarrow> int" where
  "digits_value s = foldl (\<lambda>v c. v * 10 + digit c) 0 s"

text \<open>\<^verbatim>\<open>strconv.ParseInt\<close> on an optional sign and digits.\<close>

definition parse_int :: "bool \<Rightarrow> string \<Rightarrow> int option" where
  "parse_int negative s =
     (let v = (if negative then - digits_value s else digits_value s) in if in_int64 v then Some v else None)"

definition JSONNumberInt64 :: "string \<Rightarrow> int option" where
  "JSONNumberInt64 text =
     (case integralJSONNumber text of
        None \<Rightarrow> None
      | Some (negative, digits, zeros) \<Rightarrow>
          if digits = [] then Some 0
          else if int (length digits) + zeros > 19 then None
          else parse_int negative (digits @ replicate (nat zeros) (CHR ''0'')))"

section \<open>The value of a number text\<close>

text \<open>
  The reference: the mantissa as an integer and the exponent of ten it is scaled by; \<open>None\<close> for text that
  is not a number.
\<close>

definition number_value :: "string \<Rightarrow> (int \<times> int) option" where
  "number_value text =
     (case split_number text of
        (negative, whole, fraction, point, exponent) \<Rightarrow>
          if whole = [] \<or> \<not> decimalDigits whole \<or> (point \<and> (fraction = [] \<or> \<not> decimalDigits fraction)) then None
          else if exponent \<noteq> None
            \<and> (exponent_digits (the exponent) = [] \<or> \<not> decimalDigits (exponent_digits (the exponent))) then None
          else
            (let m = digits_value (whole @ fraction);
                 e = (case exponent of None \<Rightarrow> 0 | Some x \<Rightarrow> digits_value (exponent_digits x) * exponent_sign x) in
             Some (if negative then - m else m, e - int (length fraction))))"

text \<open>\<open>n\<close> is the mantissa \<open>m\<close> scaled by ten to the \<open>e\<close>.\<close>

definition denotes :: "int \<Rightarrow> int \<Rightarrow> int \<Rightarrow> bool" where
  "denotes m e n \<longleftrightarrow> (if 0 \<le> e then n = m * 10 ^ nat e else m = n * 10 ^ nat (- e))"

section \<open>Digits\<close>

lemma digit_range: "is_decimal c \<Longrightarrow> 0 \<le> digit c \<and> digit c \<le> 9"
  by (simp add: is_decimal_def digit_def)

lemma digit_zero: "is_decimal c \<Longrightarrow> digit c = 0 \<longleftrightarrow> c = CHR ''0''"
proof -
  have "byte (CHR ''0'') = 48" by (simp add: byte_def)
  then have "c = CHR ''0'' \<longleftrightarrow> byte c = 48" by (metis byte_inject)
  then show ?thesis by (auto simp: digit_def)
qed

lemma digits_value_snoc [simp]: "digits_value (s @ [c]) = digits_value s * 10 + digit c"
  by (simp add: digits_value_def)

lemma digits_value_Nil [simp]: "digits_value [] = 0"
  by (simp add: digits_value_def)

lemma digits_value_append: "digits_value (s @ t) = digits_value s * 10 ^ length t + digits_value t"
proof (induction t rule: rev_induct)
  case (snoc c t)
  have "digits_value (s @ t @ [c]) = digits_value ((s @ t) @ [c])" by simp
  also have "\<dots> = digits_value (s @ t) * 10 + digit c" by (rule digits_value_snoc)
  finally show ?case using snoc by (simp add: algebra_simps)
qed simp

lemma digits_value_zeros: "digits_value (replicate n (CHR ''0'')) = 0"
proof (induction n)
  case (Suc n)
  then show ?case using digits_value_snoc [of "replicate n (CHR ''0'')" "CHR ''0''"]
    by (simp add: replicate_append_same digit_def byte_def)
qed simp

lemma digits_value_nonneg: "decimalDigits s \<Longrightarrow> 0 \<le> digits_value s"
  by (induction s rule: rev_induct) (auto simp: decimalDigits_def dest: digit_range)

lemma digits_value_less: "decimalDigits s \<Longrightarrow> digits_value s < 10 ^ length s"
proof (induction s rule: rev_induct)
  case (snoc c s)
  then have "digits_value s + 1 \<le> 10 ^ length s" "digit c \<le> 9"
    using digit_range by (auto simp: decimalDigits_def)
  then show ?case by simp
qed simp

lemma trim_left_zeros_split: "\<exists>k. s = replicate k (CHR ''0'') @ trim_left_zeros s"
proof (induction s)
  case (Cons c s)
  then obtain k where "s = replicate k (CHR ''0'') @ trim_left_zeros s" by blast
  then show ?case
    by (cases "c = CHR ''0''") (auto simp: trim_left_zeros_def intro: exI [of _ "Suc k"] exI [of _ 0])
qed (simp add: trim_left_zeros_def)

lemma trim_right_zeros_split:
  "s = trim_right_zeros s @ replicate (length s - length (trim_right_zeros s)) (CHR ''0'')"
proof -
  obtain k where "rev s = replicate k (CHR ''0'') @ trim_left_zeros (rev s)"
    using trim_left_zeros_split by blast
  then have "s = trim_right_zeros s @ replicate k (CHR ''0'')"
    unfolding trim_right_zeros_def trim_left_zeros_def
    by (metis rev_append rev_replicate rev_rev_ident)
  moreover from this have "k = length s - length (trim_right_zeros s)"
    by (metis add_diff_cancel_left' length_append length_replicate)
  ultimately show ?thesis by simp
qed

section \<open>The decision is exact\<close>

lemma saturated_snoc: "saturated (s @ [c]) = (if saturated s < 2 ^ 40 then saturated s * 10 + digit c else saturated s)"
  by (simp add: saturated_def)

lemma saturated_cases:
  assumes "decimalDigits s"
  shows "saturated s = digits_value s \<or> 2 ^ 40 \<le> saturated s \<and> saturated s \<le> digits_value s"
  using assms
proof (induction s rule: rev_induct)
  case Nil
  then show ?case by (simp add: saturated_def)
next
  case (snoc c s)
  then have d: "0 \<le> digit c" "digit c \<le> 9" "decimalDigits s" by (auto simp: decimalDigits_def dest: digit_range)
  have "saturated s = digits_value s \<or> 2 ^ 40 \<le> saturated s \<and> saturated s \<le> digits_value s"
    using snoc.IH d(3) .
  moreover have "0 \<le> digits_value s" using digits_value_nonneg [OF d(3)] .
  ultimately show ?case using d(1) by (auto simp: saturated_snoc simp del: power_numeral)
qed

lemma not_dvd_last:
  assumes "decimalDigits d" "d \<noteq> []" "last d \<noteq> CHR ''0''"
  shows "\<not> 10 dvd digits_value d"
proof -
  obtain s c where d: "d = s @ [c]" using assms(2) by (cases d rule: rev_cases) auto
  then have c: "is_decimal c" "c \<noteq> CHR ''0''" using assms by (auto simp: decimalDigits_def)
  then have "1 \<le> digit c" "digit c \<le> 9" using digit_range [OF c(1)] digit_zero [OF c(1)] by linarith+
  then show ?thesis unfolding d digits_value_snoc by presburger
qed

lemma digits_value_Cons: "digits_value (c # s) = digit c * 10 ^ length s + digits_value s"
  using digits_value_append [of "[c]" s] by (simp add: digits_value_def)

lemma digits_value_ge:
  assumes "decimalDigits d" "d \<noteq> []" "hd d \<noteq> CHR ''0''"
  shows "10 ^ (length d - 1) \<le> digits_value d"
proof -
  obtain c s where d: "d = c # s" using assms(2) by (cases d) auto
  then have c: "is_decimal c" "c \<noteq> CHR ''0''" "decimalDigits s" using assms by (auto simp: decimalDigits_def)
  then have "1 \<le> digit c" using digit_range [OF c(1)] digit_zero [OF c(1)] by linarith
  then have "1 * 10 ^ length s \<le> digit c * 10 ^ length s" by (intro mult_right_mono) auto
  moreover have "10 ^ (length d - 1) = (10 :: int) ^ length s" by (simp add: d)
  moreover have "digits_value d = digit c * 10 ^ length s + digits_value s" by (simp add: d digits_value_Cons)
  ultimately show ?thesis using digits_value_nonneg [OF c(3)] by linarith
qed

lemma denotes_trimmed:
  assumes "\<not> 10 dvd T" "\<bar>s\<bar> = (1 :: int)"
  shows "denotes (s * T * 10 ^ k) e n \<longleftrightarrow> 0 \<le> e + int k \<and> n = s * T * 10 ^ nat (e + int k)"
proof (cases "0 \<le> e")
  case True
  then have "nat (e + int k) = k + nat e" by simp
  then show ?thesis using True by (simp add: denotes_def power_add algebra_simps)
next
  case e: False
  show ?thesis
  proof (cases "0 \<le> e + int k")
    case True
    then have "k = nat (e + int k) + nat (- e)" using e by simp
    then have "10 ^ k = 10 ^ nat (e + int k) * (10 :: int) ^ nat (- e)" by (metis power_add)
    then have "denotes (s * T * 10 ^ k) e n
        \<longleftrightarrow> (s * T * 10 ^ nat (e + int k)) * 10 ^ nat (- e) = n * 10 ^ nat (- e)"
      using e by (simp only: denotes_def if_False mult.assoc)
    also have "\<dots> \<longleftrightarrow> n = s * T * 10 ^ nat (e + int k)" by (subst mult_right_cancel) auto
    finally show ?thesis using True by simp
  next
    case False
    define j where "j = nat (- e) - k - 1"
    have "nat (- e) = k + Suc j" using False by (simp add: j_def)
    then have "10 ^ nat (- e) = 10 ^ k * (10 * (10 :: int) ^ j)" by (simp add: power_add)
    then have "denotes (s * T * 10 ^ k) e n \<longleftrightarrow> s * T * 10 ^ k = n * 10 ^ j * 10 * 10 ^ k"
      using e by (simp add: denotes_def algebra_simps)
    then have "denotes (s * T * 10 ^ k) e n \<longleftrightarrow> s * T = n * 10 ^ j * 10"
      by (subst (asm) mult_right_cancel) auto
    moreover have "s * T \<noteq> n * 10 ^ j * 10"
    proof
      assume "s * T = n * 10 ^ j * 10"
      then have "10 dvd s * T" by simp
      moreover have "s = 1 \<or> s = -1" using assms(2) by linarith
      ultimately show False using assms(1) by auto
    qed
    ultimately show ?thesis using False by simp
  qed
qed

lemma split_number_parts:
  assumes "split_number text = (neg, whole, frac, point, ex)"
  shows "\<not> point \<Longrightarrow> frac = []" "length whole + length frac \<le> length text"
proof -
  define s' where "s' = (if text \<noteq> [] \<and> hd text = CHR ''-'' then tl text else text)"
  define mt where "mt = takeWhile (\<lambda>c. \<not> is_exponent_mark c) s'"
  have p: "whole = takeWhile (\<lambda>c. c \<noteq> CHR ''.'') mt" "frac = tl (dropWhile (\<lambda>c. c \<noteq> CHR ''.'') mt)"
      "point = (dropWhile (\<lambda>c. c \<noteq> CHR ''.'') mt \<noteq> [])"
    using assms by (auto simp: split_number_def Let_def mt_def s'_def)
  show "\<not> point \<Longrightarrow> frac = []" unfolding p by (simp only: not_not list.sel(2))
  have "length whole + length (dropWhile (\<lambda>c. c \<noteq> CHR ''.'') mt) = length mt"
    unfolding p by (metis length_append takeWhile_dropWhile_id)
  then have "length whole + length frac \<le> length mt" unfolding p(2) by simp
  also have "\<dots> \<le> length s'" unfolding mt_def by (rule length_takeWhile_le)
  also have "\<dots> \<le> length text" by (simp add: s'_def)
  finally show "length whole + length frac \<le> length text" .
qed

text \<open>What the code has after trimming, related to the value of the text.\<close>

lemma integral_parts:
  assumes "number_value text = Some (m, e)" and "int (length text) < 2 ^ 39"
  obtains (zero) b where "integralJSONNumber text = Some (b, [], 0)" "m = 0"
  | (trimmed) s d k z where "integralJSONNumber text = (if z < 0 then None else Some (s = -1, d, z))"
      "\<bar>s\<bar> = 1" "m = s * digits_value d * 10 ^ k" "decimalDigits d" "d \<noteq> []" "hd d \<noteq> CHR ''0''"
      "last d \<noteq> CHR ''0''" "z = e + int k \<or> 19 < z \<and> z \<le> e + int k \<or> z < 0 \<and> e + int k < 0"
proof -
  obtain neg whole frac point ex where sp: "split_number text = (neg, whole, frac, point, ex)"
    by (metis prod_cases5)
  define mant where "mant = trim_left_zeros (whole @ frac)"
  define d where "d = trim_right_zeros mant"
  define k where "k = length mant - length d"
  define s :: int where "s = (if neg then -1 else 1)"
  define E where "E = (case ex of None \<Rightarrow> 0 | Some x \<Rightarrow> digits_value (exponent_digits x) * exponent_sign x)"
  define X where "X = (case ex of None \<Rightarrow> 0 | Some x \<Rightarrow> saturated (exponent_digits x) * exponent_sign x)"
  have dd: "decimalDigits whole" "decimalDigits frac"
    and ex: "\<And>x. ex = Some x \<Longrightarrow> decimalDigits (exponent_digits x)"
    and m: "m = s * digits_value (whole @ frac)" and e: "e = E - int (length frac)"
    using assms(1) split_number_parts(1) [OF sp]
    by (auto simp: number_value_def sp Let_def E_def s_def decimalDigits_def split: if_splits)
  have int: "integralJSONNumber text = (if mant = [] then Some (neg, [], 0)
      else if X - int (length frac) + int k < 0 then None else Some (neg, d, X - int (length frac) + int k))"
    using assms(1) by (auto simp: number_value_def integralJSONNumber_def sp mant_def d_def k_def X_def Let_def split: if_splits)
  obtain j where j: "whole @ frac = replicate j (CHR ''0'') @ mant"
    using trim_left_zeros_split [of "whole @ frac"] unfolding mant_def by blast
  have md: "mant = d @ replicate k (CHR ''0'')" unfolding d_def k_def by (rule trim_right_zeros_split)
  have val: "digits_value (whole @ frac) = digits_value d * 10 ^ k"
    unfolding j md by (simp add: digits_value_append digits_value_zeros)
  show ?thesis
  proof (cases "mant = []")
    case True
    then show ?thesis using zero int m val md by auto
  next
    case False
    have "set d \<subseteq> set (whole @ frac)" unfolding j md by auto
    then have dec: "decimalDigits d" using dd unfolding decimalDigits_def list_all_iff by auto
    have hm: "hd mant \<noteq> CHR ''0''"
      using hd_dropWhile [of "\<lambda>c. c = CHR ''0''" "whole @ frac"] False
      unfolding mant_def trim_left_zeros_def by blast
    have "hd mant \<in> set (rev mant)" using False by simp
    then have "dropWhile (\<lambda>c. c = CHR ''0'') (rev mant) \<noteq> []"
      using hm unfolding dropWhile_eq_Nil_conv by blast
    then have "d \<noteq> []" unfolding d_def trim_right_zeros_def by simp
    have "last d \<noteq> CHR ''0''"
      using \<open>d \<noteq> []\<close> hd_dropWhile [of "\<lambda>c. c = CHR ''0''" "rev mant"]
      unfolding d_def trim_right_zeros_def by (simp add: last_rev)
    have "hd d \<noteq> CHR ''0''"
      using hm md \<open>d \<noteq> []\<close> hd_append2 [of d "replicate k (CHR ''0'')"] by simp
    have X: "X = E \<or> 2 ^ 40 \<le> X \<and> X \<le> E \<or> X \<le> - (2 ^ 40) \<and> E \<le> X"
    proof (cases ex)
      case (Some x)
      from saturated_cases [OF ex [OF Some]] Some show ?thesis
        by (auto simp: X_def E_def exponent_sign_def simp del: power_numeral)
    qed (simp add: X_def E_def)
    define z where "z = X - int (length frac) + int k"
    have k: "k \<le> length text" "length frac \<le> length text"
      using split_number_parts(2) [OF sp] arg_cong [OF j, of length] arg_cong [OF md, of length] by simp_all
    from X have z: "z = e + int k \<or> 19 < z \<and> z \<le> e + int k \<or> z < 0 \<and> e + int k < 0"
    proof (elim disjE)
      assume "X = E"
      then show ?thesis by (simp add: z_def e)
    next
      assume "2 ^ 40 \<le> X \<and> X \<le> E"
      then have "19 < z \<and> z \<le> e + int k" using k assms(2) by (simp add: z_def e)
      then show ?thesis by blast
    next
      assume "X \<le> - (2 ^ 40) \<and> E \<le> X"
      then have "z < 0 \<and> e + int k < 0" using k assms(2) by (simp add: z_def e)
      then show ?thesis by blast
    qed
    have "integralJSONNumber text = (if z < 0 then None else Some (s = -1, d, z))"
      using int False by (simp add: z_def s_def)
    moreover have "\<bar>s\<bar> = 1" "m = s * digits_value d * 10 ^ k" using m val by (simp_all add: s_def)
    ultimately show ?thesis using dec z
      using \<open>d \<noteq> []\<close> \<open>last d \<noteq> CHR ''0''\<close> \<open>hd d \<noteq> CHR ''0''\<close> by (intro trimmed)
  qed
qed

section \<open>Properties\<close>

lemma trimmed_too_big:
  assumes "decimalDigits d" "d \<noteq> []" "hd d \<noteq> CHR ''0''" "\<bar>s\<bar> = 1"
    and "n = s * digits_value d * 10 ^ nat y" "19 < int (length d) + y" "0 \<le> y"
  shows "\<not> in_int64 n"
proof -
  have "19 \<le> length d - 1 + nat y" using assms(2,6,7) by (cases d) auto
  then have "(10 :: int) ^ 19 \<le> 10 ^ (length d - 1 + nat y)" by (rule power_increasing) simp
  also have "\<dots> = 10 ^ (length d - 1) * 10 ^ nat y" by (rule power_add)
  also have "\<dots> \<le> digits_value d * 10 ^ nat y"
    using digits_value_ge [OF assms(1-3)] by (intro mult_right_mono) auto
  also have "\<dots> = \<bar>n\<bar>" using assms(4,5) digits_value_nonneg [OF assms(1)] by (simp add: abs_mult)
  finally show ?thesis by (auto simp: in_int64_def min_int64_def max_int64_def)
qed

text \<open>
  C25: a number text is an integer for the code exactly when its value, mantissa times power of ten, is
  one, and the 64-bit integer returned is that value and is returned exactly when it fits; text that is
  not a number is never accepted. This holds for texts of fewer than \<open>2 ^ 39\<close> bytes, far beyond what any
  request may carry, although the exponent is only read up to a bound.
\<close>

theorem json_integers_are_exact:
  assumes "int (length text) < 2 ^ 39"
  shows "case number_value text of
      None \<Rightarrow> \<not> JSONNumberIsInteger text \<and> JSONNumberInt64 text = None
    | Some (m, e) \<Rightarrow> (JSONNumberIsInteger text \<longleftrightarrow> (\<exists>n. denotes m e n))
        \<and> (\<forall>n. JSONNumberInt64 text = Some n \<longleftrightarrow> denotes m e n \<and> in_int64 n)"
proof (cases "number_value text")
  case None
  then have "integralJSONNumber text = None"
    by (auto simp: number_value_def integralJSONNumber_def Let_def split: prod.splits if_splits)
  then show ?thesis using None by (simp add: JSONNumberIsInteger_def JSONNumberInt64_def)
next
  case (Some me)
  obtain m e where me: "number_value text = Some (m, e)" using Some by (cases me) simp
  from me assms have "(JSONNumberIsInteger text \<longleftrightarrow> (\<exists>n. denotes m e n))
      \<and> (\<forall>n. JSONNumberInt64 text = Some n \<longleftrightarrow> denotes m e n \<and> in_int64 n)"
  proof (cases rule: integral_parts)
    case (zero b)
    have "denotes 0 e n \<longleftrightarrow> n = 0" for n by (simp add: denotes_def)
    moreover have "in_int64 0" by (simp add: in_int64_def min_int64_def max_int64_def)
    ultimately show ?thesis using zero by (auto simp: JSONNumberIsInteger_def JSONNumberInt64_def)
  next
    case (trimmed s d k z)
    note den = denotes_trimmed [OF not_dvd_last [OF trimmed(4,5,7)] trimmed(2), of k e]
    note big = trimmed_too_big [OF trimmed(4,5,6,2)]
    have val: "digits_value (d @ replicate (nat z) (CHR ''0'')) = digits_value d * 10 ^ nat z"
      by (simp add: digits_value_append digits_value_zeros)
    have s: "s = 1 \<or> s = -1" using trimmed(2) by linarith
    from trimmed(8) show ?thesis
    proof (elim disjE)
      assume z: "z = e + int k"
      have "JSONNumberInt64 text = Some n \<longleftrightarrow> 0 \<le> z \<and> n = s * digits_value d * 10 ^ nat z \<and> in_int64 n" for n
        using trimmed(1,5) val s big [of _ z]
        by (auto simp: JSONNumberInt64_def parse_int_def Let_def split: if_splits)
      then show ?thesis using trimmed(1,3) den z by (auto simp: JSONNumberIsInteger_def)
    next
      assume z: "19 < z \<and> z \<le> e + int k"
      then have "JSONNumberInt64 text = None" using trimmed(1,5) by (simp add: JSONNumberInt64_def)
      moreover have "\<not> in_int64 n" if "denotes m e n" for n
        using that den [of n] z trimmed(3) big [of n "e + int k"] by simp
      ultimately show ?thesis using trimmed(1,3) den z by (auto simp: JSONNumberIsInteger_def)
    next
      assume z: "z < 0 \<and> e + int k < 0"
      then show ?thesis using trimmed(1,3) den by (simp add: JSONNumberIsInteger_def JSONNumberInt64_def)
    qed
  qed
  then show ?thesis using me by simp
qed

theorem json_integers_are_exact_witness:
  "int (length ''-12.50e1'') < 2 ^ 39 \<and> number_value ''-12.50e1'' = Some (-1250, -1)
   \<and> JSONNumberInt64 ''-12.50e1'' = Some (-125)"
proof -
  have v: "number_value ''-12.50e1'' = Some (-1250, -1)"
    by (simp add: number_value_def split_number_def is_exponent_mark_def decimalDigits_def is_decimal_def
        byte_def exponent_digits_def exponent_sign_def digits_value_def digit_def Let_def)
  have "denotes (-1250) (-1) (-125)" "in_int64 (-125)"
    by (simp_all add: denotes_def in_int64_def min_int64_def max_int64_def)
  then show ?thesis using json_integers_are_exact [of "''-12.50e1''"] v by simp
qed

end
