(* ===== verification/Json_Value.thy ===== *)
theory Json_Value
  imports Json_Integer "HOL-Library.List_Lexorder" "HOL-Library.Char_ord" "HOL-Library.Multiset"
begin

text \<open>
  The values the contract package works on, their canonical JSON form
  (\<^verbatim>\<open>src/internal/contract/canonical.go\<close>) and the limits on input JSON
  (\<^verbatim>\<open>checkJSONLimits\<close> and \<^verbatim>\<open>jsonStringBytes\<close> of \<^verbatim>\<open>src/internal/contract/input.go\<close>). A Go map is the list of
  its entries in the order a range over it visits them, which is any order.
\<close>

section \<open>Values\<close>

text \<open>
  A \<^verbatim>\<open>float64\<close>: \<open>Fin m e\<close> is \<open>m\<close> times two to the \<open>e\<close>. Reading a decimal text and writing the shortest one
  that reads back are functions of the value, \<^verbatim>\<open>strconv\<close>'s, and are passed as arguments.
\<close>

datatype float64 = NaN | Inf bool | Neg_zero | Fin int int

record float_lib =
  parse_float :: "string \<Rightarrow> float64 option"
  format_float :: "float64 \<Rightarrow> string"

record file_value =
  file_Pointer :: string
  file_ID :: string
  file_Name :: string
  file_MIMEType :: string
  file_SHA256 :: string
  file_RequestID :: string
  file_SizeBytes :: int

datatype val =
  VNull
| VBool bool
| VStr string
| VInt int
| VGoInt int
| VNumber string
| VFloat float64
| VFile file_value
| VObj "(string \<times> val) list"
| VArr "val list"
| VStrs "string list"

text \<open>
  Induction over a value with its nested lists: what holds of the parts of an object or an array holds
  of it.
\<close>

lemma val_induct [case_names Null Bool Str Int GoInt Number Float File Obj Arr Strs]:
  assumes "P VNull" "\<And>b. P (VBool b)" "\<And>s. P (VStr s)" "\<And>n. P (VInt n)" "\<And>n. P (VGoInt n)"
    "\<And>s. P (VNumber s)" "\<And>f. P (VFloat f)" "\<And>f. P (VFile f)"
    "\<And>kvs. (\<And>k v. (k, v) \<in> set kvs \<Longrightarrow> P v) \<Longrightarrow> P (VObj kvs)"
    "\<And>vs. (\<And>v. v \<in> set vs \<Longrightarrow> P v) \<Longrightarrow> P (VArr vs)" "\<And>ss. P (VStrs ss)"
  shows "P v"
proof (induction v)
  case (VObj kvs)
  then show ?case by (intro assms(9)) (metis snds.intros snd_conv)
qed (use assms in auto)

lemma val_size_obj [termination_simp]:
  "kv \<in> set kvs \<Longrightarrow> size (snd kv) < Suc (size_list (size_prod (\<lambda>x. 0) size) kvs)"
  by (induction kvs) auto

section \<open>Canonical JSON\<close>

text \<open>The digits of \<^verbatim>\<open>strconv.FormatInt\<close>.\<close>

fun nat_digits :: "nat \<Rightarrow> string" where
  "nat_digits n = (if n < 10 then [char_of (48 + n)] else nat_digits (n div 10) @ [char_of (48 + n mod 10)])"

declare nat_digits.simps [simp del]

definition format_int :: "int \<Rightarrow> string" where
  "format_int n = (if n < 0 then CHR ''-'' # nat_digits (nat (- n)) else nat_digits (nat n))"

text \<open>
  A string as \<^verbatim>\<open>encoding/json\<close> writes it without HTML escaping: short escapes for seven characters, four
  hexadecimal digits for the other control characters and the two line separators, the rest verbatim.
\<close>

definition hex_digit :: "nat \<Rightarrow> char" where
  "hex_digit n = char_of (if n < 10 then 48 + n else 87 + n)"

definition unicode_escape :: "nat \<Rightarrow> string" where
  "unicode_escape r = [CHR 0x5C, CHR ''u'', hex_digit (r div 4096 mod 16), hex_digit (r div 256 mod 16),
     hex_digit (r div 16 mod 16), hex_digit (r mod 16)]"

definition json_rune :: "nat \<Rightarrow> string \<Rightarrow> string" where
  "json_rune r raw =
     (if r = 92 then [CHR 0x5C, CHR 0x5C] else if r = 34 then [CHR 0x5C, CHR 0x22]
      else if r = 8 then [CHR 0x5C, CHR ''b''] else if r = 12 then [CHR 0x5C, CHR ''f'']
      else if r = 10 then [CHR 0x5C, CHR ''n''] else if r = 13 then [CHR 0x5C, CHR ''r'']
      else if r = 9 then [CHR 0x5C, CHR ''t'']
      else if r = 8232 \<or> r = 8233 \<or> r < 32 then unicode_escape r
      else raw)"

function json_body :: "string \<Rightarrow> string" where
  "json_body s =
     (case s of
        [] \<Rightarrow> []
      | c # t \<Rightarrow>
          (case decode_rune s of
             None \<Rightarrow> unicode_escape 65533 @ json_body t
           | Some (r, n) \<Rightarrow> json_rune r (take n s) @ json_body (drop n s)))"
  by auto
termination
  by (relation "measure length") (auto dest: decode_rune_width simp del: decode_rune.simps)

declare json_body.simps [simp del]

definition json_string :: "string \<Rightarrow> string" where
  "json_string s = CHR 0x22 # json_body s @ [CHR 0x22]"

text \<open>\<^verbatim>\<open>json.Number.Int64\<close>: decimal digits with an optional sign, in range.\<close>

definition number_int64 :: "string \<Rightarrow> int option" where
  "number_int64 s =
     (let negative = (s \<noteq> [] \<and> hd s = CHR ''-'');
          digits = (if s \<noteq> [] \<and> (hd s = CHR ''-'' \<or> hd s = CHR ''+'') then tl s else s) in
      if digits = [] \<or> \<not> decimalDigits digits then None else parse_int negative digits)"

definition has_point_or_exponent :: "string \<Rightarrow> bool" where
  "has_point_or_exponent s \<longleftrightarrow> list_ex (\<lambda>c. c = CHR ''.'' \<or> c = CHR ''e'' \<or> c = CHR ''E'') s"

fun is_finite :: "float64 \<Rightarrow> bool" where
  "is_finite NaN = False"
| "is_finite (Inf b) = False"
| "is_finite Neg_zero = True"
| "is_finite (Fin m e) = True"

definition canonical_float :: "float_lib \<Rightarrow> float64 \<Rightarrow> string option" where
  "canonical_float L x =
     (if \<not> is_finite x then None
      else Some (format_float L (case x of Neg_zero \<Rightarrow> Fin 0 0 | Fin m e \<Rightarrow> if m = 0 then Fin 0 0 else x | _ \<Rightarrow> x)))"

definition canonical_number :: "float_lib \<Rightarrow> string \<Rightarrow> string option" where
  "canonical_number L s =
     (case number_int64 s of
        Some i \<Rightarrow> Some (format_int i)
      | None \<Rightarrow>
          if \<not> has_point_or_exponent s then None
          else (case parse_float L s of None \<Rightarrow> None | Some f \<Rightarrow> canonical_float L f))"

definition canonical_string :: "string \<Rightarrow> string option" where
  "canonical_string s = (if utf8_valid s then Some (json_string s) else None)"

fun join :: "string \<Rightarrow> string list \<Rightarrow> string" where
  "join sep [] = []"
| "join sep [s] = s"
| "join sep (s # t # ss) = s @ sep @ join sep (t # ss)"

text \<open>All results or none: the loops over entries stop at the first error.\<close>

fun collect :: "'a option list \<Rightarrow> 'a list option" where
  "collect [] = Some []"
| "collect (x # xs) = (case x of None \<Rightarrow> None | Some y \<Rightarrow> map_option (Cons y) (collect xs))"

definition json_field :: "string \<Rightarrow> string \<Rightarrow> string option" where
  "json_field k out = map_option (\<lambda>ks. ks @ '':'' @ out) (canonical_string k)"

text \<open>
  \<^verbatim>\<open>writeCanonical\<close>: the fields of an object in the order of their keys, bytewise; \<open>None\<close> is an error.
\<close>

fun CanonicalJSON :: "float_lib \<Rightarrow> val \<Rightarrow> string option" where
  "CanonicalJSON L VNull = Some ''null''"
| "CanonicalJSON L (VBool b) = Some (if b then ''true'' else ''false'')"
| "CanonicalJSON L (VStr s) = canonical_string s"
| "CanonicalJSON L (VInt n) = Some (format_int n)"
| "CanonicalJSON L (VGoInt n) = Some (format_int n)"
| "CanonicalJSON L (VNumber s) = canonical_number L s"
| "CanonicalJSON L (VFloat f) = canonical_float L f"
| "CanonicalJSON L (VFile f) = None"
| "CanonicalJSON L (VObj kvs) =
     (case collect (map (\<lambda>kv. map_option (Pair (fst kv)) (CanonicalJSON L (snd kv))) kvs) of
        None \<Rightarrow> None
      | Some outs \<Rightarrow>
          map_option (\<lambda>fs. ''{'' @ join '','' fs @ ''}'')
            (collect (map (\<lambda>kv. json_field (fst kv) (snd kv)) (sort_key fst outs))))"
| "CanonicalJSON L (VArr vs) =
     map_option (\<lambda>fs. ''['' @ join '','' fs @ '']'') (collect (map (CanonicalJSON L) vs))"
| "CanonicalJSON L (VStrs ss) =
     map_option (\<lambda>fs. ''['' @ join '','' fs @ '']'') (collect (map canonical_string ss))"

definition equalJSON :: "float_lib \<Rightarrow> val \<Rightarrow> val \<Rightarrow> bool" where
  "equalJSON L a b \<longleftrightarrow> CanonicalJSON L a \<noteq> None \<and> CanonicalJSON L b \<noteq> None \<and> CanonicalJSON L a = CanonicalJSON L b"

fun canonicalInput :: "val \<Rightarrow> val" where
  "canonicalInput (VFile f) =
     VObj [(''name'', VStr (file_Name f)), (''mime_type'', VStr (file_MIMEType f)),
           (''size_bytes'', VInt (file_SizeBytes f)), (''sha256'', VStr (file_SHA256 f))]"
| "canonicalInput (VObj kvs) = VObj (map (\<lambda>kv. (fst kv, canonicalInput (snd kv))) kvs)"
| "canonicalInput (VArr vs) = VArr (map canonicalInput vs)"
| "canonicalInput v = v"

definition CanonicalInput :: "float_lib \<Rightarrow> val \<Rightarrow> string option" where
  "CanonicalInput L v = CanonicalJSON L (canonicalInput v)"

section \<open>Limits on input JSON\<close>

record limits =
  MaxBytes :: int
  MaxDepth :: int
  MaxItems :: int
  MaxFileBytes :: int
  MaxTotalFileBytes :: int
  MaxFiles :: int

datatype json_error =
  Limits_not_positive | Byte_limit_exceeded | Structural_limit_exceeded | Item_limit_exceeded
| Invalid_utf8 | Invalid_basename | Invalid_number | Unsupported_value

definition is_control :: "nat \<Rightarrow> bool" where
  "is_control r \<longleftrightarrow> r < 32 \<or> (127 \<le> r \<and> r < 160)"

definition ValidateBasename :: "string \<Rightarrow> bool" where
  "ValidateBasename s \<longleftrightarrow> utf8_valid s \<and> 1 \<le> length s \<and> length s \<le> 255 \<and> s \<noteq> ''.'' \<and> s \<noteq> ''..''
     \<and> CHR ''/'' \<notin> set s \<and> CHR 0x5C \<notin> set s \<and> list_all (\<lambda>r. \<not> is_control r) (runes s)"

definition rune_len :: "nat \<Rightarrow> nat" where
  "rune_len r = (if r < 128 then 1 else if r < 2048 then 2 else if r < 65536 then 3 else 4)"

definition rune_bytes :: "nat \<Rightarrow> nat" where
  "rune_bytes r =
     (if r \<in> {92, 34, 8, 12, 10, 13, 9} then 2
      else if r = 8232 \<or> r = 8233 then 6
      else if r < 32 then 6 else rune_len r)"

definition jsonStringBytes :: "string \<Rightarrow> int option" where
  "jsonStringBytes s = (if utf8_valid s then Some (2 + int (sum_list (map rune_bytes (runes s)))) else None)"

definition addBytes :: "limits \<Rightarrow> int \<Rightarrow> int \<times> int \<Rightarrow> json_error + int \<times> int" where
  "addBytes l n st =
     (if n < 0 \<or> n > MaxBytes l - snd st then Inl Byte_limit_exceeded else Inr (fst st, snd st + n))"

definition add_canonical :: "limits \<Rightarrow> string option \<Rightarrow> int \<times> int \<Rightarrow> json_error + int \<times> int" where
  "add_canonical l b st = (case b of None \<Rightarrow> Inl Invalid_number | Some s \<Rightarrow> addBytes l (int (length s)) st)"

text \<open>The bytes of a file leaf: its canonical metadata object, summed value by value.\<close>

fun add_strings :: "limits \<Rightarrow> string list \<Rightarrow> int \<Rightarrow> json_error + int" where
  "add_strings l [] n = Inr n"
| "add_strings l (s # ss) n =
     (case jsonStringBytes s of
        None \<Rightarrow> Inl Invalid_utf8
      | Some k \<Rightarrow> if k > MaxBytes l - n then Inl Byte_limit_exceeded else add_strings l ss (n + k))"

definition add_file :: "limits \<Rightarrow> file_value \<Rightarrow> int \<times> int \<Rightarrow> json_error + int \<times> int" where
  "add_file l f st =
     (if \<not> ValidateBasename (file_Name f) then Inl Invalid_basename
      else
        (let n0 = 5 + int (length (format_int (file_SizeBytes f)));
             n1 = n0 + sum_list (map (\<lambda>k. (case jsonStringBytes k of None \<Rightarrow> 0 | Some b \<Rightarrow> b) + 1)
                     [''name'', ''mime_type'', ''size_bytes'', ''sha256'']) in
         case add_strings l [file_Name f, file_MIMEType f, file_SHA256 f] n1 of
           Inl e \<Rightarrow> Inl e
         | Inr n \<Rightarrow> addBytes l n st))"

text \<open>
  The recursive \<^verbatim>\<open>visit\<close>; its state is the count of values and keys and the bytes used. A value is a tree,
  so the test for cycles never fires.
\<close>

function (sequential) visit :: "float_lib \<Rightarrow> limits \<Rightarrow> val \<Rightarrow> int \<Rightarrow> int \<times> int \<Rightarrow> json_error + int \<times> int"
  and visit_fields :: "float_lib \<Rightarrow> limits \<Rightarrow> (string \<times> val) list \<Rightarrow> int \<Rightarrow> int \<times> int \<Rightarrow> json_error + int \<times> int"
  and visit_items :: "float_lib \<Rightarrow> limits \<Rightarrow> val list \<Rightarrow> int \<Rightarrow> int \<times> int \<Rightarrow> json_error + int \<times> int" where
  "visit L l v d st0 =
     (let st = (fst st0 + 1, snd st0) in
      if d > MaxDepth l \<or> fst st > MaxItems l then Inl Structural_limit_exceeded
      else case v of
        VNull \<Rightarrow> addBytes l 4 st
      | VBool b \<Rightarrow> addBytes l (if b then 4 else 5) st
      | VStr s \<Rightarrow> (case jsonStringBytes s of None \<Rightarrow> Inl Invalid_utf8 | Some n \<Rightarrow> addBytes l n st)
      | VInt n \<Rightarrow> addBytes l (int (length (format_int n))) st
      | VGoInt n \<Rightarrow> addBytes l (int (length (format_int n))) st
      | VNumber s \<Rightarrow> add_canonical l (canonical_number L s) st
      | VFloat f \<Rightarrow> add_canonical l (canonical_float L f) st
      | VFile f \<Rightarrow> add_file l f st
      | VObj kvs \<Rightarrow>
          (case addBytes l (2 + int (length kvs - 1)) st of
             Inl e \<Rightarrow> Inl e
           | Inr st1 \<Rightarrow> visit_fields L l kvs (d + 1) st1)
      | VArr vs \<Rightarrow>
          (case addBytes l (2 + int (length vs - 1)) st of
             Inl e \<Rightarrow> Inl e
           | Inr st1 \<Rightarrow> visit_items L l vs (d + 1) st1)
      | VStrs ss \<Rightarrow> Inl Unsupported_value)"
| "visit_fields L l [] d st = Inr st"
| "visit_fields L l ((k, v) # kvs) d st =
     (case jsonStringBytes k of
        None \<Rightarrow> Inl Invalid_utf8
      | Some n \<Rightarrow>
          (case addBytes l (n + 1) st of
             Inl e \<Rightarrow> Inl e
           | Inr st1 \<Rightarrow>
               if fst st1 + 1 > MaxItems l then Inl Item_limit_exceeded
               else (case visit L l v d (fst st1 + 1, snd st1) of
                 Inl e \<Rightarrow> Inl e
               | Inr st2 \<Rightarrow> visit_fields L l kvs d st2)))"
| "visit_items L l [] d st = Inr st"
| "visit_items L l (v # vs) d st =
     (case visit L l v d st of
        Inl e \<Rightarrow> Inl e
      | Inr st1 \<Rightarrow> visit_items L l vs d st1)"
  by pat_completeness auto
termination
  by (relation "measure (\<lambda>x. case x of
      Inl (L, l, v, d, st) \<Rightarrow> size v
    | Inr (Inl (L, l, kvs, d, st)) \<Rightarrow> size_list (size_prod (\<lambda>x. 0) size) kvs
    | Inr (Inr (L, l, vs, d, st)) \<Rightarrow> size_list size vs)") auto

declare visit.simps [simp del]

definition checkJSONLimits :: "float_lib \<Rightarrow> val \<Rightarrow> limits \<Rightarrow> json_error option" where
  "checkJSONLimits L v l =
     (if MaxBytes l \<le> 0 \<or> MaxDepth l \<le> 0 \<or> MaxItems l \<le> 0 then Some Limits_not_positive
      else case visit L l v 1 (0, 0) of Inl e \<Rightarrow> Some e | Inr _ \<Rightarrow> None)"

section \<open>The byte count is the length of the canonical form\<close>

lemma rune_len_decode: "decode_rune s = Some (r, n) \<Longrightarrow> rune_len r = n"
  by (cases s) (auto simp: Let_def rune_len_def cont_def second_ok_def split: if_splits list.splits)

lemma json_rune_length:
  assumes "decode_rune s = Some (r, n)"
  shows "length (json_rune r (take n s)) = rune_bytes r"
  using rune_len_decode [OF assms] decode_rune_width [OF assms]
  by (auto simp: json_rune_def rune_bytes_def unicode_escape_def)

lemma json_body_length: "utf8_valid s \<Longrightarrow> length (json_body s) = sum_list (map rune_bytes (runes s))"
proof (induction s rule: utf8_valid.induct)
  case (1 s)
  show ?case
  proof (cases s)
    case Nil
    then show ?thesis by (simp add: json_body.simps runes.simps)
  next
    case (Cons c t)
    then obtain r n where d: "decode_rune s = Some (r, n)" and v: "utf8_valid (drop n s)"
      using 1(2) by (subst (asm) utf8_valid.simps) (auto split: option.splits)
    have "runes s = r # runes (drop n s)" using Cons d by (subst runes.simps) simp
    moreover have "json_body s = json_rune r (take n s) @ json_body (drop n s)"
      using Cons d by (subst json_body.simps) simp
    ultimately show ?thesis using 1(1) [OF d refl v] json_rune_length [OF d] by simp
  qed
qed

lemma jsonStringBytes_canonical:
  "jsonStringBytes s = map_option (\<lambda>out. int (length out)) (canonical_string s)"
  by (simp add: jsonStringBytes_def canonical_string_def json_string_def json_body_length)

lemma join_length: "int (length (join '','' fs)) = int (sum_list (map length fs)) + int (length fs - 1)"
  by (induction "'',''::string" fs rule: join.induct) auto

lemma collect_Some_iff: "collect xs = Some ys \<longleftrightarrow> xs = map Some ys"
proof (induction xs arbitrary: ys)
  case Nil
  then show ?case by auto
next
  case (Cons x xs)
  show ?case
  proof (cases ys)
    case Nil
    then show ?thesis by (auto split: option.split)
  next
    case (Cons z zs)
    then show ?thesis using Cons.IH [of zs] by (auto split: option.split)
  qed
qed

lemma collect_None_iff: "collect xs = None \<longleftrightarrow> None \<in> set xs"
  by (induction xs) (auto split: option.split)

text \<open>The keys and outputs of the fields of an object, in the order of the object.\<close>

definition field_outs :: "float_lib \<Rightarrow> (string \<times> val) list \<Rightarrow> (string \<times> string) list option" where
  "field_outs L kvs =
     collect (map (\<lambda>kv. map_option (Pair (fst kv)) (CanonicalJSON L (canonicalInput (snd kv)))) kvs)"

definition valid_keys :: "(string \<times> 'a) list \<Rightarrow> bool" where
  "valid_keys kvs \<longleftrightarrow> list_all (\<lambda>kv. utf8_valid (fst kv)) kvs"

definition field_length :: "string \<times> string \<Rightarrow> int" where
  "field_length ko = int (length (json_string (fst ko))) + 1 + int (length (snd ko))"

lemma field_length_pair: "field_length (k, out) = int (length (json_string k)) + 1 + int (length out)"
  by (simp add: field_length_def)

lemma collect_fields:
  assumes "valid_keys outs"
  shows "collect (map (\<lambda>kv. json_field (fst kv) (snd kv)) outs)
    = Some (map (\<lambda>kv. json_string (fst kv) @ '':'' @ snd kv) outs)"
  using assms by (auto simp: collect_Some_iff json_field_def canonical_string_def valid_keys_def list_all_iff)

lemma collect_fields_None:
  assumes "\<not> valid_keys outs"
  shows "collect (map (\<lambda>kv. json_field (fst kv) (snd kv)) outs) = None"
  using assms by (force simp: collect_None_iff valid_keys_def list_all_iff json_field_def canonical_string_def)

lemma valid_keys_sort [simp]: "valid_keys (sort_key fst outs) = valid_keys outs"
  by (simp add: valid_keys_def list_all_iff)

lemma field_outs_keys: "field_outs L kvs = Some outs \<Longrightarrow> map fst outs = map fst kvs"
proof (induction kvs arbitrary: outs)
  case (Cons kv kvs)
  then show ?case by (cases outs) (auto simp: field_outs_def split: option.splits)
qed (simp add: field_outs_def)

lemma valid_keys_map: "valid_keys kvs = list_all utf8_valid (map fst kvs)"
  by (simp add: valid_keys_def list.pred_map o_def)

lemma valid_keys_outs: "field_outs L kvs = Some outs \<Longrightarrow> valid_keys outs = valid_keys kvs"
  by (simp only: valid_keys_map field_outs_keys)

lemma sum_list_sort:
  fixes f :: "'a \<Rightarrow> int"
  shows "sum_list (map f (sort_key (g :: 'a \<Rightarrow> 'b :: linorder) xs)) = sum_list (map f xs)"
  by (metis mset_map mset_sort sum_mset_sum_list)

lemma object_out:
  "CanonicalInput L (VObj kvs) =
     (case field_outs L kvs of
        None \<Rightarrow> None
      | Some outs \<Rightarrow>
          if valid_keys kvs
          then Some (''{'' @ join '','' (map (\<lambda>kv. json_string (fst kv) @ '':'' @ snd kv) (sort_key fst outs)) @ ''}'')
          else None)"
  by (auto simp: CanonicalInput_def field_outs_def o_def collect_fields collect_fields_None
      dest!: valid_keys_outs [unfolded field_outs_def o_def] split: option.split)

lemma object_length:
  assumes "CanonicalInput L (VObj kvs) = Some out" "field_outs L kvs = Some outs"
  shows "int (length out) = 2 + int (length kvs - 1) + sum_list (map field_length outs)"
proof -
  let ?g = "\<lambda>kv. json_string (fst kv) @ '':'' @ snd kv"
  have len: "length outs = length kvs" using field_outs_keys [OF assms(2)] by (metis length_map)
  have "int (sum_list (map length (map ?g xs))) = sum_list (map field_length xs)" for xs
    by (induction xs) (auto simp: field_length_def)
  then have "int (length (join '','' (map ?g (sort_key fst outs))))
      = sum_list (map field_length (sort_key fst outs)) + int (length outs - 1)"
    by (simp add: join_length)
  then show ?thesis using assms len by (auto simp: object_out sum_list_sort split: if_splits)
qed

lemma array_out:
  "CanonicalInput L (VArr vs) = map_option (\<lambda>fs. ''['' @ join '','' fs @ '']'') (collect (map (CanonicalInput L) vs))"
  by (simp add: CanonicalInput_def [abs_def] o_def)

section \<open>What the limits accept\<close>

text \<open>Values and keys of a value, its nesting, and that every file has a valid name.\<close>

fun value_items :: "val \<Rightarrow> int" where
  "value_items (VObj kvs) = 1 + sum_list (map (\<lambda>kv. 1 + value_items (snd kv)) kvs)"
| "value_items (VArr vs) = 1 + sum_list (map value_items vs)"
| "value_items v = 1"

fun value_depth :: "val \<Rightarrow> int" where
  "value_depth (VObj kvs) = 1 + foldr max (map (\<lambda>kv. value_depth (snd kv)) kvs) 0"
| "value_depth (VArr vs) = 1 + foldr max (map value_depth vs) 0"
| "value_depth v = 1"

fun plain_value :: "val \<Rightarrow> bool" where
  "plain_value (VObj kvs) = list_all (\<lambda>kv. plain_value (snd kv)) kvs"
| "plain_value (VArr vs) = list_all plain_value vs"
| "plain_value (VFile f) = ValidateBasename (file_Name f)"
| "plain_value (VStrs ss) = False"
| "plain_value v = True"

definition within_limits :: "float_lib \<Rightarrow> limits \<Rightarrow> val \<Rightarrow> int \<Rightarrow> int \<times> int \<Rightarrow> (int \<times> int) option" where
  "within_limits L l v d st =
     (case CanonicalInput L v of
        None \<Rightarrow> None
      | Some out \<Rightarrow>
          if plain_value v \<and> d - 1 + value_depth v \<le> MaxDepth l \<and> fst st + value_items v \<le> MaxItems l
             \<and> snd st + int (length out) \<le> MaxBytes l
          then Some (fst st + value_items v, snd st + int (length out)) else None)"

fun within_fields :: "float_lib \<Rightarrow> limits \<Rightarrow> (string \<times> val) list \<Rightarrow> int \<Rightarrow> int \<times> int \<Rightarrow> (int \<times> int) option" where
  "within_fields L l [] d st = Some st"
| "within_fields L l (kv # kvs) d st =
     (case canonical_string (fst kv) of
        None \<Rightarrow> None
      | Some ks \<Rightarrow>
          (case within_limits L l (snd kv) d (fst st + 1, snd st + int (length ks) + 1) of
             None \<Rightarrow> None
           | Some st' \<Rightarrow> within_fields L l kvs d st'))"

fun within_items :: "float_lib \<Rightarrow> limits \<Rightarrow> val list \<Rightarrow> int \<Rightarrow> int \<times> int \<Rightarrow> (int \<times> int) option" where
  "within_items L l [] d st = Some st"
| "within_items L l (v # vs) d st =
     (case within_limits L l v d st of None \<Rightarrow> None | Some st' \<Rightarrow> within_items L l vs d st')"

lemma value_items_pos: "0 < value_items v"
proof (induction v rule: val_induct)
  case (Obj kvs)
  then have "0 \<le> sum_list (map (\<lambda>kv. 1 + value_items (snd kv)) kvs)"
    by (intro sum_list_nonneg) (auto simp: less_imp_le)
  then show ?case by simp
next
  case (Arr vs)
  then have "0 \<le> sum_list (map value_items vs)" by (intro sum_list_nonneg) (auto simp: less_imp_le)
  then show ?case by simp
qed simp_all

lemma foldr_max_offset: "d + foldr max xs (0::int) \<le> b \<longleftrightarrow> d \<le> b \<and> list_all (\<lambda>x. d + x \<le> b) xs"
  by (induction xs) (auto simp: max_def)

lemma foldr_max_nonneg: "0 \<le> foldr max xs (0::int)"
  by (induction xs) auto

lemma value_depth_pos: "0 < value_depth v"
  by (cases v) (auto simp: foldr_max_nonneg add_pos_nonneg)

lemma within_limits_range:
  "within_limits L l v d st = Some st' \<Longrightarrow> snd st \<le> snd st' \<and> snd st' \<le> MaxBytes l \<and> fst st \<le> fst st' \<and> fst st' \<le> MaxItems l"
  using value_items_pos [of v] by (auto simp: within_limits_def split: option.splits if_splits)

lemma within_fields_iff:
  assumes "snd st \<le> MaxBytes l" "fst st \<le> MaxItems l"
  shows "within_fields L l kvs d st =
    (case field_outs L kvs of
       None \<Rightarrow> None
     | Some outs \<Rightarrow>
         if valid_keys kvs \<and> list_all (\<lambda>kv. plain_value (snd kv)) kvs
            \<and> list_all (\<lambda>kv. d - 1 + value_depth (snd kv) \<le> MaxDepth l) kvs
            \<and> fst st + sum_list (map (\<lambda>kv. 1 + value_items (snd kv)) kvs) \<le> MaxItems l
            \<and> snd st + sum_list (map field_length outs) \<le> MaxBytes l
         then Some (fst st + sum_list (map (\<lambda>kv. 1 + value_items (snd kv)) kvs), snd st + sum_list (map field_length outs))
         else None)"
  using assms
proof (induction kvs arbitrary: st)
  case Nil
  then show ?case by (simp add: field_outs_def valid_keys_def)
next
  case (Cons kv kvs)
  have nn: "0 \<le> sum_list (map field_length outs)" for outs
    by (rule sum_list_nonneg) (auto simp: field_length_def)
  have ni: "0 \<le> sum_list (map (\<lambda>kv. 1 + value_items (snd kv)) kvs)"
    using value_items_pos by (intro sum_list_nonneg) (auto simp: less_imp_le add_nonneg_nonneg)
  let ?st = "(fst st + 1, snd st + int (length (json_string (fst kv))) + 1)"
  have outs: "field_outs L (kv # kvs) = (case CanonicalInput L (snd kv) of None \<Rightarrow> None
      | Some out \<Rightarrow> map_option (Cons (fst kv, out)) (field_outs L kvs))"
    by (simp add: field_outs_def split: option.split flip: CanonicalInput_def)
  show ?case
  proof (cases "utf8_valid (fst kv) \<and> within_limits L l (snd kv) d ?st \<noteq> None")
    case False
    then show ?thesis
    proof (cases "field_outs L kvs")
      case None
      then show ?thesis using False by (auto simp: outs canonical_string_def split: option.splits)
    next
      case (Some z)
      then show ?thesis using False ni nn [of z]
        by (auto simp: outs within_limits_def valid_keys_def canonical_string_def field_length_pair algebra_simps
            split: option.splits if_splits)
    qed
  next
    case True
    then obtain st' where st': "within_limits L l (snd kv) d ?st = Some st'" by auto
    then show ?thesis using True Cons.IH [of st'] within_limits_range [OF st']
      by (auto simp: outs within_limits_def valid_keys_def canonical_string_def field_length_pair algebra_simps
          split: option.splits if_splits)
  qed
qed

lemma within_items_iff:
  assumes "snd st \<le> MaxBytes l" "fst st \<le> MaxItems l"
  shows "within_items L l vs d st =
    (case collect (map (CanonicalInput L) vs) of
       None \<Rightarrow> None
     | Some outs \<Rightarrow>
         if list_all plain_value vs \<and> list_all (\<lambda>v. d - 1 + value_depth v \<le> MaxDepth l) vs
            \<and> fst st + sum_list (map value_items vs) \<le> MaxItems l
            \<and> snd st + int (sum_list (map length outs)) \<le> MaxBytes l
         then Some (fst st + sum_list (map value_items vs), snd st + int (sum_list (map length outs)))
         else None)"
  using assms
proof (induction vs arbitrary: st)
  case Nil
  then show ?case by simp
next
  case (Cons v vs)
  have ni: "0 \<le> sum_list (map value_items vs)"
    using value_items_pos by (intro sum_list_nonneg) (auto simp: less_imp_le)
  show ?case
  proof (cases "within_limits L l v d st")
    case None
    then show ?thesis using ni
      by (auto simp: within_limits_def algebra_simps split: option.splits if_splits)
  next
    case (Some st')
    then show ?thesis using Cons.IH [of st'] within_limits_range [OF Some]
      by (auto simp: within_limits_def algebra_simps split: option.splits if_splits)
  qed
qed

text \<open>The object and array cases of \<open>visit\<close>: what is left after the brackets and commas goes to the parts.\<close>

lemma within_limits_obj:
  assumes "0 \<le> snd st"
  shows "within_limits L l (VObj kvs) d st =
    (let st' = (fst st + 1, snd st + 2 + int (length kvs - 1)) in
     if d > MaxDepth l \<or> fst st' > MaxItems l \<or> snd st' > MaxBytes l then None
     else within_fields L l kvs (d + 1) st')"
proof -
  have nn: "0 \<le> sum_list (map field_length outs)" for outs
    by (rule sum_list_nonneg) (auto simp: field_length_def)
  have ni: "0 \<le> sum_list (map (\<lambda>kv. 1 + value_items (snd kv)) kvs)"
    using value_items_pos by (intro sum_list_nonneg) (auto simp: less_imp_le add_nonneg_nonneg)
  have dp: "d + foldr max (map (\<lambda>kv. value_depth (snd kv)) kvs) 0 \<le> MaxDepth l
      \<longleftrightarrow> d \<le> MaxDepth l \<and> list_all (\<lambda>kv. d + value_depth (snd kv) \<le> MaxDepth l) kvs"
    by (simp add: foldr_max_offset list.pred_map o_def)
  show ?thesis
  proof (cases "field_outs L kvs")
    case None
    then have "CanonicalInput L (VObj kvs) = None" by (simp add: object_out)
    then show ?thesis using None by (auto simp: within_limits_def within_fields_iff Let_def)
  next
    case (Some outs)
    show ?thesis
    proof (cases "CanonicalInput L (VObj kvs)")
      case None
      then have "\<not> valid_keys kvs" using Some by (simp add: object_out split: if_splits)
      then show ?thesis using None Some by (auto simp: within_limits_def within_fields_iff Let_def)
    next
      case out: (Some out)
      then have "valid_keys kvs" using Some by (simp add: object_out split: if_splits)
      then show ?thesis using out Some object_length [OF out Some] nn [of outs] ni dp
        by (auto simp: within_limits_def within_fields_iff Let_def algebra_simps)
    qed
  qed
qed

lemma within_limits_arr:
  assumes "0 \<le> snd st"
  shows "within_limits L l (VArr vs) d st =
    (let st' = (fst st + 1, snd st + 2 + int (length vs - 1)) in
     if d > MaxDepth l \<or> fst st' > MaxItems l \<or> snd st' > MaxBytes l then None
     else within_items L l vs (d + 1) st')"
proof -
  have ni: "0 \<le> sum_list (map value_items vs)"
    using value_items_pos by (intro sum_list_nonneg) (auto simp: less_imp_le)
  have dp: "d + foldr max (map value_depth vs) 0 \<le> MaxDepth l
      \<longleftrightarrow> d \<le> MaxDepth l \<and> list_all (\<lambda>v. d + value_depth v \<le> MaxDepth l) vs"
    by (simp add: foldr_max_offset list.pred_map o_def)
  show ?thesis
  proof (cases "collect (map (CanonicalInput L) vs)")
    case None
    then show ?thesis by (auto simp: within_limits_def within_items_iff array_out Let_def)
  next
    case (Some outs)
    then have "length outs = length vs" by (metis collect_Some_iff length_map)
    then show ?thesis using Some ni dp join_length [of outs]
      by (auto simp: within_limits_def within_items_iff array_out Let_def algebra_simps)
  qed
qed

text \<open>\<open>visit\<close> accepts exactly what \<open>within_limits\<close> describes and leaves the same counts.\<close>

fun ok :: "'e + 'a \<Rightarrow> 'a option" where
  "ok (Inl e) = None"
| "ok (Inr x) = Some x"

lemma ok_addBytes: "0 \<le> n \<Longrightarrow> ok (addBytes l n st) = (if snd st + n \<le> MaxBytes l then Some (fst st, snd st + n) else None)"
  by (auto simp: addBytes_def)

lemma jsonStringBytes_nonneg: "jsonStringBytes s = Some n \<Longrightarrow> 0 \<le> n"
  by (auto simp: jsonStringBytes_def split: if_splits)

definition file_fields :: "file_value \<Rightarrow> (string \<times> val) list" where
  "file_fields f = [(''name'', VStr (file_Name f)), (''mime_type'', VStr (file_MIMEType f)),
     (''size_bytes'', VInt (file_SizeBytes f)), (''sha256'', VStr (file_SHA256 f))]"

text \<open>A string of lower-case ASCII letters, digits, points, slashes and underscores is written as it stands.\<close>

lemma plain_ascii:
  assumes "\<forall>c \<in> set s. byte c \<in> {46..57} \<union> {95} \<union> {97..122}"
  shows "utf8_valid s" "jsonStringBytes s = Some (2 + int (length s))"
proof -
  have a: "utf8_valid s \<and> runes s = map byte s" using assms by (intro ascii_runes) force
  then show "utf8_valid s" by simp
  have "map rune_bytes (map byte s) = replicate (length s) 1"
    using assms by (induction s) (auto simp: rune_bytes_def rune_len_def)
  then show "jsonStringBytes s = Some (2 + int (length s))"
    using a by (simp add: jsonStringBytes_def sum_list_replicate del: map_map)
qed

lemma file_keys_valid: "valid_keys (file_fields f)"
  by (auto simp: valid_keys_def file_fields_def byte_def intro!: plain_ascii)

lemma file_key_bytes:
  "jsonStringBytes ''name'' = Some 6" "jsonStringBytes ''mime_type'' = Some 11"
  "jsonStringBytes ''size_bytes'' = Some 12" "jsonStringBytes ''sha256'' = Some 8"
  by (subst plain_ascii, auto simp: byte_def)+

lemma file_key_lengths:
  "int (length (json_string ''name'')) = 6" "int (length (json_string ''mime_type'')) = 11"
  "int (length (json_string ''size_bytes'')) = 12" "int (length (json_string ''sha256'')) = 8"
  using file_key_bytes by (auto simp: jsonStringBytes_canonical canonical_string_def split: if_splits)

lemma file_object: "CanonicalInput L (VFile f) = CanonicalInput L (VObj (file_fields f))"
  by (simp add: CanonicalInput_def file_fields_def)

lemma file_outs:
  "field_outs L (file_fields f) =
    (if utf8_valid (file_Name f) \<and> utf8_valid (file_MIMEType f) \<and> utf8_valid (file_SHA256 f)
     then Some [(''name'', json_string (file_Name f)), (''mime_type'', json_string (file_MIMEType f)),
       (''size_bytes'', format_int (file_SizeBytes f)), (''sha256'', json_string (file_SHA256 f))]
     else None)"
  by (auto simp: field_outs_def file_fields_def canonical_string_def)

lemma ok_add_file:
  assumes "0 \<le> snd st" "d \<le> MaxDepth l" "fst st + 1 \<le> MaxItems l"
  shows "ok (add_file l f (fst st + 1, snd st)) = within_limits L l (VFile f) d st"
proof (cases "ValidateBasename (file_Name f) \<and> utf8_valid (file_MIMEType f) \<and> utf8_valid (file_SHA256 f)")
  case False
  then have "within_limits L l (VFile f) d st = None"
    by (auto simp: within_limits_def file_object object_out file_outs split: option.split)
  moreover have "ok (add_file l f (fst st + 1, snd st)) = None"
    using False by (auto simp: add_file_def Let_def jsonStringBytes_def split: option.splits)
  ultimately show ?thesis by simp
next
  case True
  then have nm: "utf8_valid (file_Name f)" by (simp add: ValidateBasename_def)
  with True obtain out where out: "CanonicalInput L (VFile f) = Some out"
    by (auto simp: file_object object_out file_outs file_keys_valid)
  have b: "jsonStringBytes s = Some (int (length (json_string s)))" if "utf8_valid s" for s
    using that by (simp add: jsonStringBytes_canonical canonical_string_def)
  have "int (length out) = 46 + int (length (format_int (file_SizeBytes f))) + int (length (json_string (file_Name f)))
      + int (length (json_string (file_MIMEType f))) + int (length (json_string (file_SHA256 f)))"
    using object_length [OF out [unfolded file_object] file_outs [THEN trans]] True nm
    by (simp add: field_length_pair file_key_lengths) (simp add: file_fields_def)
  then show ?thesis using out True nm assms
    by (auto simp: add_file_def Let_def file_key_bytes b within_limits_def addBytes_def)
qed

text \<open>\<open>visit\<close> on the leaves.\<close>

lemma ok_visit_leaf:
  assumes "0 \<le> snd st" "\<And>kvs. v \<noteq> VObj kvs" "\<And>vs. v \<noteq> VArr vs"
  shows "ok (visit L l v d st) = within_limits L l v d st"
proof (cases "d > MaxDepth l \<or> fst st + 1 > MaxItems l")
  case True
  then show ?thesis using assms
    by (cases v) (auto simp: visit.simps within_limits_def Let_def split: option.splits)
next
  case False
  then show ?thesis using assms ok_add_file [of st d l _ L]
    by (cases v) (auto simp: visit.simps within_limits_def Let_def ok_addBytes jsonStringBytes_canonical
        add_canonical_def CanonicalInput_def split: option.splits)
qed

lemma ok_visit_obj:
  assumes "0 \<le> snd st"
    and IH: "\<And>st1. \<not> (d > MaxDepth l \<or> fst st + 1 > MaxItems l) \<Longrightarrow>
      addBytes l (2 + int (length kvs - 1)) (fst st + 1, snd st) = Inr st1 \<Longrightarrow>
      ok (visit_fields L l kvs (d + 1) st1) = within_fields L l kvs (d + 1) st1"
  shows "ok (visit L l (VObj kvs) d st) = within_limits L l (VObj kvs) d st"
  using assms(1) IH [of "(fst st + 1, snd st + 2 + int (length kvs - 1))"]
  unfolding within_limits_obj [OF assms(1)] by (auto simp: visit.simps Let_def addBytes_def add.assoc)

lemma ok_visit_arr:
  assumes "0 \<le> snd st"
    and IH: "\<And>st1. \<not> (d > MaxDepth l \<or> fst st + 1 > MaxItems l) \<Longrightarrow>
      addBytes l (2 + int (length vs - 1)) (fst st + 1, snd st) = Inr st1 \<Longrightarrow>
      ok (visit_items L l vs (d + 1) st1) = within_items L l vs (d + 1) st1"
  shows "ok (visit L l (VArr vs) d st) = within_limits L l (VArr vs) d st"
  using assms(1) IH [of "(fst st + 1, snd st + 2 + int (length vs - 1))"]
  unfolding within_limits_arr [OF assms(1)] by (auto simp: visit.simps Let_def addBytes_def add.assoc)

lemma ok_visit_field:
  assumes "0 \<le> snd st" and ks: "canonical_string k = Some ks"
    and st': "st' = (fst st + 1, snd st + int (length ks) + 1)"
    and IH: "ok (visit L l v d st') = within_limits L l v d st'"
    and IH2: "\<And>st2. visit L l v d st' = Inr st2 \<Longrightarrow> 0 \<le> snd st2 \<Longrightarrow>
      ok (visit_fields L l kvs d st2) = within_fields L l kvs d st2"
  shows "ok (visit_fields L l ((k, v) # kvs) d st) = within_fields L l ((k, v) # kvs) d st"
proof -
  have b: "jsonStringBytes k = Some (int (length ks))" using ks by (simp add: jsonStringBytes_canonical)
  show ?thesis
  proof (cases "snd st' > MaxBytes l \<or> fst st' > MaxItems l")
    case True
    then have "within_limits L l v d st' = None"
      using value_items_pos [of v] by (auto simp: within_limits_def split: option.splits)
    then show ?thesis using True b ks by (auto simp: st' addBytes_def algebra_simps)
  next
    case False
    then have "visit_fields L l ((k, v) # kvs) d st =
        (case visit L l v d st' of Inl e \<Rightarrow> Inl e | Inr st2 \<Rightarrow> visit_fields L l kvs d st2)"
      using b by (auto simp: st' addBytes_def algebra_simps)
    moreover have "0 \<le> snd st2" if "within_limits L l v d st' = Some st2" for st2
      using within_limits_range [OF that] assms(1) by (simp add: st')
    ultimately show ?thesis using IH [symmetric] IH2 ks
      by (cases "visit L l v d st'") (simp_all add: st' del: visit_fields.simps)
  qed
qed

lemma ok_visit:
  "0 \<le> snd st \<Longrightarrow> ok (visit L l v d st) = within_limits L l v d st"
proof (induction v arbitrary: d st rule: val_induct)
  case (Obj kvs)
  have "0 \<le> snd st' \<Longrightarrow> ok (visit_fields L l kvs d' st') = within_fields L l kvs d' st'" for d' st'
    using Obj(1)
  proof (induction kvs arbitrary: st')
    case (Cons kv kvs)
    obtain k v where kv: "kv = (k, v)" by force
    show ?case
    proof (cases "canonical_string k")
      case None
      then show ?thesis by (simp add: kv jsonStringBytes_canonical)
    next
      case (Some ks)
      have "ok (visit L l v d' (fst st' + 1, snd st' + int (length ks) + 1))
          = within_limits L l v d' (fst st' + 1, snd st' + int (length ks) + 1)"
        using Cons.prems(1) by (intro Cons.prems(2) [of k]) (auto simp: kv)
      moreover have "ok (visit_fields L l kvs d' st2) = within_fields L l kvs d' st2" if "0 \<le> snd st2" for st2
        using that by (intro Cons.IH) (auto intro!: Cons.prems(2))
      ultimately show ?thesis unfolding kv by (intro ok_visit_field [OF Cons.prems(1) Some refl])
    qed
  qed simp
  then show ?case using Obj(2) by (intro ok_visit_obj) (auto simp: addBytes_def split: if_splits)
next
  case (Arr vs)
  have "0 \<le> snd st' \<Longrightarrow> ok (visit_items L l vs d' st') = within_items L l vs d' st'" for d' st'
    using Arr(1)
  proof (induction vs arbitrary: st')
    case (Cons v vs)
    have "ok (visit L l v d' st') = within_limits L l v d' st'"
      using Cons.prems by (intro Cons.prems(2)) auto
    moreover have "ok (visit_items L l vs d' st2) = within_items L l vs d' st2" if "0 \<le> snd st2" for st2
      using that by (intro Cons.IH) (auto intro!: Cons.prems(2))
    moreover have "0 \<le> snd st2" if "within_limits L l v d' st' = Some st2" for st2
      using within_limits_range [OF that] Cons.prems(1) by simp
    ultimately show ?case by (cases "visit L l v d' st'") (simp_all, metis option.simps(5))
  qed simp
  then show ?case using Arr(2) by (intro ok_visit_arr) (auto simp: addBytes_def split: if_splits)
qed (auto intro: ok_visit_leaf)

text \<open>
  C26: \<open>checkJSONLimits\<close> accepts a value exactly when its canonical form exists and is no longer than
  \<open>MaxBytes\<close>, its nesting and its number of values and keys are within their limits and every file in it
  has a valid name. The bytes are counted without building the canonical form.
\<close>

theorem checkJSONLimits_is_exact:
  "checkJSONLimits L v l = None \<longleftrightarrow>
     0 < MaxBytes l \<and> 0 < MaxDepth l \<and> 0 < MaxItems l \<and> plain_value v
     \<and> (\<exists>out. CanonicalInput L v = Some out \<and> int (length out) \<le> MaxBytes l)
     \<and> value_depth v \<le> MaxDepth l \<and> value_items v \<le> MaxItems l"
  using ok_visit [of "(0, 0)" L l v 1]
  by (cases "visit L l v 1 (0, 0)")
    (auto simp: checkJSONLimits_def within_limits_def split: option.splits if_splits)

end
