(* ===== verification/Raw_Config.thy ===== *)
theory Raw_Config
  imports Result Json_Value
begin

text \<open>
  The ordered configuration values of \<^verbatim>\<open>src/internal/contract/yaml.go\<close>: the \<^verbatim>\<open>rawMap\<close> accessors and the
  decoding of a YAML node graph with aliases and merge keys. The nodes themselves come from the YAML
  library; they are a heap of records, a node pointer being its address.
\<close>

section \<open>Raw values\<close>

text \<open>A \<^verbatim>\<open>rawMap\<close> keeps its keys in declaration order: it is the list of its entries in that order.\<close>

datatype raw =
  RNull | RBool bool | RStr string | RInt int | RFloat float64
| RList "raw list" | RMap "(string \<times> raw) list"

type_synonym raw_map = "(string \<times> raw) list"

lemma raw_size_map [termination_simp]:
  "kv \<in> set kvs \<Longrightarrow> size (snd kv) < Suc (size_list (size_prod (\<lambda>x. 0) size) kvs)"
  by (induction kvs) auto

definition has :: "raw_map \<Rightarrow> string \<Rightarrow> bool" where
  "has m k \<longleftrightarrow> map_of m k \<noteq> None"

definition get :: "raw_map \<Rightarrow> string \<Rightarrow> raw" where
  "get m k = (case map_of m k of None \<Rightarrow> RNull | Some v \<Rightarrow> v)"

definition safe_rune :: "nat \<Rightarrow> bool" where
  "safe_rune r \<longleftrightarrow> 97 \<le> r \<and> r \<le> 122 \<or> 65 \<le> r \<and> r \<le> 90 \<or> 48 \<le> r \<and> r \<le> 57
     \<or> r \<in> set (map byte ''._/-[]'')"

definition safe :: "string \<Rightarrow> string" where
  "safe s = (if length s > 128 \<or> \<not> list_all safe_rune (runes s) then ''<field>'' else s)"

definition object :: "raw \<Rightarrow> string \<Rightarrow> raw_map result" where
  "object v label = (case v of RMap m \<Rightarrow> Inr m | _ \<Rightarrow> Inl (safe label @ '' must be a map''))"

definition object_field :: "raw_map \<Rightarrow> string \<Rightarrow> raw_map result" where
  "object_field m k = (if \<not> has m k then Inr [] else object (get m k) k)"

definition known :: "raw_map \<Rightarrow> string \<Rightarrow> unit result" where
  "known m keys =
     (case filter (\<lambda>k. k \<notin> set (Fields keys)) (map fst m) of
        [] \<Rightarrow> Inr () | k # _ \<Rightarrow> Inl (''unknown field '' @ safe k))"

definition str :: "raw \<Rightarrow> string \<Rightarrow> string result" where
  "str v label =
     (case v of RStr s \<Rightarrow> if utf8_valid s then Inr s else Inl (safe label @ '' must be a UTF-8 string'')
      | _ \<Rightarrow> Inl (safe label @ '' must be a UTF-8 string''))"

definition requiredString :: "raw_map \<Rightarrow> string \<Rightarrow> string result" where
  "requiredString m k =
     andThen (str (get m k) k) (\<lambda>s. if s = [] then Inl (safe k @ '' must not be empty'') else Inr s)"

definition stringDefault :: "raw_map \<Rightarrow> string \<Rightarrow> string \<Rightarrow> string result" where
  "stringDefault m k d = (if \<not> has m k then Inr d else str (get m k) k)"

definition boolDefault :: "raw_map \<Rightarrow> string \<Rightarrow> bool \<Rightarrow> bool result" where
  "boolDefault m k d =
     (if \<not> has m k then Inr d
      else case get m k of RBool b \<Rightarrow> Inr b | _ \<Rightarrow> Inl (safe k @ '' must be boolean''))"

definition integerValue :: "raw \<Rightarrow> int option" where
  "integerValue v = (case v of RInt n \<Rightarrow> Some n | _ \<Rightarrow> None)"

definition intDefault :: "raw_map \<Rightarrow> string \<Rightarrow> int \<Rightarrow> int \<Rightarrow> int result" where
  "intDefault m k d least =
     (if \<not> has m k then Inr d
      else case integerValue (get m k) of
        Some n \<Rightarrow> if n < least then Inl (safe k @ '' must be an integer >= '' @ format_int least) else Inr n
      | None \<Rightarrow> Inl (safe k @ '' must be an integer >= '' @ format_int least))"

definition list_of :: "raw \<Rightarrow> string \<Rightarrow> raw list result" where
  "list_of v label = (case v of RList l \<Rightarrow> Inr l | _ \<Rightarrow> Inl (safe label @ '' must be a list''))"

definition stringsList :: "raw \<Rightarrow> string \<Rightarrow> bool \<Rightarrow> string list result" where
  "stringsList v label nonempty =
     andThen (list_of v label) (\<lambda>l.
       each (\<lambda>v out.
         case str v label of
           Inl _ \<Rightarrow> Inl (safe label @ '' contains an invalid string'')
         | Inr s \<Rightarrow>
             if nonempty \<and> s = [] then Inl (safe label @ '' contains an invalid string'')
             else if s \<in> set out then Inl (safe label @ '' contains duplicates'')
             else Inr (out @ [s])) l [])"

fun plain :: "raw \<Rightarrow> val" where
  "plain RNull = VNull"
| "plain (RBool b) = VBool b"
| "plain (RStr s) = VStr s"
| "plain (RInt n) = VInt n"
| "plain (RFloat f) = VFloat f"
| "plain (RList l) = VArr (map plain l)"
| "plain (RMap m) = VObj (map (\<lambda>kv. (fst kv, plain (snd kv))) m)"

section \<open>Decoding YAML nodes\<close>

datatype yaml_kind = DocumentNode | SequenceNode | MappingNode | ScalarNode | AliasNode

record yaml_node =
  yKind :: yaml_kind
  yTag :: string
  yValue :: string
  yContent :: "nat list"
  yAlias :: "nat option"

text \<open>
  What the YAML library supplies: the content of the first document, whether it is the only one, the
  nodes, and the decoding of boolean and integer scalars.
\<close>

record yaml_lib =
  first_document :: "string \<Rightarrow> nat list option"
  second_is_EOF :: "string \<Rightarrow> bool"
  node_at :: "nat \<Rightarrow> yaml_node"
  decode_bool :: "yaml_node \<Rightarrow> bool option"
  decode_int :: "yaml_node \<Rightarrow> int option"

fun content_pairs :: "nat list \<Rightarrow> (nat \<times> nat) list" where
  "content_pairs (k # v # rest) = (k, v) # content_pairs rest"
| "content_pairs _ = []"

definition decode_scalar :: "float_lib \<Rightarrow> yaml_lib \<Rightarrow> yaml_node \<Rightarrow> raw result" where
  "decode_scalar L Y n =
     (if yTag n = ''!!str'' then Inr (RStr (yValue n))
      else if yTag n = ''!!null'' then Inr RNull
      else if yTag n = ''!!bool'' then
        (case decode_bool Y n of None \<Rightarrow> Inl ''invalid boolean'' | Some b \<Rightarrow> Inr (RBool b))
      else if yTag n = ''!!int'' then
        (case decode_int Y n of None \<Rightarrow> Inl ''integer exceeds int64'' | Some i \<Rightarrow> Inr (RInt i))
      else if yTag n = ''!!float'' then
        (case parse_float L (filter (\<lambda>c. c \<noteq> CHR ''_'') (yValue n)) of
           None \<Rightarrow> Inl ''number must be finite''
         | Some f \<Rightarrow>
             if \<not> is_finite f then Inl ''number must be finite''
             else Inr (RFloat (if f = Neg_zero then Fin 0 0 else f)))
      else Inl ''unsupported YAML scalar tag'')"

text \<open>The entries of a merge source that the map does not have yet, in their order.\<close>

definition merge_missing :: "raw_map \<Rightarrow> raw_map \<Rightarrow> raw_map" where
  "merge_missing m sm = fold (\<lambda>(k, v) m. if has m k then m else m @ [(k, v)]) sm m"

text \<open>
  A mapping: the sources of its merge key are expanded first, then its own keys are added or replace
  merged ones. \<open>decode\<close> decodes a node below it.
\<close>

definition decode_mapping :: "(nat \<Rightarrow> raw result) \<Rightarrow> yaml_lib \<Rightarrow> (nat \<times> nat) list \<Rightarrow> raw result" where
  "decode_mapping decode Y pairs =
     andThen (each (\<lambda>(k, v) (merged, m).
         if yTag (node_at Y k) \<noteq> ''!!merge'' then Inr (merged, m)
         else if merged then Inl ''duplicate YAML merge''
         else andThen (each (\<lambda>source m.
                  andThen (decode source) (\<lambda>vv.
                  andThen (object vv ''merge'') (\<lambda>sm. Inr (merge_missing m sm))))
                (if yKind (node_at Y v) = SequenceNode then yContent (node_at Y v) else [v]) m)
              (\<lambda>m. Inr (True, m)))
       pairs (False, []))
     (\<lambda>(merged, m).
     andThen (each (\<lambda>(k, v) (direct, m).
         if yTag (node_at Y k) = ''!!merge'' then Inr (direct, m)
         else if yKind (node_at Y k) \<noteq> ScalarNode \<or> yTag (node_at Y k) \<noteq> ''!!str''
         then Inl ''configuration key must be a string''
         else if yValue (node_at Y k) \<in> set direct
         then Inl (''duplicate configuration key '' @ safe (yValue (node_at Y k)))
         else andThen (decode v) (\<lambda>vv.
           Inr (yValue (node_at Y k) # direct, AList.update (yValue (node_at Y k)) vv m)))
       pairs (if merged then [''<<''] else [], m))
     (\<lambda>(direct, m). Inr (RMap m)))"

lemma decode_mapping_cong [fundef_cong]:
  "Y = Y' \<Longrightarrow> pairs = pairs' \<Longrightarrow> (\<And>n. decode n = decode' n) \<Longrightarrow> decode_mapping decode Y pairs = decode_mapping decode' Y' pairs'"
  by (simp add: ext [of decode decode'])

definition nesting_error :: "raw result" where
  "nesting_error = Inl ''configuration nesting or alias cycle exceeds limit''"

function decodeNode :: "float_lib \<Rightarrow> yaml_lib \<Rightarrow> nat option \<Rightarrow> nat list \<Rightarrow> nat \<Rightarrow> raw result" where
  "decodeNode L Y n stack depth =
     (case n of
        None \<Rightarrow> nesting_error
      | Some a \<Rightarrow>
        if depth > 128 \<or> a \<in> set stack then nesting_error
        else
          (let nd = node_at Y a; below = a # stack in
           if yKind nd = AliasNode then decodeNode L Y (yAlias nd) below (depth + 1)
           else if yTag nd = ''!!null'' then Inr RNull
           else if yKind nd = MappingNode \<and> yTag nd \<noteq> ''!!map'' \<or> yKind nd = SequenceNode \<and> yTag nd \<noteq> ''!!seq''
           then Inl ''unsupported YAML collection tag''
           else case yKind nd of
             MappingNode \<Rightarrow>
               decode_mapping (\<lambda>n. decodeNode L Y (Some n) below (depth + 1)) Y (content_pairs (yContent nd))
           | SequenceNode \<Rightarrow>
               andThen (traverse (\<lambda>c. decodeNode L Y (Some c) below (depth + 1)) (yContent nd)) (\<lambda>l. Inr (RList l))
           | ScalarNode \<Rightarrow> decode_scalar L Y nd
           | _ \<Rightarrow> Inl ''invalid YAML node''))"
  by auto
termination
  by (relation "measure (\<lambda>(L, Y, n, stack, depth). 129 - depth)") auto

declare decodeNode.simps [simp del]

definition decodeYAML :: "float_lib \<Rightarrow> yaml_lib \<Rightarrow> string \<Rightarrow> raw_map result" where
  "decodeYAML L Y data =
     (if \<not> utf8_valid data then Inl ''configuration must be valid UTF-8''
      else case first_document Y data of
        None \<Rightarrow> Inl ''invalid YAML configuration''
      | Some content \<Rightarrow>
          if \<not> second_is_EOF Y data then Inl ''configuration must contain one YAML document''
          else if length content \<noteq> 1 then Inl ''configuration must be a map''
          else andThen (decodeNode L Y (Some (hd content)) [] 0) (\<lambda>v. object v ''configuration''))"

section \<open>Decoded values are well-formed\<close>

fun wf_raw :: "raw \<Rightarrow> bool" where
  "wf_raw (RInt n) = in_int64 n"
| "wf_raw (RFloat f) = (is_finite f \<and> f \<noteq> Neg_zero)"
| "wf_raw (RList l) = list_all wf_raw l"
| "wf_raw (RMap m) = (distinct_keys m \<and> list_all (\<lambda>kv. wf_raw (snd kv)) m)"
| "wf_raw v = True"

fun raw_depth :: "raw \<Rightarrow> nat" where
  "raw_depth (RList l) = Suc (foldr max (map raw_depth l) 0)"
| "raw_depth (RMap m) = Suc (foldr max (map (\<lambda>kv. raw_depth (snd kv)) m) 0)"
| "raw_depth v = 1"

definition bounded_raw :: "nat \<Rightarrow> raw \<Rightarrow> bool" where
  "bounded_raw b r \<longleftrightarrow> wf_raw r \<and> raw_depth r \<le> b"

definition bounded_entries :: "nat \<Rightarrow> raw_map \<Rightarrow> bool" where
  "bounded_entries b m \<longleftrightarrow> distinct_keys m \<and> list_all (\<lambda>kv. bounded_raw b (snd kv)) m"

lemma foldr_max_bound: "foldr max xs (0::nat) \<le> b \<longleftrightarrow> list_all (\<lambda>x. x \<le> b) xs"
  by (induction xs) auto

lemma bounded_raw_list: "bounded_raw (Suc b) (RList l) \<longleftrightarrow> list_all (bounded_raw b) l"
  by (auto simp: bounded_raw_def foldr_max_bound list_all_iff)

lemma bounded_raw_map: "bounded_raw (Suc b) (RMap m) \<longleftrightarrow> bounded_entries b m"
  by (auto simp: bounded_raw_def bounded_entries_def foldr_max_bound list_all_iff)

lemma bounded_raw_mono: "bounded_raw b r \<Longrightarrow> b \<le> c \<Longrightarrow> bounded_raw c r"
  by (auto simp: bounded_raw_def)

lemma bounded_entries_mono: "bounded_entries b m \<Longrightarrow> b \<le> c \<Longrightarrow> bounded_entries c m"
  by (auto simp: bounded_entries_def list_all_iff intro: bounded_raw_mono)

lemma object_Inr [simp]: "object v label = Inr m \<longleftrightarrow> v = RMap m"
  by (cases v) (auto simp: object_def)

lemma bounded_entries_merge:
  "bounded_entries b m \<Longrightarrow> bounded_entries b sm \<Longrightarrow> bounded_entries b (merge_missing m sm)"
proof -
  have "bounded_entries b m \<Longrightarrow> list_all (\<lambda>kv. bounded_raw b (snd kv)) sm \<Longrightarrow>
      bounded_entries b (fold (\<lambda>(k, v) m. if has m k then m else m @ [(k, v)]) sm m)"
  proof (induction sm arbitrary: m)
    case (Cons kv sm)
    then show ?case
      by (cases kv) (auto simp: bounded_entries_def has_def distinct_keys_def map_of_eq_None_iff intro!: Cons.IH)
  qed simp
  then show "bounded_entries b m \<Longrightarrow> bounded_entries b sm \<Longrightarrow> ?thesis"
    by (simp add: merge_missing_def bounded_entries_def)
qed

lemma bounded_entries_update:
  "bounded_entries b m \<Longrightarrow> bounded_raw b v \<Longrightarrow> bounded_entries b (AList.update k v m)"
proof -
  assume m: "bounded_entries b m" and v: "bounded_raw b v"
  have "list_all (\<lambda>kv. bounded_raw b (snd kv)) m \<Longrightarrow> list_all (\<lambda>kv. bounded_raw b (snd kv)) (AList.update k v m)"
    by (induction m) (auto simp: v)
  then show ?thesis using m by (simp add: bounded_entries_def distinct_keys_update)
qed

definition int64_lib :: "yaml_lib \<Rightarrow> bool" where
  "int64_lib Y \<longleftrightarrow> (\<forall>n i. decode_int Y n = Some i \<longrightarrow> in_int64 i)"

lemma decode_scalar_bounded: "int64_lib Y \<Longrightarrow> decode_scalar L Y n = Inr r \<Longrightarrow> bounded_raw (Suc b) r"
  by (auto simp: decode_scalar_def bounded_raw_def int64_lib_def split: if_splits option.splits)

lemma decode_mapping_bounded:
  assumes sub: "\<And>n r. decode n = Inr r \<Longrightarrow> bounded_raw b r"
    and "decode_mapping decode Y pairs = Inr r"
  shows "bounded_raw (Suc b) r"
proof -
  have entries: "bounded_entries b sm" if "decode n = Inr (RMap sm)" for n sm
  proof (cases b)
    case 0
    then show ?thesis using sub [OF that] by (simp add: bounded_raw_def)
  next
    case (Suc c)
    then have "bounded_entries c sm" using sub [OF that] bounded_raw_map by simp
    then show ?thesis using Suc by (auto intro: bounded_entries_mono)
  qed
  have start: "bounded_entries b []" by (simp add: bounded_entries_def)
  have sources: "bounded_entries b m'"
    if "each (\<lambda>source m. andThen (decode source) (\<lambda>vv.
          andThen (object vv ''merge'') (\<lambda>sm. Inr (merge_missing m sm)))) srcs m = Inr m'" "bounded_entries b m"
    for srcs m m'
    using that by (rule each_invariant [where P = "bounded_entries b"])
      (auto simp: andThen_eq_Inr intro: bounded_entries_merge dest: entries)
  obtain merged m direct m' where merges: "each (\<lambda>(k, v) (merged, m).
         if yTag (node_at Y k) \<noteq> ''!!merge'' then Inr (merged, m)
         else if merged then Inl ''duplicate YAML merge''
         else andThen (each (\<lambda>source m.
                  andThen (decode source) (\<lambda>vv.
                  andThen (object vv ''merge'') (\<lambda>sm. Inr (merge_missing m sm))))
                (if yKind (node_at Y v) = SequenceNode then yContent (node_at Y v) else [v]) m)
              (\<lambda>m. Inr (True, m))) pairs (False, []) = Inr (merged, m)"
    and directs: "each (\<lambda>(k, v) (direct, m).
         if yTag (node_at Y k) = ''!!merge'' then Inr (direct, m)
         else if yKind (node_at Y k) \<noteq> ScalarNode \<or> yTag (node_at Y k) \<noteq> ''!!str''
         then Inl ''configuration key must be a string''
         else if yValue (node_at Y k) \<in> set direct
         then Inl (''duplicate configuration key '' @ safe (yValue (node_at Y k)))
         else andThen (decode v) (\<lambda>vv.
           Inr (yValue (node_at Y k) # direct, AList.update (yValue (node_at Y k)) vv m)))
       pairs (if merged then [''<<''] else [], m) = Inr (direct, m')" and r: "r = RMap m'"
    using assms(2) unfolding decode_mapping_def by (auto simp: andThen_eq_Inr simp del: each.simps)
  have "bounded_entries b (snd (merged, m))"
    by (rule each_invariant [OF merges, where P = "\<lambda>st. bounded_entries b (snd st)"])
      (auto simp: start andThen_eq_Inr simp del: each.simps split: if_splits dest: sources)
  then have m: "bounded_entries b m" by simp
  have "bounded_entries b (snd (direct, m'))"
    by (rule each_invariant [OF directs, where P = "\<lambda>st. bounded_entries b (snd st)"])
      (auto simp: m andThen_eq_Inr split: if_splits intro!: bounded_entries_update dest!: sub)
  then show ?thesis by (simp add: r bounded_raw_map)
qed

lemma decodeNode_bounded:
  assumes "int64_lib Y"
  shows "depth \<le> 129 \<Longrightarrow> decodeNode L Y n stack depth = Inr r \<Longrightarrow> bounded_raw (129 - depth) r"
proof (induction "129 - depth" arbitrary: depth n stack r)
  case 0
  then show ?case by (subst (asm) decodeNode.simps) (auto simp: nesting_error_def split: option.splits)
next
  case (Suc b)
  have IH: "bounded_raw b r'" if "decodeNode L Y n' st (Suc depth) = Inr r'" for n' st r'
  proof -
    have "b = 129 - Suc depth" "Suc depth \<le> 129" using Suc(2) by auto
    then show ?thesis using Suc(1) [of "Suc depth" n' st r'] that by simp
  qed
  obtain a where n: "n = Some a" and a: "a \<notin> set stack"
    using Suc(4) by (subst (asm) decodeNode.simps) (auto simp: nesting_error_def split: option.splits if_splits)
  have d: "\<not> 128 < depth" using Suc(2) by simp
  have null: "bounded_raw (Suc b) RNull" by (simp add: bounded_raw_def)
  note eq = Suc(4) [unfolded n decodeNode.simps [of L Y "Some a" stack depth] Let_def]
  show ?case unfolding Suc(2) [symmetric]
  proof (cases "yKind (node_at Y a)")
    case MappingNode
    then show "bounded_raw (Suc b) r" using eq d a
      by (auto simp: null split: if_splits intro: decode_mapping_bounded [OF IH])
  next
    case SequenceNode
    then show "bounded_raw (Suc b) r" using eq d a
      by (auto simp: null andThen_eq_Inr bounded_raw_list simp del: traverse_simps
          intro: IH elim!: traverse_all split: if_splits)
  next
    case ScalarNode
    then show "bounded_raw (Suc b) r" using eq d a decode_scalar_bounded [OF assms]
      by (auto split: if_splits simp: null)
  next
    case AliasNode
    then show "bounded_raw (Suc b) r" using eq d a by (auto split: if_splits intro: bounded_raw_mono [of b] dest!: IH)
  qed (use eq d a in \<open>auto split: if_splits simp: null\<close>)
qed

text \<open>
  C27: A configuration that decodes is well-formed: the keys of every map in it are distinct, every number
  is a finite float or an \<^verbatim>\<open>int64\<close>, and it nests at most 128 levels below the root, whatever aliases and
  merge keys the document uses.
\<close>

theorem decoded_configuration_is_wellformed:
  assumes "int64_lib Y" "decodeYAML L Y data = Inr m"
  shows "distinct_keys m \<and> list_all (\<lambda>kv. wf_raw (snd kv) \<and> raw_depth (snd kv) \<le> 128) m"
proof -
  obtain n where "decodeNode L Y n [] 0 = Inr (RMap m)"
    using assms(2) by (auto simp: decodeYAML_def andThen_eq_Inr split: if_splits option.splits)
  from decodeNode_bounded [OF assms(1) _ this] have "bounded_raw (Suc 128) (RMap m)" by simp
  then have "bounded_entries 128 m" by (rule bounded_raw_map [THEN iffD1])
  then show ?thesis by (simp add: bounded_entries_def bounded_raw_def)
qed

definition sample_yaml :: yaml_lib where
  "sample_yaml = \<lparr>first_document = (\<lambda>_. Some [0]), second_is_EOF = (\<lambda>_. True),
     node_at = (\<lambda>n. [\<lparr>yKind = MappingNode, yTag = ''!!map'', yValue = [], yContent = [1, 2, 3, 4], yAlias = None\<rparr>,
       \<lparr>yKind = ScalarNode, yTag = ''!!merge'', yValue = ''<<'', yContent = [], yAlias = None\<rparr>,
       \<lparr>yKind = AliasNode, yTag = [], yValue = [], yContent = [], yAlias = Some 5\<rparr>,
       \<lparr>yKind = ScalarNode, yTag = ''!!str'', yValue = ''a'', yContent = [], yAlias = None\<rparr>,
       \<lparr>yKind = ScalarNode, yTag = ''!!int'', yValue = ''7'', yContent = [], yAlias = None\<rparr>,
       \<lparr>yKind = MappingNode, yTag = ''!!map'', yValue = [], yContent = [3, 3, 6, 3], yAlias = None\<rparr>,
       \<lparr>yKind = ScalarNode, yTag = ''!!str'', yValue = ''b'', yContent = [], yAlias = None\<rparr>] ! n),
     decode_bool = (\<lambda>_. None), decode_int = (\<lambda>_. Some 7)\<rparr>"

definition sample_floats :: float_lib where
  "sample_floats = \<lparr>parse_float = (\<lambda>_. None), format_float = (\<lambda>_. [])\<rparr>"

theorem decoded_configuration_is_wellformed_witness:
  "int64_lib sample_yaml
   \<and> decodeYAML sample_floats sample_yaml ''x'' = Inr [(''a'', RInt 7), (''b'', RStr ''a'')]
   \<and> distinct_keys [(''a'', RInt 7), (''b'', RStr ''a'')]
   \<and> list_all (\<lambda>kv. wf_raw (snd kv) \<and> raw_depth (snd kv) \<le> 128) [(''a'', RInt 7), (''b'', RStr ''a'')]"
proof -
  have "int64_lib sample_yaml" by (simp add: int64_lib_def sample_yaml_def in_int64_def min_int64_def max_int64_def)
  moreover have "decodeYAML sample_floats sample_yaml ''x'' = Inr [(''a'', RInt 7), (''b'', RStr ''a'')]" by code_simp
  ultimately show ?thesis using decoded_configuration_is_wellformed by blast
qed

end
