(* ===== verification/Pattern.thy ===== *)
theory Pattern
  imports Raw_Config
begin

text \<open>
  Patterns (\<^verbatim>\<open>src/internal/contract/pattern.go\<close> and \<^verbatim>\<open>pattern_ecma.go\<close>): the scan that admits the syntax
  common to Go and ECMA-262, the normalized tree, and the ECMA expression written from it. Parsing,
  printing and matching of Go expressions are \<^verbatim>\<open>regexp\<close>'s and \<^verbatim>\<open>regexp/syntax\<close>'s; with the other large
  parsers of the standard library they are fields of a record every user takes as an argument.
\<close>

section \<open>Parsers of the standard library\<close>

datatype re_op =
  OpNoMatch | OpEmptyMatch | OpLiteral | OpCharClass | OpAnyCharNotNL | OpAnyChar | OpBeginLine | OpEndLine
| OpBeginText | OpEndText | OpWordBoundary | OpNoWordBoundary | OpCapture | OpStar | OpPlus | OpQuest | OpRepeat
| OpConcat | OpAlternate

datatype regexp =
  Regexp (Op: re_op) (NonGreedy: bool) (Rune: "nat list") (Sub: "regexp list") (re_Min: int) (re_Max: int)

record url =
  url_Scheme :: string
  url_Host :: string
  url_User :: bool
  url_Path :: string
  url_RawQuery :: string
  url_Fragment :: string
  url_Hostname :: string
  url_Port :: string

record stdlib =
  floats :: float_lib
  syntax_Parse :: "string \<Rightarrow> regexp option"
  syntax_String :: "regexp \<Rightarrow> string"
  regexp_Compile :: "string \<Rightarrow> bool"
  regexp_Match :: "string \<Rightarrow> string \<Rightarrow> bool"
  url_Parse :: "string \<Rightarrow> url option"
  mail_ParseAddress :: "string \<Rightarrow> bool"
  time_RFC3339 :: "string \<Rightarrow> bool"
  ParseDuration :: "string \<Rightarrow> int option"
  Duration_String :: "int \<Rightarrow> string"
  IsLoopback :: "string \<Rightarrow> bool option"
  SplitHostPort :: "string \<Rightarrow> bool"
  ParseCIDR :: "string \<Rightarrow> string option"
  sha256_hex :: "string \<Rightarrow> string"

section \<open>Nodes\<close>

datatype pattern_node =
  Node (Kind: string) (Text: string) (Ranges: "nat list") (Children: "pattern_node list")
    (Min: int) (Max: int) (Lazy: bool)

datatype pattern = Pattern (AST: pattern_node) (GoExpression: string)

definition MatchString :: "stdlib \<Rightarrow> pattern \<Rightarrow> string \<Rightarrow> bool" where
  "MatchString L p s = regexp_Match L (GoExpression p) s"

fun op_String :: "re_op \<Rightarrow> string" where
  "op_String OpNoMatch = ''NoMatch''" | "op_String OpEmptyMatch = ''EmptyMatch''"
| "op_String OpLiteral = ''Literal''" | "op_String OpCharClass = ''CharClass''"
| "op_String OpAnyCharNotNL = ''AnyCharNotNL''" | "op_String OpAnyChar = ''AnyChar''"
| "op_String OpBeginLine = ''BeginLine''" | "op_String OpEndLine = ''EndLine''"
| "op_String OpBeginText = ''BeginText''" | "op_String OpEndText = ''EndText''"
| "op_String OpWordBoundary = ''WordBoundary''" | "op_String OpNoWordBoundary = ''NoWordBoundary''"
| "op_String OpCapture = ''Capture''" | "op_String OpStar = ''Star''" | "op_String OpPlus = ''Plus''"
| "op_String OpQuest = ''Quest''" | "op_String OpRepeat = ''Repeat''" | "op_String OpConcat = ''Concat''"
| "op_String OpAlternate = ''Alternate''"

section \<open>The common syntax\<close>

definition is_hex :: "char \<Rightarrow> bool" where
  "is_hex c \<longleftrightarrow> c \<in> set ''0123456789abcdefABCDEF''"

definition is_digit :: "char \<Rightarrow> bool" where
  "is_digit c \<longleftrightarrow> c \<in> set ''0123456789''"

text \<open>The body of a repetition: one or two decimal numbers, the second of which may be missing.\<close>

definition repetition_ok :: "string \<Rightarrow> bool" where
  "repetition_ok body =
     (let parts = Split (CHR '','') body in
      length parts \<le> 2 \<and> hd parts \<noteq> [] \<and> list_all (list_all is_digit) parts)"

function scan_pattern :: "string \<Rightarrow> nat \<Rightarrow> bool \<Rightarrow> bool \<Rightarrow> unit result" where
  "scan_pattern s i inClass anchor =
     (if i \<ge> length s then (if inClass then Inl ''unterminated pattern class'' else Inr ())
      else
        (let c = s ! i in
         if \<not> inClass \<and> anchor \<and> c \<in> set ''*+?{'' then Inl ''quantifier after an anchor is unsupported''
         else if c = CHR 0x5C then
           (if i + 1 \<ge> length s then Inl ''incomplete pattern escape''
            else
              (let d = s ! (i + 1) in
               if d = CHR 0x5C \<or> d \<in> set ''/nrtfvdDwW'' \<or> d \<in> set ''.*+?()[]{}^$|'' then scan_pattern s (i + 2) inClass False
               else if d = CHR ''-'' then
                 (if \<not> inClass then Inl ''hyphen escape is class-only'' else scan_pattern s (i + 2) inClass False)
               else if d = CHR ''x'' then
                 (if i + 3 \<ge> length s \<or> \<not> (is_hex (s ! (i + 2)) \<and> is_hex (s ! (i + 3))) then Inl ''invalid hex escape''
                  else scan_pattern s (i + 4) inClass False)
               else Inl ''unsupported pattern escape''))
         else if inClass then
           (if c = CHR ''['' then Inl ''nested or POSIX class is unsupported''
            else scan_pattern s (i + 1) (c \<noteq> CHR '']'') False)
         else if c = CHR ''['' then
           (let first = (if i + 1 < length s \<and> s ! (i + 1) = CHR ''^'' then i + 2 else i + 1) in
            if first < length s \<and> s ! first = CHR '']'' then Inl (''class starting with '' @ [CHR 0x27, CHR '']'', CHR 0x27] @ '' is unsupported'')
            else scan_pattern s (i + 1) True False)
         else if c = CHR ''^'' \<or> c = CHR ''$'' then scan_pattern s (i + 1) False True
         else if c = CHR '']'' \<or> c = CHR ''}'' then Inl ''unescaped pattern syntax character''
         else if c = CHR ''('' then
           (if i + 1 < length s \<and> s ! (i + 1) = CHR ''?'' then
              (if i + 2 \<ge> length s \<or> s ! (i + 2) \<noteq> CHR '':'' then Inl ''unsupported pattern group''
               else scan_pattern s (i + 3) False False)
            else scan_pattern s (i + 1) False False)
         else if c = CHR ''{'' then
           (let rest = drop (i + 1) s; body = takeWhile (\<lambda>c. c \<noteq> CHR ''}'') rest in
            if CHR ''}'' \<notin> set rest \<or> \<not> repetition_ok body then Inl ''invalid repetition''
            else scan_pattern s (i + length body + 2) False False)
         else scan_pattern s (i + 1) False False))"
  by auto
termination
  by (relation "measure (\<lambda>(s, i, inClass, anchor). length s - i)") auto

declare scan_pattern.simps [simp del]

text \<open>Go's parser does not know the escaped slash.\<close>

fun unescape_slash :: "string \<Rightarrow> string" where
  "unescape_slash (c # d # s) =
     (if c = CHR 0x5C then (if d = CHR ''/'' then [d] else [c, d]) @ unescape_slash s
      else c # unescape_slash (d # s))"
| "unescape_slash s = s"

section \<open>The normalized tree\<close>

text \<open>A dot is any scalar but the four line terminators of ECMA-262; a capture is its content.\<close>

definition dot_class :: "nat list" where
  "dot_class = [0, 9, 11, 12, 14, 8231, 8234, 1114111]"

fun normalizePattern :: "regexp \<Rightarrow> regexp" where
  "normalizePattern (Regexp op ng rs subs lo hi) =
     (let subs' = map normalizePattern subs in
      if op = OpCapture then hd subs'
      else if op = OpAnyCharNotNL \<or> op = OpAnyChar then Regexp OpCharClass False dot_class [] 0 0
      else Regexp op ng rs subs' lo hi)"

text \<open>\<^verbatim>\<open>string(r.Rune)\<close>: the runes encoded in UTF-8.\<close>

definition encode_rune :: "nat \<Rightarrow> string" where
  "encode_rune r =
     (let c = (\<lambda>n. char_of (n :: nat) :: char) in
      if r < 128 then [c r]
      else if r < 2048 then [c (192 + r div 64), c (128 + r mod 64)]
      else if r < 65536 then [c (224 + r div 4096), c (128 + r div 64 mod 64), c (128 + r mod 64)]
      else [c (240 + r div 262144), c (128 + r div 4096 mod 64), c (128 + r div 64 mod 64), c (128 + r mod 64)])"

fun patternNode :: "regexp \<Rightarrow> pattern_node" where
  "patternNode (Regexp op ng rs subs lo hi) =
     Node (op_String op) (if op = OpLiteral then concat (map encode_rune rs) else [])
       (if op = OpCharClass then rs else []) (map patternNode subs) lo hi ng"

definition CompilePattern :: "stdlib \<Rightarrow> string \<Rightarrow> pattern result" where
  "CompilePattern L source =
     (if \<not> utf8_valid source then Inl ''pattern must contain Unicode scalars''
      else andThen (scan_pattern source 0 False False) (\<lambda>_.
        case syntax_Parse L (unescape_slash source) of
          None \<Rightarrow> Inl ''invalid common pattern''
        | Some tree \<Rightarrow>
            (let t = normalizePattern tree; expr = syntax_String L t in
             if \<not> regexp_Compile L expr then Inl ''invalid generated pattern''
             else Inr (Pattern (patternNode t) expr))))"

fun node_normalized :: "pattern_node \<Rightarrow> val" where
  "node_normalized (Node kind text ranges children lo hi lz) =
     VObj ([(''kind'', VStr kind)]
       @ (if kind = ''Literal'' then [(''text'', VStr text)] else [])
       @ (if ranges \<noteq> [] then [(''ranges'', VArr (map (\<lambda>r. VInt (int r)) ranges))] else [])
       @ (if children \<noteq> [] then [(''children'', VArr (map node_normalized children))] else [])
       @ (if kind = ''Repeat'' then [(''min'', VInt lo), (''max'', VInt hi)] else [])
       @ (if lz then [(''lazy'', VBool True)] else []))"

section \<open>The ECMA expression\<close>

fun nat_hex :: "nat \<Rightarrow> string" where
  "nat_hex n = (if n < 16 then [hex_digit n] else nat_hex (n div 16) @ [hex_digit (n mod 16)])"

declare nat_hex.simps [simp del]

definition ecmaRune :: "nat \<Rightarrow> string" where
  "ecmaRune r = [CHR 0x5C, CHR ''u'', CHR ''{''] @ nat_hex r @ ''}''"

fun ecma_ranges :: "nat list \<Rightarrow> string" where
  "ecma_ranges (lo # hi # rs) = ecmaRune lo @ (if lo \<noteq> hi then ''-'' @ ecmaRune hi else []) @ ecma_ranges rs"
| "ecma_ranges _ = []"

definition ecma_suffix :: "string \<Rightarrow> int \<Rightarrow> int \<Rightarrow> bool \<Rightarrow> string" where
  "ecma_suffix kind lo hi lz =
     (if kind = ''Star'' then ''*'' else if kind = ''Plus'' then ''+'' else if kind = ''Quest'' then ''?''
      else if hi < 0 then ''{'' @ format_int lo @ '',}''
      else if lo = hi then ''{'' @ format_int lo @ ''}''
      else ''{'' @ format_int lo @ '','' @ format_int hi @ ''}'')
     @ (if lz then ''?'' else [])"

text \<open>\<open>None\<close> is the panic on a node outside the normalized set.\<close>

fun ecmaNode :: "pattern_node \<Rightarrow> string option" where
  "ecmaNode (Node kind text ranges children lo hi lz) =
     (if kind = ''NoMatch'' then Some ''(?!)''
      else if kind = ''EmptyMatch'' then Some ''(?:)''
      else if kind = ''Literal'' then Some (concat (map ecmaRune (runes text)))
      else if kind = ''CharClass'' then Some (''['' @ ecma_ranges ranges @ '']'')
      else if kind = ''BeginText'' then Some ''^''
      else if kind = ''EndText'' then Some (''(?!['' @ [CHR 0x5C, CHR ''s'', CHR 0x5C, CHR ''S''] @ ''])'')
      else if kind = ''Concat'' then map_option concat (collect (map ecmaNode children))
      else if kind = ''Alternate'' then map_option (\<lambda>a. ''(?:'' @ join ''|'' a @ '')'') (collect (map ecmaNode children))
      else if kind = ''Star'' \<or> kind = ''Plus'' \<or> kind = ''Quest'' \<or> kind = ''Repeat'' then
        (case children of
           [] \<Rightarrow> None
         | c # _ \<Rightarrow> map_option (\<lambda>e. ''(?:'' @ e @ '')'' @ ecma_suffix kind lo hi lz) (ecmaNode c))
      else None)"

definition ECMAExpression :: "pattern \<Rightarrow> string option" where
  "ECMAExpression p = ecmaNode (AST p)"

section \<open>What normalization keeps\<close>

text \<open>
  The trees Go's parser returns for a scanned pattern: no line or word assertions (the scan refuses their
  syntax and \<^verbatim>\<open>syntax.Perl\<close> reads the anchors as the ends of the text), one operand below a capture or
  a repetition.
\<close>

fun parsed :: "regexp \<Rightarrow> bool" where
  "parsed (Regexp op ng rs subs lo hi) \<longleftrightarrow>
     op \<notin> {OpBeginLine, OpEndLine, OpWordBoundary, OpNoWordBoundary}
     \<and> (op \<in> {OpCapture, OpStar, OpPlus, OpQuest, OpRepeat} \<longrightarrow> length subs = 1)
     \<and> list_all parsed subs"









text \<open>
  The published ECMA expression of a compiled pattern always exists: \<open>ecmaNode\<close> never reaches its
  panic on the trees \<open>CompilePattern\<close> stores.
\<close>

theorem ecma_expression_is_total:
  assumes "\<And>s t. syntax_Parse L s = Some t \<Longrightarrow> parsed t" "CompilePattern L source = Inr p"
  shows "ECMAExpression p \<noteq> None"
proof -
  have total: "parsed t \<Longrightarrow> ecmaNode (patternNode (normalizePattern t)) \<noteq> None" for t
  proof (induction t)
    case (Regexp op ng rs subs lo hi)
    have subs: "None \<notin> set (map ecmaNode (map patternNode (map normalizePattern subs)))"
      using Regexp by (force simp: list_all_iff)
    show ?case
    proof (cases "op \<in> {OpCapture, OpStar, OpPlus, OpQuest, OpRepeat}")
      case True
      then obtain s where "subs = [s]" using Regexp.prems by (auto simp: length_Suc_conv)
      then show ?thesis using True subs by (cases op) (auto simp: Let_def)
    next
      case False
      then show ?thesis
        using Regexp.prems subs by (cases op) (auto simp: Let_def collect_None_iff simp del: map_map)
    qed
  qed
  obtain t where "syntax_Parse L (unescape_slash source) = Some t" "AST p = patternNode (normalizePattern t)"
    using assms(2) by (auto simp: CompilePattern_def andThen_eq_Inr Let_def split: if_splits option.splits)
  then show ?thesis using total assms(1) by (simp add: ECMAExpression_def)
qed

definition sample_lib :: stdlib where
  "sample_lib = \<lparr>floats = sample_floats,
     syntax_Parse = (\<lambda>s. if s = ''a*'' then Some (Regexp OpStar False [] [Regexp OpLiteral False [97] [] 0 0] 0 0) else None),
     syntax_String = (\<lambda>_. ''a*''), regexp_Compile = (\<lambda>_. True), regexp_Match = (\<lambda>_ _. True), url_Parse = (\<lambda>_. None),
     mail_ParseAddress = (\<lambda>_. False), time_RFC3339 = (\<lambda>_. False), ParseDuration = (\<lambda>_. None),
     Duration_String = (\<lambda>_. []), IsLoopback = (\<lambda>_. None), SplitHostPort = (\<lambda>_. False), ParseCIDR = (\<lambda>_. None),
     sha256_hex = (\<lambda>_. [])\<rparr>"

theorem ecma_expression_is_total_witness:
  "\<exists>p. CompilePattern sample_lib ''a*'' = Inr p \<and> ECMAExpression p \<noteq> None"
proof -
  have lib: "parsed t" if "syntax_Parse sample_lib s = Some t" for s t
    using that by (auto simp: sample_lib_def split: if_splits)
  have "\<exists>p. CompilePattern sample_lib ''a*'' = Inr p"
  proof
    show "CompilePattern sample_lib ''a*'' = Inr (Pattern (Node ''Star'' [] [] [Node ''Literal'' ''a'' [] [] 0 0 False] 0 0 False) ''a*'')"
      by code_simp
  qed
  then obtain p where p: "CompilePattern sample_lib ''a*'' = Inr p" by blast
  have "ECMAExpression p \<noteq> None" by (rule ecma_expression_is_total [OF lib p])
  then show ?thesis using p by blast
qed

end
