(* ===== verification/Schema.thy ===== *)
theory Schema
  imports Pattern
begin

text \<open>
  Schemas and the validation of values against them (\<^verbatim>\<open>src/internal/contract/types.go\<close>,
  \<^verbatim>\<open>input.go\<close> and \<^verbatim>\<open>src/internal/valueformat\<close>): the compiled schema, file constraints, formats, numbers
  compared as rationals, \<open>validate\<close> and \<open>ValidateInput\<close>.
\<close>

section \<open>Compiled schemas\<close>

record file_constraints =
  fc_Extensions :: "string list"
  fc_MIMETypes :: "string list"
  fc_MaxBytes :: int
  fc_AllowEmpty :: bool

text \<open>\<^verbatim>\<open>Properties\<close> is a Go map, \<^verbatim>\<open>PropertyOrder\<close> its keys in declaration order.\<close>

datatype schema =
  Schema (Types: "string list") (Properties: "(string \<times> schema) list") (PropertyOrder: "string list")
    (PropertiesSet: bool) (Items: "schema option") (AdditionalAllowed: bool) (Additional: "schema option")
    (Required: "string list") (Default: val) (DefaultSet: bool) (Nullable: bool)
    (Constraints: "(string \<times> val) list") (SFile: "file_constraints option") (SPattern: "pattern option")
    (patternSource: string) (normalized: "(string \<times> val) list") (is_output: bool)

definition any_schema :: schema where
  "any_schema = Schema [] [] [] False None False None [] VNull False True [] None None [] [] False"

fun set_Constraints :: "(string \<times> val) list \<Rightarrow> schema \<Rightarrow> schema" where
  "set_Constraints cs (Schema a b c d e f g h i j k l m n q r t) = Schema a b c d e f g h i j k cs m n q r t"

fun set_normalized :: "(string \<times> val) list \<Rightarrow> schema \<Rightarrow> schema" where
  "set_normalized nm (Schema a b c d e f g h i j k l m n q r t) = Schema a b c d e f g h i j k l m n q nm t"

fun set_File :: "file_constraints \<Rightarrow> schema \<Rightarrow> schema" where
  "set_File fc (Schema a b c d e f g h i j k l m n q r t) = Schema a b c d e f g h i j k l (Some fc) n q r t"

fun set_Default :: "val \<Rightarrow> schema \<Rightarrow> schema" where
  "set_Default v (Schema a b c d e f g h i j k l m n q r t) = Schema a b c d e f g h v True k l m n q r t"

fun set_children :: "(string \<times> schema) list \<Rightarrow> schema option \<Rightarrow> schema \<Rightarrow> schema" where
  "set_children ps it (Schema a b c d e f g h i j k l m n q r t) = Schema a ps c d it f g h i j k l m n q r t"

record file_leaf =
  leaf_Pointer :: string
  leaf_Value :: file_value
  leaf_Schema :: schema

definition contains :: "string list \<Rightarrow> string \<Rightarrow> bool" where
  "contains a v = list_ex (\<lambda>s. s = v) a"

definition without :: "string list \<Rightarrow> string \<Rightarrow> string list" where
  "without a v = filter (\<lambda>s. s \<noteq> v) a"

fun HasFiles :: "schema \<Rightarrow> bool" where
  "HasFiles (Schema ts props po ps items aa addl req d ds nl cs f pt psrc nm out) =
     (f \<noteq> None
      \<or> (case items of None \<Rightarrow> False | Some i \<Rightarrow> HasFiles i)
      \<or> (case addl of None \<Rightarrow> False | Some a \<Rightarrow> HasFiles a)
      \<or> list_ex (\<lambda>kc. HasFiles (snd kc)) props)"

section \<open>Files\<close>

text \<open>
  A media type without parameters: \<^verbatim>\<open>mime.ParseMediaType\<close> returns its argument unchanged only when that
  is two tokens around a slash in lower case.
\<close>

definition is_token_char :: "char \<Rightarrow> bool" where
  "is_token_char c \<longleftrightarrow> 48 \<le> byte c \<and> byte c \<le> 57 \<or> 65 \<le> byte c \<and> byte c \<le> 90 \<or> 97 \<le> byte c \<and> byte c \<le> 122
     \<or> c \<in> set ''!#$%&*+-.^_`{|}~'' \<or> c = CHR 0x27"

definition checkMediaType :: "string \<Rightarrow> bool" where
  "checkMediaType s =
     (let typ = takeWhile is_token_char s; rest = dropWhile is_token_char s in
      typ \<noteq> [] \<and> (rest = [] \<or> hd rest = CHR ''/'' \<and> tl rest \<noteq> [] \<and> list_all is_token_char (tl rest)))"

definition validMIME :: "string \<Rightarrow> bool" where
  "validMIME s \<longleftrightarrow> checkMediaType s \<and> s = map lower_char s \<and> CHR ''/'' \<in> set s \<and> CHR ''*'' \<notin> set s"

definition is_digest :: "string \<Rightarrow> bool" where
  "is_digest s \<longleftrightarrow> length s = 64 \<and> list_all (\<lambda>c. c \<in> set ''0123456789abcdef'') s"

definition asciiLower :: "string \<Rightarrow> string" where
  "asciiLower s = map lower_char s"

text \<open>The text behind the last dot, when there is text on both sides of it.\<close>

definition extension_of :: "string \<Rightarrow> string option" where
  "extension_of name =
     (let ext = rev (takeWhile (\<lambda>c. c \<noteq> CHR ''.'') (rev name)) in
      if CHR ''.'' \<notin> set name \<or> length name - length ext \<le> 1 \<or> ext = [] then None else Some ext)"

definition FileConstraints_Validate :: "file_constraints \<Rightarrow> file_value \<Rightarrow> unit result" where
  "FileConstraints_Validate f v =
     (if \<not> ValidateBasename (file_Name v) then Inl ''invalid file basename''
      else if \<not> validMIME (file_MIMEType v) then Inl ''invalid file MIME type''
      else if file_SizeBytes v < 0 \<or> fc_MaxBytes f \<le> 0 \<or> file_SizeBytes v > fc_MaxBytes f then Inl ''file byte limit exceeded''
      else if file_SizeBytes v = 0 \<and> \<not> fc_AllowEmpty f then Inl ''empty file is forbidden''
      else if \<not> is_digest (file_SHA256 v) then Inl ''invalid file digest''
      else if fc_MIMETypes f \<noteq> [] \<and> \<not> contains (fc_MIMETypes f) (file_MIMEType v) then Inl ''file MIME type is forbidden''
      else if fc_Extensions f \<noteq> [] \<and>
        (case extension_of (file_Name v) of None \<Rightarrow> True | Some e \<Rightarrow> \<not> contains (fc_Extensions f) (asciiLower e))
      then Inl ''file extension is forbidden''
      else Inr ())"

text \<open>\<^verbatim>\<open>resolveFileLimits\<close>: the policy's limit wherever a file leaf names none, refused where one exceeds it.\<close>

function resolveFileLimits :: "int \<Rightarrow> schema \<Rightarrow> schema result" where
  "resolveFileLimits mx s =
     andThen
       (case SFile s of
          None \<Rightarrow> Inr s
        | Some f \<Rightarrow>
            if mx \<le> 0 then Inl ''file policy is missing''
            else if fc_MaxBytes f > mx then Inl ''file max_bytes exceeds policy''
            else
              (let m = (if fc_MaxBytes f = 0 then mx else fc_MaxBytes f) in
               Inr (set_normalized (AList.update ''max_bytes'' (VInt m) (normalized s)) (set_File (f\<lparr>fc_MaxBytes := m\<rparr>) s))))
     (\<lambda>s1.
     andThen (traverse (\<lambda>kc. andThen (resolveFileLimits mx (snd kc)) (\<lambda>c. Inr (fst kc, c))) (Properties s)) (\<lambda>props.
     andThen (case Items s of None \<Rightarrow> Inr None | Some i \<Rightarrow> andThen (resolveFileLimits mx i) (\<lambda>c. Inr (Some c))) (\<lambda>items.
       (let nm0 = normalized s1;
            nm1 = (case map_of nm0 ''properties'' of
                     Some (VObj np) \<Rightarrow>
                       if PropertiesSet s
                       then AList.update ''properties'' (VObj (fold (\<lambda>kc. AList.update (fst kc) (VObj (normalized (snd kc)))) props np)) nm0
                       else nm0
                   | _ \<Rightarrow> nm0);
            nm2 = (case items of None \<Rightarrow> nm1 | Some i \<Rightarrow> AList.update ''items'' (VObj (normalized i)) nm1) in
        Inr (set_normalized nm2 (set_children props items s1))))))"
  by auto

lemma size_entry: "kv \<in> set kvs \<Longrightarrow> f (snd kv) < Suc (size_list (size_prod (\<lambda>x. 0) f) kvs)"
  by (induction kvs) auto

lemma schema_child_size [termination_simp]:
  "kc \<in> set (Properties s) \<Longrightarrow> size (snd kc) < size s"
  using size_entry [of kc "Properties s" size] by (cases s) auto

lemma schema_items_size [termination_simp]: "Items s = Some i \<Longrightarrow> size i < size s"
  by (cases s) auto

lemma schema_additional_size [termination_simp]: "Additional s = Some i \<Longrightarrow> size i < size s"
  by (cases s) auto

termination resolveFileLimits
  by (relation "measure (\<lambda>(mx, s). size s)") (auto simp: termination_simp)

declare resolveFileLimits.simps [simp del]

section \<open>Numbers\<close>

text \<open>The \<^verbatim>\<open>float64\<close> nearest to an integer, ties to the even mantissa of 53 bits.\<close>

fun bit_length :: "nat \<Rightarrow> nat" where
  "bit_length n = (if n = 0 then 0 else Suc (bit_length (n div 2)))"

declare bit_length.simps [simp del]

definition float_of_int :: "int \<Rightarrow> float64" where
  "float_of_int n =
     (let a = nat \<bar>n\<bar>; k = bit_length a - 53 in
      if k = 0 then Fin n 0
      else
        (let q = a div 2 ^ k; r = a mod 2 ^ k;
             q' = (if r > 2 ^ (k - 1) \<or> r = 2 ^ (k - 1) \<and> odd q then q + 1 else q) in
         Fin (sgn n * int q') (int k)))"

definition fin_integral :: "int \<Rightarrow> int \<Rightarrow> bool" where
  "fin_integral m e \<longleftrightarrow> 0 \<le> e \<or> m mod 2 ^ nat (- e) = 0"

definition fin_trunc :: "int \<Rightarrow> int \<Rightarrow> int" where
  "fin_trunc m e = (if 0 \<le> e then m * 2 ^ nat e else m div 2 ^ nat (- e))"

definition exactInteger :: "val \<Rightarrow> int option" where
  "exactInteger v =
     (case v of
        VInt n \<Rightarrow> Some n
      | VGoInt n \<Rightarrow> Some n
      | VNumber s \<Rightarrow> JSONNumberInt64 s
      | VFloat f \<Rightarrow>
          (case f of
             Fin m e \<Rightarrow> if \<not> fin_integral m e \<or> \<bar>fin_trunc m e\<bar> > 2 ^ 53 then None else Some (fin_trunc m e)
           | Neg_zero \<Rightarrow> Some 0
           | _ \<Rightarrow> None)
      | _ \<Rightarrow> None)"

definition finiteNumber :: "stdlib \<Rightarrow> val \<Rightarrow> float64 option" where
  "finiteNumber L v =
     (case v of
        VInt n \<Rightarrow> Some (float_of_int n)
      | VGoInt n \<Rightarrow> Some (float_of_int n)
      | VFloat f \<Rightarrow> if is_finite f then Some f else None
      | VNumber s \<Rightarrow>
          (case parse_float (floats L) s of
             None \<Rightarrow> None | Some f \<Rightarrow> if is_finite f then Some f else None)
      | _ \<Rightarrow> None)"

text \<open>
  \<^verbatim>\<open>big.Rat\<close> comparison: the sign of the difference. \<open>None\<close> is the panic on a value that is no finite
  number.
\<close>

definition numberRat :: "val \<Rightarrow> (int \<times> int) option" where
  "numberRat v =
     (case v of
        VInt n \<Rightarrow> Some (n, 0)
      | VFloat (Fin m e) \<Rightarrow> Some (m, e)
      | VFloat Neg_zero \<Rightarrow> Some (0, 0)
      | _ \<Rightarrow> None)"

definition compareNumbers :: "val \<Rightarrow> val \<Rightarrow> int option" where
  "compareNumbers a b =
     (case (numberRat a, numberRat b) of
        (Some (m, e), Some (n, f)) \<Rightarrow>
          (let g = min e f in Some (sgn (m * 2 ^ nat (e - g) - n * 2 ^ nat (f - g))))
      | _ \<Rightarrow> None)"

section \<open>Formats\<close>

definition digits_value :: "string \<Rightarrow> nat" where
  "digits_value s = foldl (\<lambda>n c. 10 * n + (byte c - 48)) 0 s"

definition days_in :: "nat \<Rightarrow> nat \<Rightarrow> nat" where
  "days_in month year =
     (if month = 2 then (if year mod 4 = 0 \<and> (year mod 100 \<noteq> 0 \<or> year mod 400 = 0) then 29 else 28)
      else if month \<in> {4, 6, 9, 11} then 30 else 31)"

text \<open>\<^verbatim>\<open>time.Parse\<close> with the layout of a plain date.\<close>

definition parse_date :: "string \<Rightarrow> bool" where
  "parse_date s \<longleftrightarrow> length s = 10 \<and> s ! 4 = CHR ''-'' \<and> s ! 7 = CHR ''-''
     \<and> list_all is_digit (take 4 s @ take 2 (drop 5 s) @ drop 8 s)
     \<and> (let year = digits_value (take 4 s); month = digits_value (take 2 (drop 5 s)); day = digits_value (drop 8 s) in
        1 \<le> month \<and> month \<le> 12 \<and> 1 \<le> day \<and> day \<le> days_in month year)"

definition is_uuid :: "string \<Rightarrow> bool" where
  "is_uuid s \<longleftrightarrow> length s = 36
     \<and> list_all (\<lambda>i. if i \<in> {8, 13, 18, 23} then s ! i = CHR ''-''
                     else if i = 14 then s ! i \<in> set ''12345''
                     else if i = 19 then s ! i \<in> set ''89abAB''
                     else is_hex (s ! i)) [0..<36]"

definition valueformat_Validate :: "stdlib \<Rightarrow> string \<Rightarrow> string \<Rightarrow> unit result" where
  "valueformat_Validate L format value =
     (if format = [] then Inr ()
      else if format = ''email'' then (if mail_ParseAddress L value then Inr () else Inl ''must be email'')
      else if format = ''uuid'' then (if is_uuid value then Inr () else Inl ''must be uuid'')
      else if format = ''date'' then (if parse_date value then Inr () else Inl ''must be date'')
      else if format = ''date-time'' then (if time_RFC3339 L value then Inr () else Inl ''must be date-time'')
      else if format = ''uri'' then
        (case url_Parse L value of
           None \<Rightarrow> Inl ''must be uri''
         | Some u \<Rightarrow> if url_Scheme u = [] then Inl ''must include URI scheme'' else Inr ())
      else Inl ''unsupported format'')"

section \<open>Validation\<close>

fun escapePointer :: "string \<Rightarrow> string" where
  "escapePointer [] = []"
| "escapePointer (c # s) =
     (if c = CHR ''~'' then ''~0'' else if c = CHR ''/'' then ''~1'' else [c]) @ escapePointer s"

fun cloneValue :: "val \<Rightarrow> val" where
  "cloneValue (VObj kvs) = VObj (map (\<lambda>kv. (fst kv, cloneValue (snd kv))) kvs)"
| "cloneValue (VArr vs) = VArr (map cloneValue vs)"
| "cloneValue v = v"

definition failAt :: "string \<Rightarrow> string \<Rightarrow> 'a result" where
  "failAt pointer reason = Inl (safe pointer @ '': '' @ reason)"

definition int_constraint :: "schema \<Rightarrow> string \<Rightarrow> int option" where
  "int_constraint s k = (case map_of (Constraints s) k of Some (VInt n) \<Rightarrow> Some n | _ \<Rightarrow> None)"

definition validateEnumConst :: "stdlib \<Rightarrow> schema \<Rightarrow> val \<Rightarrow> unit result" where
  "validateEnumConst L s v =
     (if (case map_of (Constraints s) ''enum'' of
            Some (VArr a) \<Rightarrow> \<not> list_ex (\<lambda>candidate. equalJSON (floats L) v candidate) a | _ \<Rightarrow> False)
      then Inl ''not in enum''
      else if (case map_of (Constraints s) ''const'' of Some c \<Rightarrow> \<not> equalJSON (floats L) v c | None \<Rightarrow> False)
      then Inl ''does not equal const''
      else Inr ())"

definition type_matches :: "schema \<Rightarrow> string \<Rightarrow> bool" where
  "type_matches s typ \<longleftrightarrow> Types s = [] \<or> contains (Types s) typ \<or> typ = ''integer'' \<and> contains (Types s) ''number''"

text \<open>The number branch: the type and the value a number is given.\<close>

definition validate_number :: "stdlib \<Rightarrow> schema \<Rightarrow> string \<Rightarrow> val \<Rightarrow> (string \<times> val) result" where
  "validate_number L s pointer v =
     (case (if contains (Types s) ''integer'' then exactInteger v else None) of
        Some n \<Rightarrow> Inr (''integer'', VInt n)
      | None \<Rightarrow>
          if contains (Types s) ''integer'' \<and> \<not> contains (Types s) ''number'' then failAt pointer ''must be int64 integer''
          else
            (case finiteNumber L v of
               None \<Rightarrow> failAt pointer ''must be finite number''
             | Some f \<Rightarrow>
                 if Types s = [] then
                   (case v of
                      VInt n \<Rightarrow> Inr (''number'', VInt n)
                    | VGoInt n \<Rightarrow> Inr (''number'', VInt n)
                    | VNumber raw \<Rightarrow>
                        if has_point_or_exponent raw then Inr (''number'', VFloat f)
                        else (case number_int64 raw of
                            None \<Rightarrow> failAt pointer ''integer exceeds int64'' | Some i \<Rightarrow> Inr (''number'', VInt i))
                    | _ \<Rightarrow> Inr (''number'', VFloat f))
                 else if is_output s then
                   (case v of
                      VInt n \<Rightarrow> Inr (''number'', VInt n)
                    | VGoInt n \<Rightarrow> Inr (''number'', VInt n)
                    | _ \<Rightarrow> Inr (''number'', VFloat f))
                 else Inr (''number'', VFloat f)))"

definition validate_string :: "stdlib \<Rightarrow> schema \<Rightarrow> string \<Rightarrow> string \<Rightarrow> unit result" where
  "validate_string L s pointer x =
     (if \<not> utf8_valid x then failAt pointer ''must be valid UTF-8''
      else if (case int_constraint s ''minLength'' of Some lo \<Rightarrow> int (length (runes x)) < lo | None \<Rightarrow> False)
      then failAt pointer ''below minLength''
      else if (case int_constraint s ''maxLength'' of Some hi \<Rightarrow> int (length (runes x)) > hi | None \<Rightarrow> False)
      then failAt pointer ''above maxLength''
      else if (case SPattern s of Some p \<Rightarrow> \<not> MatchString L p x | None \<Rightarrow> False)
      then failAt pointer ''does not match pattern''
      else case map_of (Constraints s) ''format'' of
        Some (VStr f) \<Rightarrow> (case valueformat_Validate L f x of Inl e \<Rightarrow> failAt pointer e | Inr _ \<Rightarrow> Inr ())
      | _ \<Rightarrow> Inr ())"

definition outside :: "string \<Rightarrow> int \<Rightarrow> bool" where
  "outside k cmp \<longleftrightarrow> k = ''minimum'' \<and> cmp < 0 \<or> k = ''maximum'' \<and> cmp > 0
     \<or> k = ''exclusiveMinimum'' \<and> cmp \<le> 0 \<or> k = ''exclusiveMaximum'' \<and> cmp \<ge> 0"

definition bound_keys :: "string list" where
  "bound_keys = [''minimum'', ''maximum'', ''exclusiveMinimum'', ''exclusiveMaximum'']"

definition validate_bounds :: "schema \<Rightarrow> string \<Rightarrow> val \<Rightarrow> unit result" where
  "validate_bounds s pointer v =
     each (\<lambda>k _.
       case map_of (Constraints s) k of
         None \<Rightarrow> Inr ()
       | Some bound \<Rightarrow>
           (case compareNumbers v bound of
              None \<Rightarrow> Inl ''panic: number without a rational value''
            | Some cmp \<Rightarrow> if outside k cmp then failAt pointer ''outside numeric bounds'' else Inr ())) bound_keys ()"

text \<open>The checks after the type switch: numeric bounds, then enumeration and constant.\<close>

definition validate_rest :: "stdlib \<Rightarrow> schema \<Rightarrow> string \<Rightarrow> string \<Rightarrow> val \<Rightarrow> file_leaf list \<Rightarrow> (val \<times> file_leaf list) result" where
  "validate_rest L s pointer typ v leaves =
     andThen (if typ = ''integer'' \<or> typ = ''number'' then validate_bounds s pointer v else Inr ()) (\<lambda>_.
       case validateEnumConst L s v of Inl e \<Rightarrow> failAt pointer e | Inr _ \<Rightarrow> Inr (v, leaves))"

definition validate_file :: "schema \<Rightarrow> file_constraints \<Rightarrow> int option \<Rightarrow> string \<Rightarrow> val \<Rightarrow> (val \<times> file_leaf list) result" where
  "validate_file s fc fileLimit pointer v =
     (case v of
        VFile f \<Rightarrow>
          if file_ID f = [] \<or> file_RequestID f = [] then failAt pointer ''file ownership is missing''
          else if file_Pointer f \<noteq> pointer then failAt pointer ''file input position does not match''
          else
            (let effective =
               (case fileLimit of
                  Some l \<Rightarrow>
                    if l > 0 then fc\<lparr>fc_MaxBytes := (if fc_MaxBytes fc = 0 then l else min (fc_MaxBytes fc) l)\<rparr> else fc
                | None \<Rightarrow> fc) in
             case FileConstraints_Validate effective f of
               Inl e \<Rightarrow> failAt pointer e
             | Inr _ \<Rightarrow>
                 Inr (VFile f, [\<lparr>leaf_Pointer = pointer, leaf_Value = f,
                   leaf_Schema = set_normalized (AList.update ''max_bytes'' (VInt (fc_MaxBytes effective)) (normalized s)) (set_File effective s)\<rparr>]))
      | _ \<Rightarrow> failAt pointer ''must be a receiver-owned file'')"

definition validate_null :: "stdlib \<Rightarrow> schema \<Rightarrow> string \<Rightarrow> (val \<times> file_leaf list) result" where
  "validate_null L s pointer =
     (if Nullable s then Inr (VNull, [])
      else if is_output s then failAt pointer ''null is not allowed''
      else if Types s \<noteq> [] \<and> \<not> contains (Types s) ''null'' then failAt pointer ''null is not allowed''
      else case validateEnumConst L s VNull of Inl e \<Rightarrow> failAt pointer e | Inr _ \<Rightarrow> Inr (VNull, []))"

definition unknown_property :: "schema \<Rightarrow> (string \<times> val) list \<Rightarrow> bool" where
  "unknown_property s kvs \<longleftrightarrow>
     list_ex (\<lambda>kv. map_of (Properties s) (fst kv) = None) kvs
     \<and> Types s \<noteq> [] \<and> contains (Types s) ''object'' \<and> \<not> AdditionalAllowed s"

definition child_pointer :: "string \<Rightarrow> string \<Rightarrow> string" where
  "child_pointer pointer k = pointer @ ''/'' @ escapePointer k"

definition item_pointer :: "string \<Rightarrow> nat \<Rightarrow> string" where
  "item_pointer pointer i = pointer @ ''/'' @ nat_digits i"

text \<open>The value a declared property is validated with: the one given, or its default.\<close>

definition property_value :: "bool \<Rightarrow> schema \<Rightarrow> (string \<times> val) list \<Rightarrow> string \<Rightarrow> val option" where
  "property_value defaults child kvs k =
     (case map_of kvs k of
        Some w \<Rightarrow> Some w
      | None \<Rightarrow> if defaults \<and> DefaultSet child then Some (cloneValue (Default child)) else None)"

definition extra_entries :: "schema \<Rightarrow> (string \<times> val) list \<Rightarrow> (string \<times> val) list" where
  "extra_entries s kvs = sort_key fst (filter (\<lambda>kv. map_of (Properties s) (fst kv) = None) kvs)"

definition child_or_any :: "schema option \<Rightarrow> schema" where
  "child_or_any c = (case c of None \<Rightarrow> any_schema | Some s \<Rightarrow> s)"

definition items_within :: "schema \<Rightarrow> string \<Rightarrow> nat \<Rightarrow> unit result" where
  "items_within s pointer n =
     (if (case int_constraint s ''minItems'' of Some lo \<Rightarrow> int n < lo | None \<Rightarrow> False) then failAt pointer ''below minItems''
      else if (case int_constraint s ''maxItems'' of Some hi \<Rightarrow> int n > hi | None \<Rightarrow> False) then failAt pointer ''above maxItems''
      else Inr ())"

function validate :: "stdlib \<Rightarrow> int option \<Rightarrow> bool \<Rightarrow> schema \<Rightarrow> val \<Rightarrow> string \<Rightarrow> (val \<times> file_leaf list) result" where
  "validate L fileLimit defaults s v pointer =
     (if v = VNull then validate_null L s pointer
      else case SFile s of
        Some fc \<Rightarrow> validate_file s fc fileLimit pointer v
      | None \<Rightarrow>
          (case v of
             VStr x \<Rightarrow>
               if \<not> type_matches s ''string'' then failAt pointer ''type does not match schema''
               else andThen (validate_string L s pointer x) (\<lambda>_. validate_rest L s pointer ''string'' v [])
           | VBool b \<Rightarrow>
               if \<not> type_matches s ''boolean'' then failAt pointer ''type does not match schema''
               else validate_rest L s pointer ''boolean'' v []
           | VObj kvs \<Rightarrow>
               if \<not> type_matches s ''object'' then failAt pointer ''type does not match schema''
               else if \<not> list_all (\<lambda>kv. utf8_valid (fst kv)) kvs then failAt pointer ''invalid UTF-8 key''
               else if unknown_property s kvs then failAt pointer ''unknown property''
               else
                 andThen (each (\<lambda>k (o', leaves).
                     case map_of (Properties s) k of
                       None \<Rightarrow> Inl ''panic: undeclared property in order''
                     | Some child \<Rightarrow>
                         (case property_value defaults child kvs k of
                            None \<Rightarrow>
                              if contains (Required s) k then failAt pointer ''required property missing'' else Inr (o', leaves)
                          | Some w \<Rightarrow>
                              andThen (validate L fileLimit defaults child w (child_pointer pointer k)) (\<lambda>(nv, lv).
                                Inr (AList.update k nv o', leaves @ lv))))
                   (PropertyOrder s) ([], []))
                 (\<lambda>st.
                 andThen (each (\<lambda>kv (o', leaves).
                     andThen (validate L fileLimit defaults (child_or_any (Additional s)) (snd kv) (child_pointer pointer (fst kv))) (\<lambda>(nv, lv).
                       Inr (AList.update (fst kv) nv o', leaves @ lv)))
                   (extra_entries s kvs) st)
                 (\<lambda>(o', leaves). validate_rest L s pointer ''object'' (VObj o') leaves))
           | VArr vs \<Rightarrow>
               if \<not> type_matches s ''array'' then failAt pointer ''type does not match schema''
               else andThen (items_within s pointer (length vs)) (\<lambda>_.
                 andThen (each (\<lambda>iw (a, leaves).
                     andThen (validate L fileLimit defaults (child_or_any (Items s)) (snd iw) (item_pointer pointer (fst iw))) (\<lambda>(nv, lv).
                       Inr (a @ [nv], leaves @ lv)))
                   (enumerate 0 vs) ([], []))
                 (\<lambda>(a, leaves). validate_rest L s pointer ''array'' (VArr a) leaves))
           | VFile f \<Rightarrow> failAt pointer ''unsupported JSON value''
           | VStrs ss \<Rightarrow> failAt pointer ''unsupported JSON value''
           | _ \<Rightarrow>
               andThen (validate_number L s pointer v) (\<lambda>(typ, n).
                 if \<not> type_matches s typ then failAt pointer ''type does not match schema''
                 else validate_rest L s pointer typ n [])))"
  by auto

lemma size_option_pos: "Suc 0 \<le> size_option f x"
  by (cases x) auto

lemma any_schema_size: "size any_schema \<le> size (s :: schema)"
proof (cases s)
  case (Schema ts props po ps items aa addl req d ds nl cs f pt psrc nm out)
  then show ?thesis
    using size_option_pos [of size items] size_option_pos [of size addl] by (simp add: any_schema_def)
qed

lemma child_or_any_size:
  "size (child_or_any (Items s)) \<le> size s" "size (child_or_any (Additional s)) \<le> size s"
  using any_schema_size [of s] schema_items_size [of s] schema_additional_size [of s]
  by (auto simp: child_or_any_def less_imp_le split: option.splits)

lemma property_child_size: "map_of (Properties s) k = Some c \<Longrightarrow> size c < size s"
  using schema_child_size [of "(k, c)" s] by (auto dest: map_of_SomeD)

lemma extra_entries_subset: "kv \<in> set (extra_entries s kvs) \<Longrightarrow> kv \<in> set kvs"
  by (simp add: extra_entries_def)

lemma val_items_size: "w \<in> set vs \<Longrightarrow> size w < size (VArr vs)"
  by (induction vs) auto

lemma val_entry_size: "kv \<in> set kvs \<Longrightarrow> size (snd kv) < size (VObj kvs)"
  using size_entry [of kv kvs size] by simp

lemma enumerate_value_size: "(i, w :: val) \<in> set (enumerate n vs) \<Longrightarrow> size w < Suc (size_list size vs)"
  using val_items_size [of w vs] by (auto simp: enumerate_eq_zip dest: set_zip_rightD)

termination validate
proof (relation "measures [\<lambda>(L, fl, d, s, v, p). size s, \<lambda>(L, fl, d, s, v, p). size v]", goal_cases)
  case (2 L fileLimit defaults s v pointer kvs k st o' leaves child w)
  then show ?case by (simp add: property_child_size)
next
  case (3 L fileLimit defaults s v pointer kvs st kv)
  then show ?case
    using child_or_any_size(2) [of s] val_entry_size [of kv kvs] by (auto dest!: extra_entries_subset)
next
  case (4 L fileLimit defaults s v pointer vs u iw)
  then show ?case
    using child_or_any_size(1) [of s] enumerate_value_size [of "fst iw" "snd iw" 0 vs] by auto
qed simp

declare validate.simps [simp del]

end
