(* ===== verification/Schema_Compile.thy ===== *)
theory Schema_Compile
  imports Schema
begin

text \<open>
  Compilation of a schema definition (\<^verbatim>\<open>src/internal/contract/schema.go\<close>, \<^verbatim>\<open>compileFile\<close> of \<^verbatim>\<open>input.go\<close> and
  \<^verbatim>\<open>ByteSize\<close> of \<^verbatim>\<open>config.go\<close>). \<open>compileSchema\<close> is split at the points where the source starts a new group
  of fields; the groups run in the source's order.
\<close>

section \<open>Capacities\<close>

definition unit_factor :: "string \<Rightarrow> int option" where
  "unit_factor u =
     (if u = [] \<or> u = ''B'' then Some 1
      else if u = ''KiB'' \<or> u = ''KB'' then Some (2 ^ 10)
      else if u = ''MiB'' \<or> u = ''MB'' then Some (2 ^ 20)
      else if u = ''GiB'' \<or> u = ''GB'' then Some (2 ^ 30) else None)"

definition ByteSize :: "raw \<Rightarrow> int result" where
  "ByteSize v =
     (case v of
        RInt n \<Rightarrow> if n > 0 then Inr n else Inl ''byte capacity must be positive''
      | RStr s \<Rightarrow>
          (let digits = takeWhile is_digit s; suffix = dropWhile is_digit s; n = int (digits_value digits) in
           case (if digits = [] then None else unit_factor suffix) of
             None \<Rightarrow> Inl ''invalid byte capacity''
           | Some mul \<Rightarrow>
               if n > max_int64 \<or> n \<le> 0 then Inl ''byte capacity must be positive int64''
               else if n > max_int64 div mul then Inl ''byte capacity overflows int64''
               else Inr (wrap64 (n * mul)))
      | _ \<Rightarrow> Inl ''byte capacity must be integer or unit string'')"

section \<open>Files\<close>

definition extension_ok :: "string \<Rightarrow> bool" where
  "extension_ok s \<longleftrightarrow> s \<noteq> [] \<and> length s \<le> 32
     \<and> (\<lambda>c. is_digit c \<or> 65 \<le> byte c \<and> byte c \<le> 90 \<or> 97 \<le> byte c \<and> byte c \<le> 122) (hd s)
     \<and> list_all (\<lambda>c. is_digit c \<or> 65 \<le> byte c \<and> byte c \<le> 90 \<or> 97 \<le> byte c \<and> byte c \<le> 122 \<or> c = CHR ''_'' \<or> c = CHR ''-'') (tl s)"

definition compile_extensions :: "raw_map \<Rightarrow> string list result" where
  "compile_extensions m =
     (if \<not> has m ''extensions'' then Inr []
      else andThen (list_of (get m ''extensions'') ''extensions'') (\<lambda>a.
        andThen (each (\<lambda>v out.
            case str v ''extensions'' of
              Inl _ \<Rightarrow> Inl ''invalid file extension''
            | Inr s \<Rightarrow>
                if \<not> extension_ok s then Inl ''invalid file extension''
                else Inr (if map lower_char s \<in> set out then out else out @ [map lower_char s])) a [])
          (\<lambda>out. Inr (sort out))))"

definition compileFile :: "raw_map \<Rightarrow> file_constraints result" where
  "compileFile m =
     andThen (compile_extensions m) (\<lambda>exts.
     andThen (if \<not> has m ''mime_types'' then Inr []
              else andThen (stringsList (get m ''mime_types'') ''mime_types'' True) (\<lambda>a.
                if list_all validMIME a then Inr (sort a) else Inl ''invalid lowercase MIME type'')) (\<lambda>mimes.
     andThen (if \<not> has m ''max_bytes'' then Inr 0 else ByteSize (get m ''max_bytes'')) (\<lambda>mx.
     andThen (boolDefault m ''allow_empty'' True) (\<lambda>allow.
       Inr \<lparr>fc_Extensions = exts, fc_MIMETypes = mimes, fc_MaxBytes = mx, fc_AllowEmpty = allow\<rparr>))))"

section \<open>Schemas\<close>

definition schemaKeys :: string where
  "schemaKeys = ''type description properties items required additionalProperties enum const minimum maximum exclusiveMinimum exclusiveMaximum minLength maxLength pattern format minItems maxItems''"

definition allowed_keys :: "raw_map \<Rightarrow> bool \<Rightarrow> string" where
  "allowed_keys m input =
     (if get m ''type'' = RStr ''file'' then ''type description extensions max_bytes mime_types allow_empty''
      else schemaKeys @ (if input then '' default'' else '' nullable''))"

definition compile_description :: "raw_map \<Rightarrow> (string \<times> val) list result" where
  "compile_description m =
     (if \<not> has m ''description'' then Inr []
      else andThen (str (get m ''description'') ''description'') (\<lambda>v. Inr [(''description'', VStr v)]))"

definition schema_types :: "string list" where
  "schema_types = [''string'', ''integer'', ''number'', ''boolean'', ''object'', ''array'', ''null'', ''file'']"

definition compile_types :: "raw_map \<Rightarrow> string list result" where
  "compile_types m =
     andThen
       (if \<not> has m ''type'' then Inr []
        else case get m ''type'' of
          RStr v \<Rightarrow> Inr [v]
        | RList l \<Rightarrow>
            (case stringsList (RList l) ''type'' True of
               Inl _ \<Rightarrow> Inl ''type must be a nonempty type union''
             | Inr t \<Rightarrow> if t = [] then Inl ''type must be a nonempty type union'' else Inr t)
        | _ \<Rightarrow> Inl ''type must be a string or union'')
     (\<lambda>ts. if list_all (contains schema_types) ts then Inr ts else Inl ''unsupported schema type'')"

definition compile_file_schema :: "raw_map \<Rightarrow> bool \<Rightarrow> bool \<Rightarrow> string list \<Rightarrow> (string \<times> val) list \<Rightarrow> schema result" where
  "compile_file_schema m input root types nm =
     (if \<not> input \<or> length types \<noteq> 1 \<or> root then Inl ''file is an input leaf type only''
      else andThen (compileFile m) (\<lambda>f.
        Inr (Schema types [] [] False None False None [] VNull False (\<not> input) [] (Some f) None []
          (nm @ [(''type'', VStr ''file''), (''extensions'', VStrs (fc_Extensions f)), (''mime_types'', VStrs (fc_MIMETypes f)),
                 (''allow_empty'', VBool (fc_AllowEmpty f))]
              @ (if fc_MaxBytes f > 0 then [(''max_bytes'', VInt (fc_MaxBytes f))] else []))
          (\<not> input))))"

text \<open>The types after the root rule and the inference from \<^verbatim>\<open>properties\<close> and \<^verbatim>\<open>items\<close>.\<close>

definition compile_structure :: "raw_map \<Rightarrow> bool \<Rightarrow> string list \<Rightarrow> string list result" where
  "compile_structure m root types =
     (if root \<and> has m ''type'' \<and> (length types \<noteq> 1 \<or> hd types \<noteq> ''object'') then Inl ''input root must be object''
      else if root \<and> has m ''items'' then Inl ''input root cannot be array''
      else if has m ''properties'' \<and> has m ''items'' then Inl ''properties and items are exclusive''
      else
        (let ts = (if root then [''object''] else types);
             inferred = (if has m ''items'' then ''array'' else if has m ''properties'' then ''object'' else []) in
         if inferred = [] then Inr ts
         else if ts = [] then Inr [inferred]
         else if \<not> contains ts inferred \<or> length ts > 2 \<or> length ts = 2 \<and> \<not> contains ts ''null''
         then Inl ''structural type contradicts explicit type''
         else Inr ts))"

definition compile_nullable :: "raw_map \<Rightarrow> bool \<Rightarrow> string list \<Rightarrow> (bool \<times> string list \<times> (string \<times> val) list) result" where
  "compile_nullable m input types =
     (if input then Inr (False, types, [])
      else andThen (boolDefault m ''nullable'' True) (\<lambda>v.
        if \<not> v \<and> contains types ''null'' then Inl ''nullable false contradicts null type''
        else Inr (v, if contains types ''null'' \<and> length types > 1 then without types ''null'' else types, [(''nullable'', VBool v)])))"

definition type_entry :: "string list \<Rightarrow> (string \<times> val) list" where
  "type_entry types =
     (case types of [] \<Rightarrow> [] | [t] \<Rightarrow> [(''type'', VStr t)] | _ \<Rightarrow> [(''type'', VStrs types)])"

definition compile_required :: "raw_map \<Rightarrow> (string \<times> schema) list \<Rightarrow> string list result" where
  "compile_required m props =
     (if \<not> has m ''required'' then Inr []
      else andThen (stringsList (get m ''required'') ''required'' True) (\<lambda>r.
        if list_all (\<lambda>k. map_of props k \<noteq> None) r then Inr (sort r)
        else Inl ''required must name a declared property''))"

definition compile_bounds :: "raw_map \<Rightarrow> string list \<Rightarrow> (string \<times> val) list result" where
  "compile_bounds m types =
     each (\<lambda>k cs.
       if \<not> has m k then Inr cs
       else if \<not> contains types ''number'' \<and> \<not> contains types ''integer'' then Inl ''numeric constraints require a numeric type''
       else case get m k of
         RInt n \<Rightarrow> Inr (cs @ [(k, VInt n)])
       | RFloat f \<Rightarrow> Inr (cs @ [(k, VFloat f)])
       | _ \<Rightarrow> Inl ''numeric bound must be finite number'') bound_keys []"

definition compile_lengths :: "raw_map \<Rightarrow> string list \<Rightarrow> (string \<times> val) list result" where
  "compile_lengths m types =
     each (\<lambda>(k, t) cs.
       if \<not> has m k then Inr cs
       else if \<not> contains types t then Inl (k @ '' requires '' @ t @ '' type'')
       else andThen (intDefault m k 0 0) (\<lambda>v. Inr (cs @ [(k, VInt v)])))
     [(''minLength'', ''string''), (''maxLength'', ''string''), (''minItems'', ''array''), (''maxItems'', ''array'')] []"

definition pair_ordered :: "(string \<times> val) list \<Rightarrow> string \<Rightarrow> string \<Rightarrow> bool" where
  "pair_ordered cs lo hi =
     (case (map_of cs lo, map_of cs hi) of (Some (VInt a), Some (VInt b)) \<Rightarrow> a \<le> b | _ \<Rightarrow> True)"

definition bounds_intersect :: "(string \<times> val) list \<Rightarrow> bool" where
  "bounds_intersect cs =
     list_all (\<lambda>(lo, hi).
       case (map_of cs lo, map_of cs hi) of
         (Some a, Some b) \<Rightarrow>
           (case compareNumbers a b of
              None \<Rightarrow> False
            | Some cmp \<Rightarrow> \<not> (cmp > 0 \<or> cmp = 0 \<and> (lo = ''exclusiveMinimum'' \<or> hi = ''exclusiveMaximum'')))
       | _ \<Rightarrow> True)
     [(''minimum'', ''maximum''), (''minimum'', ''exclusiveMaximum''), (''exclusiveMinimum'', ''maximum''), (''exclusiveMinimum'', ''exclusiveMaximum'')]"

definition compile_pattern :: "stdlib \<Rightarrow> raw_map \<Rightarrow> string list \<Rightarrow> (pattern option \<times> string \<times> (string \<times> val) list) result" where
  "compile_pattern L m types =
     (if \<not> has m ''pattern'' then Inr (None, [], [])
      else if \<not> contains types ''string'' then Inl ''pattern requires string type''
      else andThen (str (get m ''pattern'') ''pattern'') (\<lambda>v.
        andThen (CompilePattern L v) (\<lambda>p. Inr (Some p, v, [(''pattern'', node_normalized (AST p))]))))"

definition compile_format :: "raw_map \<Rightarrow> string list \<Rightarrow> (string \<times> val) list result" where
  "compile_format m types =
     (if \<not> has m ''format'' then Inr []
      else if \<not> contains types ''string'' then Inl ''format requires string type''
      else andThen (str (get m ''format'') ''format'') (\<lambda>v.
        if contains [[], ''email'', ''uuid'', ''date'', ''date-time'', ''uri''] v then Inr [(''format'', VStr v)]
        else Inl ''unsupported format''))"

text \<open>The constraints that need no value: bounds, lengths, pattern and format.\<close>

definition compile_constraints :: "stdlib \<Rightarrow> raw_map \<Rightarrow> string list
    \<Rightarrow> ((string \<times> val) list \<times> pattern option \<times> string \<times> (string \<times> val) list) result" where
  "compile_constraints L m types =
     andThen (compile_bounds m types) (\<lambda>bs.
     andThen (compile_lengths m types) (\<lambda>ls.
       if \<not> pair_ordered ls ''minLength'' ''maxLength'' \<or> \<not> pair_ordered ls ''minItems'' ''maxItems''
       then Inl ''minimum exceeds maximum''
       else if \<not> bounds_intersect bs then Inl ''numeric bounds have no intersection''
       else
         andThen (compile_pattern L m types) (\<lambda>(p, src, pn).
         andThen (compile_format m types) (\<lambda>fs.
           Inr (bs @ ls @ fs, p, src, bs @ ls @ pn @ fs)))))"

definition add_constraint :: "string \<Rightarrow> val \<Rightarrow> schema \<Rightarrow> schema" where
  "add_constraint k v s = set_normalized (normalized s @ [(k, v)]) (set_Constraints (Constraints s @ [(k, v)]) s)"

definition canonical_key :: "stdlib \<Rightarrow> val \<Rightarrow> string" where
  "canonical_key L v = (case CanonicalJSON (floats L) v of None \<Rightarrow> [] | Some b \<Rightarrow> b)"

definition compile_enum :: "stdlib \<Rightarrow> raw_map \<Rightarrow> schema \<Rightarrow> schema result" where
  "compile_enum L m s =
     (if \<not> has m ''enum'' then Inr s
      else
        (case list_of (get m ''enum'') ''enum'' of
           Inl _ \<Rightarrow> Inl ''enum must be a nonempty list''
         | Inr [] \<Rightarrow> Inl ''enum must be a nonempty list''
         | Inr a \<Rightarrow>
             andThen (each (\<lambda>r (vs, seen).
                 andThen (wrap ''enum does not satisfy schema: '' (validate L None False s (plain r) [])) (\<lambda>(n, _).
                   case CanonicalJSON (floats L) n of
                     None \<Rightarrow> Inl ''unsupported canonical value''
                   | Some b \<Rightarrow> if b \<in> set seen then Inl ''enum values must be unique'' else Inr (vs @ [n], b # seen)))
               a ([], []))
             (\<lambda>(vs, _). Inr (add_constraint ''enum'' (VArr (sort_key (canonical_key L) vs)) s))))"

definition compile_const :: "stdlib \<Rightarrow> raw_map \<Rightarrow> schema \<Rightarrow> schema result" where
  "compile_const L m s =
     (if \<not> has m ''const'' then Inr s
      else andThen (validate L None False s (plain (get m ''const'')) []) (\<lambda>(n, _). Inr (add_constraint ''const'' n s)))"

definition compile_default :: "stdlib \<Rightarrow> raw_map \<Rightarrow> bool \<Rightarrow> schema \<Rightarrow> schema result" where
  "compile_default L m input s =
     (if \<not> input \<or> \<not> has m ''default'' then Inr s
      else if HasFiles s then Inl ''default cannot synthesize request-owned files''
      else andThen (wrap ''default does not satisfy schema: '' (validate L None True s (plain (get m ''default'')) [])) (\<lambda>(n, _).
        Inr (set_normalized (normalized s @ [(''default'', n)]) (set_Default n s))))"

definition compile_values :: "stdlib \<Rightarrow> raw_map \<Rightarrow> bool \<Rightarrow> schema \<Rightarrow> schema result" where
  "compile_values L m input s =
     (if Types s = [] \<and> (has m ''enum'' \<or> has m ''const'') then Inl ''constraints without structure require an explicit type''
      else andThen (compile_enum L m s) (\<lambda>s1. andThen (compile_const L m s1) (compile_default L m input)))"

text \<open>The children of a node; \<open>rec\<close> compiles one level deeper.\<close>

definition compile_properties :: "(raw_map \<Rightarrow> schema result) \<Rightarrow> raw_map \<Rightarrow> (string \<times> schema) list result" where
  "compile_properties rec m =
     (if \<not> has m ''properties'' then Inr []
      else andThen (Raw_Config.object (get m ''properties'') ''properties'') (\<lambda>p.
        traverse (\<lambda>kv.
          andThen (Raw_Config.object (snd kv) ''property'') (\<lambda>sm.
          andThen (wrap (''property '' @ safe (fst kv) @ '': '') (rec sm)) (\<lambda>child.
            Inr (fst kv, child)))) p))"

definition compile_items :: "(raw_map \<Rightarrow> schema result) \<Rightarrow> raw_map \<Rightarrow> schema option result" where
  "compile_items rec m =
     (if \<not> has m ''items'' then Inr None
      else andThen (Raw_Config.object (get m ''items'') ''items'') (\<lambda>im. andThen (rec im) (\<lambda>child. Inr (Some child))))"

definition compile_additional :: "(raw_map \<Rightarrow> schema result) \<Rightarrow> raw_map \<Rightarrow> bool \<Rightarrow> bool \<Rightarrow> (bool \<times> schema option) result" where
  "compile_additional rec m input passthrough =
     (if \<not> has m ''additionalProperties'' then Inr (\<not> input \<and> (\<not> has m ''properties'' \<or> passthrough), None)
      else case get m ''additionalProperties'' of
        RBool b \<Rightarrow> Inr (b, None)
      | RMap am \<Rightarrow>
          andThen (rec am) (\<lambda>child.
            if input \<and> HasFiles child then Inl ''dynamic additionalProperties cannot contain file''
            else Inr (True, Some child))
      | _ \<Rightarrow> Inl ''additionalProperties must be boolean or schema'')"

definition compile_object :: "(raw_map \<Rightarrow> schema result) \<Rightarrow> raw_map \<Rightarrow> bool \<Rightarrow> bool \<Rightarrow> string list \<Rightarrow> (string \<times> schema) list
    \<Rightarrow> (string list \<times> bool \<times> schema option) result" where
  "compile_object rec m input passthrough types props =
     (if \<not> contains types ''object'' then
        (if has m ''required'' \<or> has m ''additionalProperties'' then Inl ''object constraints require object type''
         else Inr ([], False, None))
      else
        andThen (compile_required m props) (\<lambda>required.
        andThen (compile_additional rec m input passthrough) (\<lambda>(allowed, addl). Inr (required, allowed, addl))))"

definition node_normalization :: "raw_map \<Rightarrow> string list \<Rightarrow> (string \<times> schema) list \<Rightarrow> schema option \<Rightarrow> string list \<Rightarrow> bool
    \<Rightarrow> schema option \<Rightarrow> (string \<times> val) list" where
  "node_normalization m types props items required allowed addl =
     type_entry types
     @ (if has m ''properties'' then [(''properties'', VObj (map (\<lambda>kc. (fst kc, VObj (normalized (snd kc)))) props))] else [])
     @ (case items of None \<Rightarrow> [] | Some i \<Rightarrow> [(''items'', VObj (normalized i))])
     @ (if \<not> contains types ''object'' then []
        else [(''required'', VStrs required),
              (''additionalProperties'', case addl of Some a \<Rightarrow> VObj (normalized a) | None \<Rightarrow> VBool allowed)])"

definition compile_node :: "stdlib \<Rightarrow> (raw_map \<Rightarrow> schema result) \<Rightarrow> raw_map \<Rightarrow> bool \<Rightarrow> bool \<Rightarrow> bool \<Rightarrow> string list \<Rightarrow> (string \<times> val) list
    \<Rightarrow> schema result" where
  "compile_node L rec m input passthrough nullable types nm0 =
     andThen (compile_properties rec m) (\<lambda>props.
     andThen (compile_items rec m) (\<lambda>items.
     andThen (compile_object rec m input passthrough types props) (\<lambda>(required, allowed, addl).
     andThen (compile_constraints L m types) (\<lambda>(cs, p, src, nm2).
       compile_values L m input
         (Schema types props (map fst props) (has m ''properties'') items allowed addl required VNull False nullable cs None p src
           (nm0 @ node_normalization m types props items required allowed addl @ nm2) (\<not> input))))))"

function compileSchema :: "stdlib \<Rightarrow> raw_map \<Rightarrow> bool \<Rightarrow> bool \<Rightarrow> bool \<Rightarrow> nat \<Rightarrow> schema result" where
  "compileSchema L m input root passthrough depth =
     (if depth > 128 then Inl ''schema nesting exceeds limit''
      else
        andThen (known m (allowed_keys m input)) (\<lambda>_.
        andThen (compile_description m) (\<lambda>nm0.
        andThen (compile_types m) (\<lambda>types0.
        if contains types0 ''file'' then compile_file_schema m input root types0 nm0
        else
        andThen (compile_structure m root types0) (\<lambda>types1.
        andThen (compile_nullable m input types1) (\<lambda>(nullable, types2, nm1).
          compile_node L (\<lambda>sm. compileSchema L sm input False passthrough (depth + 1)) m input passthrough nullable (sort types2)
            (nm0 @ nm1)))))))"
  by auto
termination
  by (relation "measure (\<lambda>(L, m, input, root, passthrough, depth). 129 - depth)") auto

declare compileSchema.simps [simp del]

definition CompileSchema :: "stdlib \<Rightarrow> yaml_lib \<Rightarrow> string \<Rightarrow> bool \<Rightarrow> schema result" where
  "CompileSchema L Y data input =
     andThen (decodeYAML (floats L) Y data) (\<lambda>m. compileSchema L m input input False 0)"

end
