(* ===== verification/Validation.thy ===== *)
theory Validation
  imports Schema_Compile
begin

text \<open>
  What validation promises (\<^verbatim>\<open>src/internal/contract/input.go\<close>): a declarative reading of a schema, the
  proof that every value \<open>validate\<close> returns satisfies it, that the collected leaves are exactly the
  files of the result, and the limits \<^verbatim>\<open>ValidateInput\<close> enforces on top.
\<close>

section \<open>A declarative reading of schemas\<close>

definition allowed_value :: "stdlib \<Rightarrow> schema \<Rightarrow> val \<Rightarrow> bool" where
  "allowed_value L s v \<longleftrightarrow>
     (\<forall>a. map_of (Constraints s) ''enum'' = Some (VArr a) \<longrightarrow> (\<exists>candidate \<in> set a. equalJSON (floats L) v candidate))
     \<and> (\<forall>c. map_of (Constraints s) ''const'' = Some c \<longrightarrow> equalJSON (floats L) v c)"

definition between :: "schema \<Rightarrow> string \<Rightarrow> string \<Rightarrow> int \<Rightarrow> bool" where
  "between s lo hi n \<longleftrightarrow> (\<forall>k. int_constraint s lo = Some k \<longrightarrow> k \<le> n) \<and> (\<forall>k. int_constraint s hi = Some k \<longrightarrow> n \<le> k)"

definition good_string :: "stdlib \<Rightarrow> schema \<Rightarrow> string \<Rightarrow> bool" where
  "good_string L s x \<longleftrightarrow> utf8_valid x \<and> between s ''minLength'' ''maxLength'' (int (length (runes x)))
     \<and> (\<forall>p. SPattern s = Some p \<longrightarrow> MatchString L p x)
     \<and> (\<forall>f. map_of (Constraints s) ''format'' = Some (VStr f) \<longrightarrow> valueformat_Validate L f x = Inr ())"

text \<open>A number against a bound, by the sign of the difference.\<close>

definition good_number :: "schema \<Rightarrow> val \<Rightarrow> bool" where
  "good_number s v \<longleftrightarrow>
     (\<forall>b. map_of (Constraints s) ''minimum'' = Some b \<longrightarrow> (\<exists>c. compareNumbers v b = Some c \<and> 0 \<le> c))
     \<and> (\<forall>b. map_of (Constraints s) ''maximum'' = Some b \<longrightarrow> (\<exists>c. compareNumbers v b = Some c \<and> c \<le> 0))
     \<and> (\<forall>b. map_of (Constraints s) ''exclusiveMinimum'' = Some b \<longrightarrow> (\<exists>c. compareNumbers v b = Some c \<and> 0 < c))
     \<and> (\<forall>b. map_of (Constraints s) ''exclusiveMaximum'' = Some b \<longrightarrow> (\<exists>c. compareNumbers v b = Some c \<and> c < 0))"

definition good_file :: "file_constraints \<Rightarrow> int option \<Rightarrow> string \<Rightarrow> file_value \<Rightarrow> bool" where
  "good_file fc fileLimit pointer f \<longleftrightarrow> file_ID f \<noteq> [] \<and> file_RequestID f \<noteq> [] \<and> file_Pointer f = pointer
     \<and> ValidateBasename (file_Name f) \<and> validMIME (file_MIMEType f) \<and> is_digest (file_SHA256 f)
     \<and> 0 \<le> file_SizeBytes f \<and> (file_SizeBytes f = 0 \<longrightarrow> fc_AllowEmpty fc)
     \<and> (fc_MaxBytes fc \<noteq> 0 \<longrightarrow> file_SizeBytes f \<le> fc_MaxBytes fc)
     \<and> (\<forall>l. fileLimit = Some l \<longrightarrow> 0 < l \<longrightarrow> file_SizeBytes f \<le> l)
     \<and> (fc_MIMETypes fc \<noteq> [] \<longrightarrow> file_MIMEType f \<in> set (fc_MIMETypes fc))
     \<and> (fc_Extensions fc \<noteq> [] \<longrightarrow> (\<exists>e. extension_of (file_Name f) = Some e \<and> asciiLower e \<in> set (fc_Extensions fc)))"

definition closed_object :: "schema \<Rightarrow> bool" where
  "closed_object s \<longleftrightarrow> contains (Types s) ''object'' \<and> \<not> AdditionalAllowed s"

lemma enumerate_item_size: "(i, w) \<in> set (enumerate n vs) \<Longrightarrow> size w < size (VArr vs)"
  using enumerate_value_size by fastforce

function conforms :: "stdlib \<Rightarrow> int option \<Rightarrow> bool \<Rightarrow> schema \<Rightarrow> string \<Rightarrow> val \<Rightarrow> bool" where
  "conforms L fl d s pointer v \<longleftrightarrow>
     (case v of
        VNull \<Rightarrow> Nullable s \<or> \<not> is_output s \<and> (Types s = [] \<or> contains (Types s) ''null'') \<and> allowed_value L s VNull
      | VFile f \<Rightarrow> (case SFile s of None \<Rightarrow> False | Some fc \<Rightarrow> good_file fc fl pointer f)
      | VBool b \<Rightarrow> SFile s = None \<and> type_matches s ''boolean'' \<and> allowed_value L s v
      | VStr x \<Rightarrow> SFile s = None \<and> type_matches s ''string'' \<and> good_string L s x \<and> allowed_value L s v
      | VInt n \<Rightarrow> SFile s = None \<and> type_matches s ''integer'' \<and> good_number s v \<and> allowed_value L s v
      | VFloat f \<Rightarrow> SFile s = None \<and> type_matches s ''number'' \<and> is_finite f \<and> good_number s v \<and> allowed_value L s v
      | VObj kvs \<Rightarrow> SFile s = None \<and> type_matches s ''object'' \<and> distinct (map fst kvs) \<and> allowed_value L s v
          \<and> list_all (\<lambda>kv.
              case map_of (Properties s) (fst kv) of
                Some child \<Rightarrow> conforms L fl d child (child_pointer pointer (fst kv)) (snd kv)
              | None \<Rightarrow> \<not> closed_object s \<and> utf8_valid (fst kv)
                  \<and> conforms L fl d (child_or_any (Additional s)) (child_pointer pointer (fst kv)) (snd kv)) kvs
          \<and> list_all (\<lambda>k. contains (Required s) k \<or> d \<and> (\<exists>c. map_of (Properties s) k = Some c \<and> DefaultSet c)
              \<longrightarrow> k \<in> fst ` set kvs) (PropertyOrder s)
      | VArr vs \<Rightarrow> SFile s = None \<and> type_matches s ''array'' \<and> between s ''minItems'' ''maxItems'' (int (length vs))
          \<and> allowed_value L s v
          \<and> list_all (\<lambda>iw. conforms L fl d (child_or_any (Items s)) (item_pointer pointer (fst iw)) (snd iw)) (enumerate 0 vs)
      | _ \<Rightarrow> False)"
  by auto
termination
  by (relation "measure (\<lambda>(L, fl, d, s, p, v). size v)")
    (auto simp del: val.size dest: val_entry_size enumerate_item_size)

declare conforms.simps [simp del]

text \<open>The files of a value in the order of its fields and items, each with its position.\<close>

function files_at :: "string \<Rightarrow> val \<Rightarrow> (string \<times> file_value) list" where
  "files_at pointer v =
     (case v of
        VFile f \<Rightarrow> [(pointer, f)]
      | VObj kvs \<Rightarrow> concat (map (\<lambda>kv. files_at (child_pointer pointer (fst kv)) (snd kv)) kvs)
      | VArr vs \<Rightarrow> concat (map (\<lambda>iw. files_at (item_pointer pointer (fst iw)) (snd iw)) (enumerate 0 vs))
      | _ \<Rightarrow> [])"
  by auto
termination
  by (relation "measure (\<lambda>(p, v). size v)")
    (auto simp del: val.size dest: val_entry_size enumerate_item_size)

declare files_at.simps [simp del]

section \<open>Checks against their reading\<close>

lemma validateEnumConst_Inr: "validateEnumConst L s v = Inr u \<longleftrightarrow> allowed_value L s v"
  by (auto simp: validateEnumConst_def allowed_value_def list_ex_iff split: option.splits val.splits)

lemma validate_string_Inr: "validate_string L s pointer x = Inr u \<longleftrightarrow> good_string L s x"
  by (auto simp: validate_string_def good_string_def between_def failAt_def not_less
      split: option.splits val.splits sum.splits)

lemma items_within_Inr: "items_within s pointer n = Inr u \<longleftrightarrow> between s ''minItems'' ''maxItems'' (int n)"
  by (auto simp: items_within_def between_def failAt_def not_less split: option.splits)

lemma validate_bounds_Inr: "validate_bounds s pointer v = Inr u \<longleftrightarrow> good_number s v"
  by (auto simp: validate_bounds_def bound_keys_def good_number_def outside_def failAt_def andThen_eq_Inr not_less not_le
      split: option.splits if_splits)

lemma validate_rest_Inr:
  "validate_rest L s pointer typ v leaves = Inr (w, l) \<longleftrightarrow>
     w = v \<and> l = leaves \<and> ((typ = ''integer'' \<or> typ = ''number'') \<longrightarrow> good_number s v) \<and> allowed_value L s v"
proof -
  have "validateEnumConst L s v = Inr () \<longleftrightarrow> allowed_value L s v" by (rule validateEnumConst_Inr)
  then show ?thesis
    by (cases "validateEnumConst L s v") (auto simp: validate_rest_def andThen_eq_Inr validate_bounds_Inr failAt_def split: if_splits)
qed


lemma contains_iff [simp]: "contains xs x \<longleftrightarrow> x \<in> set xs"
  by (auto simp: contains_def list_ex_iff)

lemma FileConstraints_Validate_Inr:
  "FileConstraints_Validate fc f = Inr u \<longleftrightarrow> ValidateBasename (file_Name f) \<and> validMIME (file_MIMEType f) \<and> is_digest (file_SHA256 f)
     \<and> 0 \<le> file_SizeBytes f \<and> (file_SizeBytes f = 0 \<longrightarrow> fc_AllowEmpty fc) \<and> 0 < fc_MaxBytes fc \<and> file_SizeBytes f \<le> fc_MaxBytes fc
     \<and> (fc_MIMETypes fc \<noteq> [] \<longrightarrow> file_MIMEType f \<in> set (fc_MIMETypes fc))
     \<and> (fc_Extensions fc \<noteq> [] \<longrightarrow> (\<exists>e. extension_of (file_Name f) = Some e \<and> asciiLower e \<in> set (fc_Extensions fc)))"
  by (cases "extension_of (file_Name f)") (auto simp: FileConstraints_Validate_def not_less not_le)

lemma validate_file_Inr:
  assumes "validate_file s fc fileLimit pointer v = Inr (w, leaves)"
  shows "\<exists>f. v = VFile f \<and> w = VFile f \<and> good_file fc fileLimit pointer f \<and> map (\<lambda>l. (leaf_Pointer l, leaf_Value l)) leaves = [(pointer, f)]"
proof -
  define effective where "effective = (case fileLimit of
      Some l \<Rightarrow> if l > 0 then fc\<lparr>fc_MaxBytes := (if fc_MaxBytes fc = 0 then l else min (fc_MaxBytes fc) l)\<rparr> else fc | None \<Rightarrow> fc)"
  obtain f where f: "v = VFile f" using assms by (cases v) (auto simp: validate_file_def failAt_def)
  with assms have h: "file_ID f \<noteq> []" "file_RequestID f \<noteq> []" "file_Pointer f = pointer" "FileConstraints_Validate effective f = Inr ()"
      "w = VFile f" "map (\<lambda>l. (leaf_Pointer l, leaf_Value l)) leaves = [(pointer, f)]"
    by (auto simp: validate_file_def failAt_def Let_def effective_def [symmetric] split: if_splits sum.splits)
  have "good_file fc fileLimit pointer f"
  proof -
    have "fc_AllowEmpty effective = fc_AllowEmpty fc" "fc_MIMETypes effective = fc_MIMETypes fc" "fc_Extensions effective = fc_Extensions fc"
      "n \<le> fc_MaxBytes effective \<Longrightarrow> (fc_MaxBytes fc \<noteq> 0 \<longrightarrow> n \<le> fc_MaxBytes fc) \<and> (\<forall>l. fileLimit = Some l \<longrightarrow> 0 < l \<longrightarrow> n \<le> l)" for n
      by (auto simp: effective_def split: option.splits if_splits)
    with h(1-4) show ?thesis by (simp add: FileConstraints_Validate_Inr good_file_def)
  qed
  with f h(5,6) show ?thesis by simp
qed

lemma float_of_int_finite: "is_finite (float_of_int n)"
  unfolding float_of_int_def Let_def by (split if_split) simp

lemma finiteNumber_finite: "finiteNumber L v = Some f \<Longrightarrow> is_finite f"
  using float_of_int_finite by (cases v) (auto simp: finiteNumber_def split: if_splits option.splits)

lemma validate_number_kind:
  assumes "validate_number L s pointer v = Inr (typ, w)"
  shows "(\<exists>n. w = VInt n \<and> (typ = ''integer'' \<or> typ = ''number'')) \<or> (\<exists>f. w = VFloat f \<and> is_finite f \<and> typ = ''number'')"
proof (cases "finiteNumber L v")
  case None
  then show ?thesis using assms by (auto simp: validate_number_def failAt_def split: option.splits if_splits)
next
  case (Some f)
  then show ?thesis using assms finiteNumber_finite [OF Some]
    by (cases v) (auto simp: validate_number_def failAt_def split: option.splits if_splits)
qed

lemma validate_number_Inr:
  assumes "validate_number L s pointer v = Inr (typ, w)" "type_matches s typ" "SFile s = None"
    "(typ = ''integer'' \<or> typ = ''number'') \<longrightarrow> good_number s w" "allowed_value L s w"
  shows "conforms L fl d s p w \<and> files_at p w = []"
  using validate_number_kind [OF assms(1)] assms(2-5)
  by (auto simp: conforms.simps [of L fl d s p] files_at.simps [of p] type_matches_def)

section \<open>The loops over properties and items\<close>

definition leaf_key :: "file_leaf \<Rightarrow> string \<times> file_value" where
  "leaf_key l = (leaf_Pointer l, leaf_Value l)"

text \<open>The bodies of the three loops of \<open>validate\<close>, over the validation \<open>V\<close> of a child.\<close>

definition declared_body :: "(schema \<Rightarrow> val \<Rightarrow> string \<Rightarrow> (val \<times> file_leaf list) result) \<Rightarrow> bool \<Rightarrow> schema \<Rightarrow> (string \<times> val) list \<Rightarrow> string
    \<Rightarrow> string \<Rightarrow> (string \<times> val) list \<times> file_leaf list \<Rightarrow> ((string \<times> val) list \<times> file_leaf list) result" where
  "declared_body V defaults s kvs pointer = (\<lambda>k (o', leaves).
     case map_of (Properties s) k of
       None \<Rightarrow> Inl ''panic: undeclared property in order''
     | Some child \<Rightarrow>
         (case property_value defaults child kvs k of
            None \<Rightarrow> if contains (Required s) k then failAt pointer ''required property missing'' else Inr (o', leaves)
          | Some w \<Rightarrow>
              andThen (V child w (child_pointer pointer k)) (\<lambda>(nv, lv). Inr (AList.update k nv o', leaves @ lv))))"

definition extra_body :: "(schema \<Rightarrow> val \<Rightarrow> string \<Rightarrow> (val \<times> file_leaf list) result) \<Rightarrow> schema \<Rightarrow> string
    \<Rightarrow> string \<times> val \<Rightarrow> (string \<times> val) list \<times> file_leaf list \<Rightarrow> ((string \<times> val) list \<times> file_leaf list) result" where
  "extra_body V s pointer = (\<lambda>kv (o', leaves).
     andThen (V (child_or_any (Additional s)) (snd kv) (child_pointer pointer (fst kv))) (\<lambda>(nv, lv).
       Inr (AList.update (fst kv) nv o', leaves @ lv)))"

definition item_body :: "(schema \<Rightarrow> val \<Rightarrow> string \<Rightarrow> (val \<times> file_leaf list) result) \<Rightarrow> schema \<Rightarrow> string
    \<Rightarrow> nat \<times> val \<Rightarrow> val list \<times> file_leaf list \<Rightarrow> (val list \<times> file_leaf list) result" where
  "item_body V s pointer = (\<lambda>iw (a, leaves).
     andThen (V (child_or_any (Items s)) (snd iw) (item_pointer pointer (fst iw))) (\<lambda>(nv, lv). Inr (a @ [nv], leaves @ lv)))"

lemma update_new: "k \<notin> fst ` set o' \<Longrightarrow> AList.update k v o' = o' @ [(k, v)]"
  by (induction o') auto

text \<open>One entry of the result with the leaves it came with.\<close>

definition entry_ok :: "(schema \<Rightarrow> string \<Rightarrow> val \<Rightarrow> bool) \<Rightarrow> schema \<Rightarrow> string \<Rightarrow> string \<times> val \<Rightarrow> bool" where
  "entry_ok Q s pointer kv \<longleftrightarrow>
     (case map_of (Properties s) (fst kv) of
        Some child \<Rightarrow> Q child (child_pointer pointer (fst kv)) (snd kv)
      | None \<Rightarrow> Q (child_or_any (Additional s)) (child_pointer pointer (fst kv)) (snd kv))"

definition entry_files :: "string \<Rightarrow> (string \<times> val) list \<Rightarrow> (string \<times> file_value) list" where
  "entry_files pointer kvs = concat (map (\<lambda>kv. files_at (child_pointer pointer (fst kv)) (snd kv)) kvs)"

definition declared_part :: "(schema \<Rightarrow> string \<Rightarrow> val \<Rightarrow> bool) \<Rightarrow> bool \<Rightarrow> schema \<Rightarrow> string \<Rightarrow> string list
    \<Rightarrow> (string \<times> val) list \<Rightarrow> file_leaf list \<Rightarrow> bool" where
  "declared_part Q d s pointer ks new lnew \<longleftrightarrow> distinct (map fst new) \<and> fst ` set new \<subseteq> set ks
     \<and> (\<forall>kv \<in> set new. map_of (Properties s) (fst kv) \<noteq> None) \<and> list_all (entry_ok Q s pointer) new
     \<and> map leaf_key lnew = entry_files pointer new
     \<and> (\<forall>k \<in> set ks. contains (Required s) k \<or> d \<and> (\<exists>c. map_of (Properties s) k = Some c \<and> DefaultSet c) \<longrightarrow> k \<in> fst ` set new)"

lemma declared_loop:
  assumes "each (declared_body V d s kvs pointer) ks (o', leaves) = Inr (o1, l1)"
    and "distinct ks" "\<forall>k \<in> set ks. k \<notin> fst ` set o'"
    and "\<forall>k \<in> set ks. \<forall>child w nv lv. map_of (Properties s) k = Some child \<longrightarrow> property_value d child kvs k = Some w \<longrightarrow>
      V child w (child_pointer pointer k) = Inr (nv, lv) \<longrightarrow>
      Q child (child_pointer pointer k) nv \<and> map leaf_key lv = files_at (child_pointer pointer k) nv"
  shows "\<exists>new lnew. o1 = o' @ new \<and> l1 = leaves @ lnew \<and> declared_part Q d s pointer ks new lnew"
  using assms
proof (induction ks arbitrary: o' leaves)
  case Nil
  then show ?case by (simp add: declared_part_def entry_files_def)
next
  case (Cons k ks)
  obtain child where child: "map_of (Properties s) k = Some child"
    using Cons.prems(1) by (auto simp: declared_body_def split: option.splits)
  show ?case
  proof (cases "property_value d child kvs k")
    case None
    with Cons.prems(1) child have skip: "\<not> contains (Required s) k" "each (declared_body V d s kvs pointer) ks (o', leaves) = Inr (o1, l1)"
      by (auto simp: declared_body_def failAt_def split: if_splits)
    have "\<not> (d \<and> DefaultSet child)" using None by (auto simp: property_value_def split: option.splits if_splits)
    then have "declared_part Q d s pointer ks new lnew \<Longrightarrow> declared_part Q d s pointer (k # ks) new lnew" for new lnew
      using skip(1) child by (auto simp: declared_part_def)
    moreover obtain new lnew where "o1 = o' @ new" "l1 = leaves @ lnew" "declared_part Q d s pointer ks new lnew"
      using Cons.IH [OF skip(2)] Cons.prems(2-4) by auto
    ultimately show ?thesis by blast
  next
    case (Some w)
    obtain nv lv where nv: "V child w (child_pointer pointer k) = Inr (nv, lv)"
      "each (declared_body V d s kvs pointer) ks (o' @ [(k, nv)], leaves @ lv) = Inr (o1, l1)"
      using Cons.prems(1,3) child Some by (auto simp: declared_body_def andThen_eq_Inr update_new)
    have "distinct ks" "\<forall>k' \<in> set ks. k' \<notin> fst ` set (o' @ [(k, nv)])" using Cons.prems(2,3) by auto
    from Cons.IH [OF nv(2) this] Cons.prems(4) obtain new lnew where new: "o1 = (o' @ [(k, nv)]) @ new" "l1 = (leaves @ lv) @ lnew"
      "declared_part Q d s pointer ks new lnew" by auto
    have "o1 = o' @ (k, nv) # new" "l1 = leaves @ (lv @ lnew)" using new(1,2) by simp_all
    moreover have "declared_part Q d s pointer (k # ks) ((k, nv) # new) (lv @ lnew)"
      using Cons.prems(4) Some nv(1) child new(3) Cons.prems(2) by (auto simp: declared_part_def entry_ok_def entry_files_def)
    ultimately show ?thesis by blast
  qed
qed

lemma extra_loop:
  assumes "each (extra_body V s pointer) es (o', leaves) = Inr (o1, l1)"
    and "distinct (map fst es)" "\<forall>kv \<in> set es. fst kv \<notin> fst ` set o'" "\<forall>kv \<in> set es. map_of (Properties s) (fst kv) = None"
    and "\<forall>kv \<in> set es. \<forall>nv lv. V (child_or_any (Additional s)) (snd kv) (child_pointer pointer (fst kv)) = Inr (nv, lv) \<longrightarrow>
      Q (child_or_any (Additional s)) (child_pointer pointer (fst kv)) nv \<and> map leaf_key lv = files_at (child_pointer pointer (fst kv)) nv"
  shows "\<exists>new lnew. o1 = o' @ new \<and> l1 = leaves @ lnew \<and> map fst new = map fst es \<and> list_all (entry_ok Q s pointer) new
     \<and> map leaf_key lnew = entry_files pointer new"
  using assms
proof (induction es arbitrary: o' leaves)
  case Nil
  then show ?case by (simp add: entry_files_def)
next
  case (Cons kv es)
  obtain nv lv where nv: "V (child_or_any (Additional s)) (snd kv) (child_pointer pointer (fst kv)) = Inr (nv, lv)"
    "each (extra_body V s pointer) es (o' @ [(fst kv, nv)], leaves @ lv) = Inr (o1, l1)"
    using Cons.prems(1,3) by (auto simp: extra_body_def andThen_eq_Inr update_new)
  have fresh: "distinct (map fst es)" "\<forall>e \<in> set es. fst e \<notin> fst ` set (o' @ [(fst kv, nv)])"
    "\<forall>e \<in> set es. map_of (Properties s) (fst e) = None"
    using Cons.prems(2-4) by (auto simp: image_iff)
  obtain new lnew where new: "o1 = (o' @ [(fst kv, nv)]) @ new" "l1 = (leaves @ lv) @ lnew" "map fst new = map fst es"
    "list_all (entry_ok Q s pointer) new" "map leaf_key lnew = entry_files pointer new"
    using Cons.IH [OF nv(2) fresh] Cons.prems(5) by auto
  have "Q (child_or_any (Additional s)) (child_pointer pointer (fst kv)) nv \<and> map leaf_key lv = files_at (child_pointer pointer (fst kv)) nv"
    using Cons.prems(5) nv(1) by simp
  then have "list_all (entry_ok Q s pointer) ((fst kv, nv) # new)" "map leaf_key (lv @ lnew) = entry_files pointer ((fst kv, nv) # new)"
    using Cons.prems(4) new(4,5) by (simp_all add: entry_ok_def entry_files_def)
  then show ?case using new by (intro exI [of _ "(fst kv, nv) # new"] exI [of _ "lv @ lnew"]) simp
qed

definition item_files :: "string \<Rightarrow> (nat \<times> val) list \<Rightarrow> (string \<times> file_value) list" where
  "item_files pointer iws = concat (map (\<lambda>iw. files_at (item_pointer pointer (fst iw)) (snd iw)) iws)"

lemma item_loop:
  assumes "each (item_body V s pointer) (enumerate i vs) (a, leaves) = Inr (a1, l1)"
    and "\<forall>w \<in> set vs. \<forall>j nv lv. V (child_or_any (Items s)) w (item_pointer pointer j) = Inr (nv, lv) \<longrightarrow>
      Q (child_or_any (Items s)) (item_pointer pointer j) nv \<and> map leaf_key lv = files_at (item_pointer pointer j) nv"
  shows "\<exists>new lnew. a1 = a @ new \<and> l1 = leaves @ lnew \<and> length new = length vs
     \<and> list_all (\<lambda>iw. Q (child_or_any (Items s)) (item_pointer pointer (fst iw)) (snd iw)) (enumerate i new)
     \<and> map leaf_key lnew = item_files pointer (enumerate i new)"
  using assms
proof (induction vs arbitrary: i a leaves)
  case Nil
  then show ?case by (simp add: item_files_def)
next
  case (Cons v vs)
  obtain nv lv where nv: "V (child_or_any (Items s)) v (item_pointer pointer i) = Inr (nv, lv)"
    "each (item_body V s pointer) (enumerate (Suc i) vs) (a @ [nv], leaves @ lv) = Inr (a1, l1)"
    using Cons.prems(1) by (auto simp: item_body_def andThen_eq_Inr)
  obtain new lnew where new: "a1 = (a @ [nv]) @ new" "l1 = (leaves @ lv) @ lnew" "length new = length vs"
    "list_all (\<lambda>iw. Q (child_or_any (Items s)) (item_pointer pointer (fst iw)) (snd iw)) (enumerate (Suc i) new)"
    "map leaf_key lnew = item_files pointer (enumerate (Suc i) new)"
    using Cons.IH [OF nv(2)] Cons.prems(2) by auto
  have "Q (child_or_any (Items s)) (item_pointer pointer i) nv \<and> map leaf_key lv = files_at (item_pointer pointer i) nv"
    using Cons.prems(2) nv(1) by simp
  then show ?case using new by (intro exI [of _ "nv # new"] exI [of _ "lv @ lnew"]) (simp add: item_files_def)
qed


section \<open>Validation is sound\<close>

fun wf_val :: "val \<Rightarrow> bool" where
  "wf_val (VObj kvs) \<longleftrightarrow> distinct (map fst kvs) \<and> list_all (\<lambda>kv. wf_val (snd kv)) kvs"
| "wf_val (VArr vs) \<longleftrightarrow> list_all wf_val vs"
| "wf_val v \<longleftrightarrow> True"

text \<open>Properties are declared once and defaults are JSON values; \<open>compileSchema\<close> sees to both.\<close>

fun wf_schema :: "schema \<Rightarrow> bool" where
  "wf_schema (Schema ts props po ps items aa addl req d ds nl cs f pt psrc nm out) =
     (po = map fst props \<and> distinct po \<and> set req \<subseteq> set po \<and> wf_val d
      \<and> (case items of None \<Rightarrow> True | Some i \<Rightarrow> wf_schema i)
      \<and> (case addl of None \<Rightarrow> True | Some a \<Rightarrow> wf_schema a)
      \<and> list_all (\<lambda>kc. wf_schema (snd kc)) props)"

lemma wf_schema_parts:
  assumes "wf_schema s"
  shows "distinct (PropertyOrder s)" "wf_val (Default s)" "wf_schema (child_or_any (Items s))" "wf_schema (child_or_any (Additional s))"
    "map_of (Properties s) k = Some c \<Longrightarrow> wf_schema c"
  using assms
  by (cases s; force simp: child_or_any_def any_schema_def list_all_iff split: option.splits dest!: map_of_SomeD)+

lemma cloneValue_id [simp]: "cloneValue v = v"
  by (induction v rule: cloneValue.induct) (auto simp: list_eq_iff_nth_eq intro!: map_idI)


lemma validate_object_Inr:
  assumes "validate L fl d s (VObj kvs) pointer = Inr (w, l)" "SFile s = None"
  obtains o1 l1 o2 where "type_matches s ''object''" "list_all (\<lambda>kv. utf8_valid (fst kv)) kvs" "\<not> unknown_property s kvs"
    "each (declared_body (validate L fl d) d s kvs pointer) (PropertyOrder s) ([], []) = Inr (o1, l1)"
    "each (extra_body (validate L fl d) s pointer) (extra_entries s kvs) (o1, l1) = Inr (o2, l)"
    "w = VObj o2" "allowed_value L s w"
  using assms unfolding validate.simps [of L fl d s "VObj kvs"] declared_body_def [symmetric] extra_body_def [symmetric]
  by (auto simp: andThen_eq_Inr validate_rest_Inr failAt_def split: if_splits)

lemma validate_array_Inr:
  assumes "validate L fl d s (VArr vs) pointer = Inr (w, l)" "SFile s = None"
  obtains a where "type_matches s ''array''" "between s ''minItems'' ''maxItems'' (int (length vs))"
    "each (item_body (validate L fl d) s pointer) (enumerate 0 vs) ([], []) = Inr (a, l)" "w = VArr a" "allowed_value L s w"
  using assms unfolding validate.simps [of L fl d s "VArr vs"] item_body_def [symmetric]
  by (auto simp: andThen_eq_Inr validate_rest_Inr failAt_def items_within_Inr split: if_splits)

lemma extra_entries_wf:
  assumes "distinct (map fst kvs)"
  shows "distinct (map fst (extra_entries s kvs))"
    and "kv \<in> set (extra_entries s kvs) \<longleftrightarrow> kv \<in> set kvs \<and> map_of (Properties s) (fst kv) = None"
proof -
  have "distinct (map fst (filter (\<lambda>kv. map_of (Properties s) (fst kv) = None) kvs))"
    using assms by (simp add: distinct_map_filter)
  then show "distinct (map fst (extra_entries s kvs))"
    unfolding extra_entries_def by (metis distinct_map distinct_sort set_sort)
  show "kv \<in> set (extra_entries s kvs) \<longleftrightarrow> kv \<in> set kvs \<and> map_of (Properties s) (fst kv) = None"
    by (auto simp: extra_entries_def)
qed

text \<open>An object put together by the two loops.\<close>

lemma object_conforms:
  assumes dec: "declared_part (conforms L fl d) d s pointer (PropertyOrder s) o1 l1"
    and ext: "map fst new = map fst es" "list_all (entry_ok (conforms L fl d) s pointer) new" "map leaf_key lnew = entry_files pointer new"
    and es: "distinct (map fst es)" "\<forall>kv \<in> set es. map_of (Properties s) (fst kv) = None \<and> \<not> closed_object s \<and> utf8_valid (fst kv)"
    and top: "SFile s = None" "type_matches s ''object''" "allowed_value L s (VObj (o1 @ new))"
  shows "conforms L fl d s pointer (VObj (o1 @ new)) \<and> map leaf_key (l1 @ lnew) = files_at pointer (VObj (o1 @ new))"
proof -
  have keys: "fst ` set new = fst ` set es" using ext(1) by (metis list.set_map)
  have new: "map_of (Properties s) (fst kv) = None \<and> \<not> closed_object s \<and> utf8_valid (fst kv)" if "kv \<in> set new" for kv
    using es(2) keys that by (metis imageE imageI)
  have old: "map_of (Properties s) (fst kv) \<noteq> None" if "kv \<in> set o1" for kv
    using dec that by (auto simp: declared_part_def)
  have "k \<in> dom (map_of (Properties s))" if "k \<in> fst ` set o1" for k using old that by auto
  moreover have "k \<notin> dom (map_of (Properties s))" if "k \<in> fst ` set new" for k using new that by auto
  ultimately have "fst ` set o1 \<inter> fst ` set new = {}" by blast
  then have "distinct (map fst (o1 @ new))" using dec ext(1) es(1) keys by (simp add: declared_part_def)
  moreover have "case map_of (Properties s) (fst kv) of
        Some child \<Rightarrow> conforms L fl d child (child_pointer pointer (fst kv)) (snd kv)
      | None \<Rightarrow> \<not> closed_object s \<and> utf8_valid (fst kv)
          \<and> conforms L fl d (child_or_any (Additional s)) (child_pointer pointer (fst kv)) (snd kv)" if "kv \<in> set (o1 @ new)" for kv
  proof -
    have "entry_ok (conforms L fl d) s pointer kv" using that dec ext(2) by (auto simp: declared_part_def list_all_iff)
    then show ?thesis using that old [of kv] new [of kv] by (auto simp: entry_ok_def split: option.splits)
  qed
  moreover have "list_all (\<lambda>k. contains (Required s) k \<or> d \<and> (\<exists>c. map_of (Properties s) k = Some c \<and> DefaultSet c)
      \<longrightarrow> k \<in> fst ` set (o1 @ new)) (PropertyOrder s)"
    using dec by (auto simp: declared_part_def list_all_iff)
  ultimately have "conforms L fl d s pointer (VObj (o1 @ new))"
    using top by (subst conforms.simps) (simp only: val.case list_all_iff, blast)
  moreover have "map leaf_key (l1 @ lnew) = files_at pointer (VObj (o1 @ new))"
    using dec ext(3) by (simp add: declared_part_def files_at.simps [of _ "VObj (o1 @ new)"] entry_files_def)
  ultimately show ?thesis by simp
qed

lemma property_value_wf:
  assumes "wf_val (VObj kvs)" "wf_schema child" "property_value d child kvs k = Some w"
  shows "wf_val w"
  using assms wf_schema_parts(2) [OF assms(2)]
  by (auto simp: property_value_def list_all_iff split: option.splits if_splits dest!: map_of_SomeD)

lemma validate_null_sound:
  "validate_null L s pointer = Inr (w, l) \<Longrightarrow> conforms L fl d s pointer w \<and> map leaf_key l = files_at pointer w"
  by (auto simp: validate_null_def failAt_def conforms.simps [of _ _ _ _ _ VNull] files_at.simps [of _ VNull]
      validateEnumConst_Inr split: if_splits sum.splits)

definition sound_at :: "stdlib \<Rightarrow> int option \<Rightarrow> bool \<Rightarrow> schema \<Rightarrow> val \<Rightarrow> string \<Rightarrow> bool" where
  "sound_at L fl d s v pointer \<longleftrightarrow> (\<forall>w l. validate L fl d s v pointer = Inr (w, l) \<longrightarrow>
     conforms L fl d s pointer w \<and> map leaf_key l = files_at pointer w)"

lemma object_sound:
  assumes "SFile s = None" "wf_schema s" "wf_val (VObj kvs)"
    and decl: "\<forall>k \<in> set (PropertyOrder s). \<forall>child x. map_of (Properties s) k = Some child \<longrightarrow> property_value d child kvs k = Some x \<longrightarrow>
      sound_at L fl d child x (child_pointer pointer k)"
    and ext: "\<forall>kv \<in> set (extra_entries s kvs). sound_at L fl d (child_or_any (Additional s)) (snd kv) (child_pointer pointer (fst kv))"
  shows "sound_at L fl d s (VObj kvs) pointer"
proof (unfold sound_at_def, intro allI impI)
  fix w leaves assume run: "validate L fl d s (VObj kvs) pointer = Inr (w, leaves)"
  obtain o1 l1 o2 where h: "type_matches s ''object''" "list_all (\<lambda>kv. utf8_valid (fst kv)) kvs" "\<not> unknown_property s kvs"
    "each (declared_body (validate L fl d) d s kvs pointer) (PropertyOrder s) ([], []) = Inr (o1, l1)"
    "each (extra_body (validate L fl d) s pointer) (extra_entries s kvs) (o1, l1) = Inr (o2, leaves)"
    "w = VObj o2" "allowed_value L s w"
    by (rule validate_object_Inr [OF run assms(1)])
  have dec: "declared_part (conforms L fl d) d s pointer (PropertyOrder s) o1 l1"
    using declared_loop [OF h(4) wf_schema_parts(1) [OF assms(2)], of "conforms L fl d"] decl by (simp add: sound_at_def)
  define es where "es = extra_entries s kvs"
  have distinct: "distinct (map fst kvs)" using assms(3) by simp
  have es: "distinct (map fst es)" "\<forall>kv \<in> set es. kv \<in> set kvs \<and> map_of (Properties s) (fst kv) = None"
    using extra_entries_wf [OF distinct] by (auto simp: es_def)
  have "k \<in> dom (map_of (Properties s))" if "k \<in> fst ` set o1" for k using dec that by (auto simp: declared_part_def)
  then have fresh: "\<forall>kv \<in> set es. fst kv \<notin> fst ` set o1" using es(2) by blast
  obtain new lnew where new: "o2 = o1 @ new" "leaves = l1 @ lnew" "map fst new = map fst es"
    "list_all (entry_ok (conforms L fl d) s pointer) new" "map leaf_key lnew = entry_files pointer new"
    using extra_loop [OF h(5) [folded es_def] es(1) fresh, of "conforms L fl d"] ext es(2) by (auto simp: sound_at_def es_def)
  have "\<forall>kv \<in> set es. map_of (Properties s) (fst kv) = None \<and> \<not> closed_object s \<and> utf8_valid (fst kv)"
  proof
    fix kv assume "kv \<in> set es"
    then have kv: "kv \<in> set kvs" "map_of (Properties s) (fst kv) = None" using es(2) by auto
    then have "list_ex (\<lambda>kv. map_of (Properties s) (fst kv) = None) kvs" by (auto simp: list_ex_iff)
    with kv h(2,3) show "map_of (Properties s) (fst kv) = None \<and> \<not> closed_object s \<and> utf8_valid (fst kv)"
      by (auto simp: unknown_property_def closed_object_def list_all_iff)
  qed
  from object_conforms [OF dec new(3-5) es(1) this assms(1) h(1)]
  show "conforms L fl d s pointer w \<and> map leaf_key leaves = files_at pointer w" using h(6,7) new(1,2) by simp
qed

lemma array_sound:
  assumes "SFile s = None" and items: "\<forall>w \<in> set vs. \<forall>j. sound_at L fl d (child_or_any (Items s)) w (item_pointer pointer j)"
  shows "sound_at L fl d s (VArr vs) pointer"
proof (unfold sound_at_def, intro allI impI)
  fix w leaves assume run: "validate L fl d s (VArr vs) pointer = Inr (w, leaves)"
  obtain a where h: "type_matches s ''array''" "between s ''minItems'' ''maxItems'' (int (length vs))"
    "each (item_body (validate L fl d) s pointer) (enumerate 0 vs) ([], []) = Inr (a, leaves)" "w = VArr a" "allowed_value L s w"
    by (rule validate_array_Inr [OF run assms(1)])
  have "length a = length vs \<and> list_all (\<lambda>iw. conforms L fl d (child_or_any (Items s)) (item_pointer pointer (fst iw)) (snd iw)) (enumerate 0 a)
      \<and> map leaf_key leaves = item_files pointer (enumerate 0 a)"
    using item_loop [OF h(3), of "conforms L fl d"] items by (simp add: sound_at_def)
  then show "conforms L fl d s pointer w \<and> map leaf_key leaves = files_at pointer w"
    using h assms(1) by (simp add: conforms.simps [of _ _ _ _ _ "VArr _"] files_at.simps [of _ "VArr _"] item_files_def)
qed

lemma scalar_sound:
  assumes "SFile s = None" "v \<noteq> VNull" "\<forall>kvs. v \<noteq> VObj kvs" "\<forall>vs. v \<noteq> VArr vs"
  shows "sound_at L fl d s v pointer"
proof (unfold sound_at_def, intro allI impI)
  fix w leaves assume run: "validate L fl d s v pointer = Inr (w, leaves)"
  show "conforms L fl d s pointer w \<and> map leaf_key leaves = files_at pointer w"
  proof (cases "(\<exists>x. v = VStr x) \<or> (\<exists>b. v = VBool b) \<or> (\<exists>f. v = VFile f) \<or> (\<exists>ss. v = VStrs ss)")
    case True
    then show ?thesis using run assms(1)
      by (auto simp: validate.simps [of L fl d s v] andThen_eq_Inr validate_rest_Inr validate_string_Inr failAt_def
          conforms.simps [of L fl d s pointer] files_at.simps [of pointer] split: if_splits)
  next
    case False
    then have "\<exists>typ n. validate_number L s pointer v = Inr (typ, n) \<and> type_matches s typ \<and> validate_rest L s pointer typ n [] = Inr (w, leaves)"
      using run [unfolded validate.simps [of L fl d s v]] assms
      by (cases v) (auto simp: andThen_eq_Inr failAt_def split: if_splits)
    then obtain ty where "validate_number L s pointer v = Inr (ty, w)" "type_matches s ty" "leaves = []"
      "(ty = ''integer'' \<or> ty = ''number'') \<longrightarrow> good_number s w" "allowed_value L s w" by (auto simp: validate_rest_Inr)
    from validate_number_Inr [OF this(1,2) assms(1) this(4,5)] this(3) show ?thesis by simp
  qed
qed

lemma validate_sound: "wf_schema s \<Longrightarrow> wf_val v \<Longrightarrow> sound_at L fl d s v pointer"
proof (induction "(s, v)" arbitrary: s v pointer rule: wf_induct_rule [OF wf_measures [of "[\<lambda>(s, v). size s, \<lambda>(s, v). size v]"]])
  case (1 s v pointer)
  note wf = wf_schema_parts [OF "1.prems"(1)]
  have IH: "sound_at L fl d s' v' p" if "size s' < size s \<or> size s' \<le> size s \<and> size v' < size v" "wf_schema s'" "wf_val v'" for s' v' p
    using "1.hyps" [of s' v' p] that by (cases "size s' < size s") auto
  consider (nothing) "v = VNull" | (upload) fc where "v \<noteq> VNull" "SFile s = Some fc" | (members) kvs where "SFile s = None" "v = VObj kvs"
    | (elems) vs where "SFile s = None" "v = VArr vs" | (plain) "SFile s = None" "v \<noteq> VNull" "\<forall>kvs. v \<noteq> VObj kvs" "\<forall>vs. v \<noteq> VArr vs"
    by (metis not_None_eq)
  then show ?case
  proof cases
    case nothing
    then show ?thesis using validate_null_sound by (simp add: sound_at_def validate.simps [of L fl d s VNull])
  next
    case upload
    have "validate L fl d s v pointer = validate_file s fc fl pointer v" by (simp add: validate.simps [of L fl d s v] upload)
    then show ?thesis unfolding sound_at_def using validate_file_Inr [of s fc fl pointer v] upload(2)
      by (auto simp: conforms.simps [of _ _ _ _ _ "VFile _"] files_at.simps [of _ "VFile _"] leaf_key_def [abs_def])
  next
    case members
    have "sound_at L fl d child x p" if "map_of (Properties s) k = Some child" "property_value d child kvs k = Some x" for k child x p
      using IH property_child_size [OF that(1)] wf(5) [OF that(1)] property_value_wf [OF _ wf(5) [OF that(1)] that(2)] "1.prems"(2) members(2)
      by simp
    moreover have "sound_at L fl d (child_or_any (Additional s)) (snd kv) p" if "kv \<in> set (extra_entries s kvs)" for kv p
      using IH [of "child_or_any (Additional s)" "snd kv"] child_or_any_size(2) [of s] wf(4) val_entry_size [OF extra_entries_subset [OF that]]
        "1.prems"(2) extra_entries_subset [OF that] members(2) by (auto simp: list_all_iff simp del: val.size)
    ultimately show ?thesis using object_sound [OF members(1) "1.prems"(1)] "1.prems"(2) members(2) by blast
  next
    case elems
    have "sound_at L fl d (child_or_any (Items s)) w p" if "w \<in> set vs" for w p
      using IH [of "child_or_any (Items s)" w] child_or_any_size(1) [of s] wf(3) val_items_size [OF that] "1.prems"(2) that elems(2)
      by (auto simp: list_all_iff simp del: val.size)
    then show ?thesis using array_sound [OF elems(1)] elems(2) by blast
  qed (rule scalar_sound)
qed

section \<open>Validated input\<close>

datatype input_error = Bad_json json_error | Bad_value string

text \<open>The loop over the leaves of \<^verbatim>\<open>ValidateInput\<close> with its test against overflow of the total.\<close>

definition add_leaf :: "limits \<Rightarrow> file_leaf \<Rightarrow> int \<Rightarrow> input_error + int" where
  "add_leaf l f tot =
     (if MaxFileBytes l > 0 \<and> file_SizeBytes (leaf_Value f) > MaxFileBytes l then Inl (Bad_value ''input file byte limit exceeded'')
      else if file_SizeBytes (leaf_Value f) > max_int64 - tot then Inl (Bad_value ''input file bytes overflow'')
      else Inr (wrap64 (tot + file_SizeBytes (leaf_Value f))))"

definition ValidateInput :: "stdlib \<Rightarrow> schema \<Rightarrow> (string \<times> val) list option \<Rightarrow> limits \<Rightarrow> input_error + ((string \<times> val) list \<times> file_leaf list)" where
  "ValidateInput L s input l =
     (let m = (case input of None \<Rightarrow> [] | Some kvs \<Rightarrow> kvs) in
      case checkJSONLimits (floats L) (VObj m) l of
        Some e \<Rightarrow> Inl (Bad_json e)
      | None \<Rightarrow>
          (case validate L (Some (MaxFileBytes l)) True s (VObj m) [] of
             Inl e \<Rightarrow> Inl (Bad_value e)
           | Inr (v, leaves) \<Rightarrow>
               if MaxFiles l > 0 \<and> int (length leaves) > MaxFiles l then Inl (Bad_value ''input file count limit exceeded'')
               else
                 andThen (each (add_leaf l) leaves 0) (\<lambda>tot.
                   if MaxTotalFileBytes l > 0 \<and> tot > MaxTotalFileBytes l then Inl (Bad_value ''input total file byte limit exceeded'')
                   else case checkJSONLimits (floats L) v l of
                     Some e \<Rightarrow> Inl (Bad_json e)
                   | None \<Rightarrow> (case v of VObj kvs \<Rightarrow> Inr (kvs, leaves) | _ \<Rightarrow> Inl (Bad_value ''panic: validated input is no object'')))))"

lemma add_leaves:
  assumes "each (add_leaf l) leaves tot = Inr t" "\<forall>f \<in> set leaves. 0 \<le> file_SizeBytes (leaf_Value f)" "0 \<le> tot" "tot \<le> max_int64"
  shows "t = tot + sum_list (map (\<lambda>f. file_SizeBytes (leaf_Value f)) leaves)"
  using assms
proof (induction leaves arbitrary: tot)
  case (Cons f leaves)
  define n where "n = file_SizeBytes (leaf_Value f)"
  have n: "0 \<le> n" using Cons.prems(2) by (simp add: n_def)
  have step: "n \<le> max_int64 - tot" "each (add_leaf l) leaves (wrap64 (tot + n)) = Inr t"
    using Cons.prems(1) by (auto simp: add_leaf_def [of l f] n_def split: if_splits)
  have "wrap64 (tot + n) = tot + n"
    using step(1) n Cons.prems(3) by (intro wrap64_id) (auto simp: in_int64_def min_int64_def)
  with Cons.IH [of "tot + n"] step n Cons.prems(2,3) show ?case by (simp add: n_def)
qed simp

lemma files_at_nonneg:
  "conforms L fl d s pointer v \<Longrightarrow> (p, f) \<in> set (files_at pointer v) \<Longrightarrow>
   0 \<le> file_SizeBytes f \<and> file_Pointer f = p \<and> (\<forall>l. fl = Some l \<longrightarrow> 0 < l \<longrightarrow> file_SizeBytes f \<le> l)"
proof (induction L fl d s pointer v rule: conforms.induct)
  case (1 L fl d s pointer v)
  show ?case
  proof (cases v)
    case (VFile g)
    then show ?thesis using "1.prems"
      by (auto simp: conforms.simps [of _ _ _ _ _ "VFile _"] files_at.simps [of _ "VFile _"] good_file_def split: option.splits)
  next
    case (VObj kvs)
    then obtain kv where kv: "kv \<in> set kvs" "(p, f) \<in> set (files_at (child_pointer pointer (fst kv)) (snd kv))"
      using "1.prems"(2) by (auto simp: files_at.simps [of _ "VObj _"])
    have "case map_of (Properties s) (fst kv) of
        Some child \<Rightarrow> conforms L fl d child (child_pointer pointer (fst kv)) (snd kv)
      | None \<Rightarrow> conforms L fl d (child_or_any (Additional s)) (child_pointer pointer (fst kv)) (snd kv)"
      using "1.prems"(1) kv(1) VObj by (auto simp: conforms.simps [of _ _ _ _ _ "VObj _"] list_all_iff split: option.splits)
    then show ?thesis
      using "1.IH"(1) [OF VObj kv(1)] "1.IH"(2) [OF VObj kv(1)] kv(2) by (cases "map_of (Properties s) (fst kv)") auto
  next
    case (VArr vs)
    then obtain iw where iw: "iw \<in> set (enumerate 0 vs)" "(p, f) \<in> set (files_at (item_pointer pointer (fst iw)) (snd iw))"
      using "1.prems"(2) by (auto simp: files_at.simps [of _ "VArr _"])
    have "conforms L fl d (child_or_any (Items s)) (item_pointer pointer (fst iw)) (snd iw)"
      using "1.prems"(1) iw(1) VArr by (auto simp: conforms.simps [of _ _ _ _ _ "VArr _"] list_all_iff)
    then show ?thesis using "1.IH"(3) [OF VArr iw(1)] iw(2) by simp
  qed (use "1.prems"(2) in \<open>simp_all add: files_at.simps [of pointer]\<close>)
qed

section \<open>Compiled schemas are well-formed\<close>

lemma wf_schema_set [simp]:
  "wf_schema (set_normalized nm s) = wf_schema s" "wf_schema (set_Constraints cs s) = wf_schema s"
  by (cases s; simp)+

lemma wf_schema_default: "wf_schema s \<Longrightarrow> wf_val v \<Longrightarrow> wf_schema (set_Default v s)"
  by (cases s) simp

lemma wf_add_constraint [simp]: "wf_schema (add_constraint k v s) = wf_schema s"
  by (simp add: add_constraint_def)

lemma conforms_wf: "conforms L fl d s pointer v \<Longrightarrow> wf_val v"
proof (induction L fl d s pointer v rule: conforms.induct)
  case (1 L fl d s pointer v)
  show ?case
  proof (cases v)
    case (VObj kvs)
    have "wf_val (snd kv)" if "kv \<in> set kvs" for kv
      using "1.prems" "1.IH"(1) [OF VObj that] "1.IH"(2) [OF VObj that] that VObj
      by (cases "map_of (Properties s) (fst kv)") (auto simp: conforms.simps [of _ _ _ _ _ "VObj _"] list_all_iff)
    then show ?thesis using "1.prems" VObj by (auto simp: conforms.simps [of _ _ _ _ _ "VObj _"] list_all_iff)
  next
    case (VArr vs)
    have "wf_val w" if w: "w \<in> set vs" for w
    proof -
      obtain i where "i < length vs" "vs ! i = w" using w by (meson in_set_conv_nth)
      then have i: "(i, w) \<in> set (enumerate 0 vs)" by (simp add: in_set_enumerate_eq)
      show ?thesis using "1.prems" "1.IH"(3) [OF VArr i] i VArr by (auto simp: conforms.simps [of _ _ _ _ _ "VArr _"] list_all_iff)
    qed
    then show ?thesis using VArr by (simp add: list_all_iff)
  qed auto
qed

lemma plain_wf: "wf_raw r \<Longrightarrow> wf_val (plain r)"
  by (induction r rule: plain.induct) (auto simp: distinct_keys_def list_all_iff comp_def)

lemma get_wf: "wf_raw (RMap m) \<Longrightarrow> wf_raw (get m k)"
  by (auto simp: get_def list_all_iff split: option.splits dest!: map_of_SomeD)

lemma compile_values_wf:
  assumes "compile_values L m input s = Inr t" "wf_schema s" "wf_raw (RMap m)"
  shows "wf_schema t"
proof -
  obtain s1 s2 where s: "compile_enum L m s = Inr s1" "compile_const L m s1 = Inr s2" "compile_default L m input s2 = Inr t"
    using assms(1) by (auto simp: compile_values_def andThen_eq_Inr split: if_splits)
  have "wf_schema s1"
    using s(1) assms(2) by (auto simp: compile_enum_def andThen_eq_Inr split: if_splits sum.splits list.splits)
  then have s2: "wf_schema s2"
    using s(2) by (auto simp: compile_const_def andThen_eq_Inr split: if_splits)
  show ?thesis
  proof (cases "t = s2")
    case True
    then show ?thesis using s2 by simp
  next
    case False
    then obtain n l where n: "validate L None True s2 (plain (get m ''default'')) [] = Inr (n, l)"
      "t = set_normalized (normalized s2 @ [(''default'', n)]) (set_Default n s2)"
      using s(3) by (auto simp: compile_default_def andThen_eq_Inr split: if_splits)
    have "sound_at L None True s2 (plain (get m ''default'')) []"
      using s2 plain_wf get_wf assms(3) by (intro validate_sound) auto
    then have "conforms L None True s2 [] n" using n(1) by (auto simp: sound_at_def)
    then show ?thesis using n(2) s2 conforms_wf by (simp add: wf_schema_default)
  qed
qed

lemma compile_properties_wf:
  assumes "compile_properties rec m = Inr props" "wf_raw (RMap m)"
    and rec: "\<And>sm child. wf_raw (RMap sm) \<Longrightarrow> rec sm = Inr child \<Longrightarrow> wf_schema child"
  shows "distinct (map fst props) \<and> list_all (\<lambda>kc. wf_schema (snd kc)) props"
proof (cases "has m ''properties''")
  case False
  then show ?thesis using assms(1) by (simp add: compile_properties_def)
next
  case True
  obtain pm where pm: "get m ''properties'' = RMap pm" "traverse (\<lambda>kv.
      andThen (Raw_Config.object (snd kv) ''property'') (\<lambda>sm.
      andThen (wrap (''property '' @ safe (fst kv) @ '': '') (rec sm)) (\<lambda>child. Inr (fst kv, child)))) pm = Inr props"
    using assms(1) True by (auto simp: compile_properties_def andThen_eq_Inr)
  have wf: "wf_raw (RMap pm)" using get_wf [OF assms(2), of "''properties''"] pm(1) by simp
  have entries: "list_all2 (\<lambda>kv kc. fst kc = fst kv \<and> (\<exists>sm. snd kv = RMap sm \<and> rec sm = Inr (snd kc))) pm props"
    using pm(2) unfolding traverse_Inr_iff by (rule list_all2_mono) (auto simp: andThen_eq_Inr)
  then have "map fst props = map fst pm" by (induction rule: list_all2_induct) auto
  moreover have "wf_schema (snd kc)" if kc: "kc \<in> set props" for kc
  proof -
    obtain i where i: "i < length props" "props ! i = kc" using kc by (meson in_set_conv_nth)
    then obtain sm where sm: "snd (pm ! i) = RMap sm" "rec sm = Inr (snd kc)" using list_all2_nthD2 [OF entries i(1)] by auto
    have "pm ! i \<in> set pm" using i(1) list_all2_lengthD [OF entries] by simp
    then have "wf_raw (snd (pm ! i))" using wf by (simp add: list_all_iff)
    then have "wf_raw (RMap sm)" unfolding sm(1) .
    then show ?thesis using rec sm(2) by blast
  qed
  ultimately show ?thesis using wf by (simp add: distinct_keys_def list_all_iff)
qed

lemma compile_required_subset: "compile_required m props = Inr r \<Longrightarrow> set r \<subseteq> fst ` set props"
  by (auto simp: compile_required_def andThen_eq_Inr list_all_iff split: if_splits) (metis map_of_eq_None_iff not_None_eq)

lemma compile_node_wf:
  assumes "compile_node L rec m input passthrough nullable types nm = Inr s" "wf_raw (RMap m)"
    and rec: "\<And>sm child. wf_raw (RMap sm) \<Longrightarrow> rec sm = Inr child \<Longrightarrow> wf_schema child"
  shows "wf_schema s"
proof -
  obtain props items required allowed addl cs p src nm2 where
    props: "compile_properties rec m = Inr props" and items: "compile_items rec m = Inr items"
    and obj: "compile_object rec m input passthrough types props = Inr (required, allowed, addl)"
    and final: "compile_values L m input (Schema types props (map fst props) (has m ''properties'') items allowed addl required
       VNull False nullable cs None p src (nm @ node_normalization m types props items required allowed addl @ nm2) (\<not> input)) = Inr s"
    using assms(1) by (auto simp: compile_node_def andThen_eq_Inr)
  have "case items of None \<Rightarrow> True | Some i \<Rightarrow> wf_schema i"
    using items rec get_wf [OF assms(2), of "''items''"] by (auto simp: compile_items_def andThen_eq_Inr split: if_splits)
  moreover have "case addl of None \<Rightarrow> True | Some i \<Rightarrow> wf_schema i"
    using obj rec get_wf [OF assms(2), of "''additionalProperties''"]
    by (auto simp: compile_object_def compile_additional_def andThen_eq_Inr split: if_splits raw.splits)
  moreover have "set required \<subseteq> fst ` set props" using obj compile_required_subset
    by (fastforce simp: compile_object_def andThen_eq_Inr split: if_splits)
  ultimately show ?thesis
    using compile_properties_wf [OF props assms(2) rec] by (intro compile_values_wf [OF final _ assms(2)]) simp
qed

lemma compileSchema_wf:
  "compileSchema L m input root passthrough depth = Inr s \<Longrightarrow> wf_raw (RMap m) \<Longrightarrow> wf_schema s"
proof (induction "129 - depth" arbitrary: m root depth s rule: less_induct)
  case less
  have "depth \<le> 128" using less.prems(1) by (auto simp: compileSchema.simps [of L m] split: if_splits)
  then have rec: "wf_schema child" if "wf_raw (RMap sm)" "compileSchema L sm input False passthrough (depth + 1) = Inr child" for sm child
    using less.hyps [OF _ that(2,1)] by simp
  from less.prems(1) consider (leaf) ts nm where "compile_file_schema m input root ts nm = Inr s"
    | (node) nullable types nm where "compile_node L (\<lambda>sm. compileSchema L sm input False passthrough (depth + 1)) m input passthrough nullable types nm = Inr s"
    unfolding compileSchema.simps [of L m input root passthrough depth]
    by (auto simp: andThen_eq_Inr split: if_splits prod.splits)
  then show ?case
  proof cases
    case leaf
    then show ?thesis by (auto simp: compile_file_schema_def andThen_eq_Inr split: if_splits)
  next
    case node
    show ?thesis by (rule compile_node_wf [OF node less.prems(2)]) (rule rec)
  qed
qed

text \<open>
  C5: Input that is accepted against a compiled schema satisfies it. Every value of the result conforms to
  its part of the schema: types, bounds, lengths, patterns, formats, enumerations and constants hold,
  required properties and properties with a default are there, and a closed object has no others. The
  leaves are exactly the files of the result with their positions, in order; their number, their sizes
  and the sum of their sizes, computed without overflow, are within the limits, and the result with its
  defaults is within the JSON limits.
\<close>

theorem accepted_input_conforms:
  assumes compiled: "compileSchema L m True True passthrough 0 = Inr s" "wf_raw (RMap m)"
    and input: "wf_val (VObj input)" "ValidateInput L s (Some input) l = Inr (kvs, leaves)"
  shows "conforms L (Some (MaxFileBytes l)) True s [] (VObj kvs)
    \<and> map leaf_key leaves = files_at [] (VObj kvs)
    \<and> (0 < MaxFiles l \<longrightarrow> int (length leaves) \<le> MaxFiles l)
    \<and> (0 < MaxFileBytes l \<longrightarrow> (\<forall>f \<in> set leaves. file_SizeBytes (leaf_Value f) \<le> MaxFileBytes l))
    \<and> (0 < MaxTotalFileBytes l \<longrightarrow> sum_list (map (\<lambda>f. file_SizeBytes (leaf_Value f)) leaves) \<le> MaxTotalFileBytes l)
    \<and> checkJSONLimits (floats L) (VObj kvs) l = None"
proof -
  obtain t where run: "validate L (Some (MaxFileBytes l)) True s (VObj input) [] = Inr (VObj kvs, leaves)"
    and count: "\<not> (MaxFiles l > 0 \<and> int (length leaves) > MaxFiles l)"
    and tot: "each (add_leaf l) leaves 0 = Inr t" "\<not> (MaxTotalFileBytes l > 0 \<and> t > MaxTotalFileBytes l)"
    and json: "checkJSONLimits (floats L) (VObj kvs) l = None"
    using input(2) by (auto simp: ValidateInput_def Let_def andThen_eq_Inr split: option.splits sum.splits if_splits val.splits)
  have sound: "conforms L (Some (MaxFileBytes l)) True s [] (VObj kvs)" "map leaf_key leaves = files_at [] (VObj kvs)"
    using validate_sound [OF compileSchema_wf [OF compiled] input(1)] run by (auto simp: sound_at_def)
  have leaf: "0 \<le> file_SizeBytes (leaf_Value f) \<and> (0 < MaxFileBytes l \<longrightarrow> file_SizeBytes (leaf_Value f) \<le> MaxFileBytes l)"
    if "f \<in> set leaves" for f
  proof -
    have "leaf_key f \<in> set (files_at [] (VObj kvs))" using that sound(2) by (metis image_eqI list.set_map)
    then show ?thesis using files_at_nonneg [OF sound(1)] by (auto simp: leaf_key_def)
  qed
  have "t = sum_list (map (\<lambda>f. file_SizeBytes (leaf_Value f)) leaves)"
    using add_leaves [OF tot(1)] leaf by (simp add: max_int64_def)
  then show ?thesis using sound count tot(2) json leaf by auto
qed

definition sample_raw :: raw_map where
  "sample_raw = [(''properties'', RMap [(''copies'', RMap [(''type'', RStr ''integer''), (''default'', RInt 5)])])]"

definition sample_limits :: limits where
  "sample_limits = \<lparr>MaxBytes = 100, MaxDepth = 5, MaxItems = 20, MaxFileBytes = 10, MaxTotalFileBytes = 10, MaxFiles = 1\<rparr>"

theorem accepted_input_conforms_witness:
  "\<exists>s. compileSchema sample_lib sample_raw True True False 0 = Inr s
   \<and> ValidateInput sample_lib s (Some []) sample_limits = Inr ([(''copies'', VInt 5)], [])
   \<and> conforms sample_lib (Some 10) True s [] (VObj [(''copies'', VInt 5)])"
proof -
  have "case compileSchema sample_lib sample_raw True True False 0 of Inl _ \<Rightarrow> False | Inr s \<Rightarrow>
    ValidateInput sample_lib s (Some []) sample_limits = Inr ([(''copies'', VInt 5)], [])"
    by code_simp
  then obtain s where s: "compileSchema sample_lib sample_raw True True False 0 = Inr s"
    "ValidateInput sample_lib s (Some []) sample_limits = Inr ([(''copies'', VInt 5)], [])"
    by (auto split: sum.splits)
  have "wf_raw (RMap sample_raw)" by code_simp
  from accepted_input_conforms [OF s(1) this _ s(2)] s show ?thesis by (auto simp: sample_limits_def)
qed

end
