(* ===== verification/Binding.thy ===== *)
theory Binding
  imports Schema_Compile
begin

text \<open>
  JSON pointers into schemas and values (\<^verbatim>\<open>src/internal/contract/binding.go\<close> and \<^verbatim>\<open>outputPointer\<close> of
  \<^verbatim>\<open>csv_output.go\<close>): resolution with the guarantee that a position exists, and the rules for bindings.
\<close>

section \<open>Pointers\<close>

fun unescapePointer :: "string \<Rightarrow> string result" where
  "unescapePointer [] = Inr []"
| "unescapePointer (c # s) =
     (if c \<noteq> CHR ''~'' then andThen (unescapePointer s) (\<lambda>t. Inr (c # t))
      else case s of
        [] \<Rightarrow> Inl ''invalid JSON Pointer escape''
      | d # t \<Rightarrow>
          if d \<noteq> CHR ''0'' \<and> d \<noteq> CHR ''1'' then Inl ''invalid JSON Pointer escape''
          else andThen (unescapePointer t) (\<lambda>u. Inr ((if d = CHR ''0'' then CHR ''~'' else CHR ''/'') # u)))"

text \<open>A canonical decimal index.\<close>

definition index_syntax :: "string \<Rightarrow> bool" where
  "index_syntax token \<longleftrightarrow> token \<noteq> [] \<and> \<not> (length token > 1 \<and> hd token = CHR ''0'') \<and> list_all is_digit token"

definition index_value :: "string \<Rightarrow> int" where
  "index_value token = int (digits_value token)"

fun resolve_tokens :: "schema \<Rightarrow> bool \<Rightarrow> string list \<Rightarrow> (schema \<times> bool) result" where
  "resolve_tokens cur guaranteed [] = Inr (cur, guaranteed)"
| "resolve_tokens cur guaranteed (raw # rest) =
     andThen (unescapePointer raw) (\<lambda>token.
       (let g = (guaranteed \<and> \<not> contains (Types cur) ''null'') in
        if contains (Types cur) ''object'' then
          (case map_of (Properties cur) token of
             None \<Rightarrow> Inl ''binding must reference a declared property''
           | Some child \<Rightarrow> resolve_tokens child (g \<and> (contains (Required cur) token \<or> DefaultSet child)) rest)
        else if contains (Types cur) ''array'' then
          (if \<not> index_syntax token then Inl ''invalid binding array index''
           else if index_value token > max_int64 then Inl ''binding index has no declared item schema''
           else case Items cur of
             None \<Rightarrow> Inl ''binding index has no declared item schema''
           | Some items \<Rightarrow>
               resolve_tokens items
                 (g \<and> (case int_constraint cur ''minItems'' of None \<Rightarrow> 0 | Some n \<Rightarrow> n) > index_value token) rest)
        else Inl ''binding traverses a scalar or unconstrained schema''))"

definition ResolvePointer :: "schema \<Rightarrow> string \<Rightarrow> (schema \<times> bool) result" where
  "ResolvePointer s pointer =
     (case pointer of
        [] \<Rightarrow> Inr (s, True)
      | c # t \<Rightarrow>
          if c \<noteq> CHR ''/'' then Inl ''binding must be an RFC6901 JSON Pointer''
          else resolve_tokens s True (Split (CHR ''/'') t))"

definition requirePointer :: "schema \<Rightarrow> raw \<Rightarrow> string \<Rightarrow> bool \<Rightarrow> bool \<Rightarrow> (string \<times> schema) result" where
  "requirePointer input v kind required nonnull =
     andThen (str v ''input binding'') (\<lambda>p.
     andThen (ResolvePointer input p) (\<lambda>(s, g).
       if required \<and> \<not> g then Inl ''binding position must be guaranteed present''
       else if nonnull \<and> contains (Types s) ''null'' then Inl ''binding must not allow null''
       else if kind = ''file'' then
         (if SFile s = None then Inl ''binding must reference one file'' else Inr (p, s))
       else if kind = ''files'' then
         (if SFile s = None \<and> \<not> (contains (Types s) ''array'' \<and> (case Items s of None \<Rightarrow> False | Some i \<Rightarrow> SFile i \<noteq> None))
          then Inl ''binding must reference file or file array''
          else if required \<and> SFile s = None \<and> (case int_constraint s ''minItems'' of None \<Rightarrow> 0 | Some n \<Rightarrow> n) < 1
          then Inl ''required file array must have minItems>=1''
          else Inr (p, s))
       else if kind \<noteq> [] \<and> \<not> contains (Types s) kind then Inl ''binding target type does not match''
       else Inr (p, s)))"

section \<open>Bindings\<close>

definition scalar_types :: "string list" where
  "scalar_types = [''string'', ''integer'', ''number'', ''boolean'']"

function bindingType :: "schema \<Rightarrow> string \<Rightarrow> unit result" where
  "bindingType s mode =
     (if HasFiles s then Inl ''JSON/text binding cannot contain file''
      else if mode = ''json'' then Inr ()
      else
        (let types = without (Types s) ''null'' in
         if types = [] then Inl ''text binding requires a scalar schema''
         else each (\<lambda>t _.
           if t = ''array'' \<and> mode = ''many'' then
             (case Items s of
                None \<Rightarrow> Inl ''array text binding requires typed items''
              | Some items \<Rightarrow>
                  andThen (bindingType items ''scalar'') (\<lambda>_.
                    if contains (Types items) ''null'' then Inl ''text array items must be nonnull'' else Inr ()))
           else if contains scalar_types t then Inr () else Inl ''text binding requires scalar type'') types ()))"
  by auto
termination
  by (relation "measure (\<lambda>(s, mode). size s)") (auto simp: schema_items_size)

declare bindingType.simps [simp del]

definition scalar_value :: "val \<Rightarrow> unit result" where
  "scalar_value v =
     (case v of
        VStr _ \<Rightarrow> Inr () | VBool _ \<Rightarrow> Inr () | VInt _ \<Rightarrow> Inr () | VFloat _ \<Rightarrow> Inr ()
      | _ \<Rightarrow> Inl ''fixed text binding must be nonnull scalar'')"

definition bindingValue :: "val \<Rightarrow> string \<Rightarrow> unit result" where
  "bindingValue v mode =
     (if mode = ''json'' then Inr ()
      else case v of
        VArr a \<Rightarrow> if mode = ''many'' then each (\<lambda>w _. scalar_value w) a () else scalar_value v
      | _ \<Rightarrow> scalar_value v)"

definition binding :: "stdlib \<Rightarrow> schema \<Rightarrow> raw_map \<Rightarrow> string \<Rightarrow> (string \<times> val) list result" where
  "binding L input m mode =
     andThen (known m ''input value'') (\<lambda>_.
       if has m ''input'' = has m ''value'' then Inl ''binding requires exactly one input or value''
       else if has m ''input'' then
         andThen (requirePointer input (get m ''input'') [] False False) (\<lambda>(p, s).
         andThen (bindingType s mode) (\<lambda>_. Inr [(''input'', VStr p)]))
       else
         (let v = plain (get m ''value'') in
          andThen (bindingValue v mode) (\<lambda>_.
            case CanonicalJSON (floats L) v of
              None \<Rightarrow> Inl ''unsupported canonical value'' | Some _ \<Rightarrow> Inr [(''value'', v)])))"

section \<open>Output pointers\<close>

fun resolve_output_tokens :: "schema \<Rightarrow> string list \<Rightarrow> schema result" where
  "resolve_output_tokens cur [] = Inr cur"
| "resolve_output_tokens cur (raw # rest) =
     andThen (unescapePointer raw) (\<lambda>key.
       if Types cur = [] then resolve_output_tokens any_schema rest
       else if contains (Types cur) ''object'' then
         (case map_of (Properties cur) key of
            Some child \<Rightarrow> resolve_output_tokens child rest
          | None \<Rightarrow>
              if \<not> AdditionalAllowed cur then Inl ''CSV from references excluded output property''
              else resolve_output_tokens (child_or_any (Additional cur)) rest)
       else if contains (Types cur) ''array'' then
         (if \<not> index_syntax key \<or> index_value key > max_int64 then Inl ''invalid output array index''
          else resolve_output_tokens (child_or_any (Items cur)) rest)
       else Inl ''CSV from traverses known scalar'')"

definition resolveOutputPointer :: "schema \<Rightarrow> string \<Rightarrow> schema result" where
  "resolveOutputPointer s pointer =
     (case pointer of
        [] \<Rightarrow> Inr s
      | c # t \<Rightarrow>
          if c \<noteq> CHR ''/'' then Inl ''output binding must be RFC6901 Pointer''
          else resolve_output_tokens s (Split (CHR ''/'') t))"

fun output_tokens :: "val \<Rightarrow> string list \<Rightarrow> val result" where
  "output_tokens v [] = Inr v"
| "output_tokens v (raw # rest) =
     andThen (unescapePointer raw) (\<lambda>token.
       case v of
         VObj kvs \<Rightarrow>
           (case map_of kvs token of
              None \<Rightarrow> Inl ''CSV pointer is missing'' | Some w \<Rightarrow> output_tokens w rest)
       | VArr vs \<Rightarrow>
           if \<not> index_syntax token then Inl ''invalid CSV array index''
           else if index_value token > max_int64 \<or> index_value token \<ge> int (length vs) then Inl ''CSV array index is missing''
           else output_tokens (vs ! nat (index_value token)) rest
       | _ \<Rightarrow> Inl ''CSV pointer traverses a scalar'')"

definition outputPointer :: "val \<Rightarrow> string \<Rightarrow> val result" where
  "outputPointer v pointer =
     (case pointer of
        [] \<Rightarrow> Inr v
      | c # t \<Rightarrow>
          if c \<noteq> CHR ''/'' then Inl ''invalid CSV pointer'' else output_tokens v (Split (CHR ''/'') t))"

end
