(* ===== verification/Artifact_Store.thy ===== *)
theory Artifact_Store
  imports Validation Binding
begin

text \<open>
  The private artifact store of the agent (\<^verbatim>\<open>src/internal/agent/artifacts/store.go\<close>, \<^verbatim>\<open>input.go\<close>,
  \<^verbatim>\<open>output.go\<close> and \<^verbatim>\<open>scratch.go\<close>): stages, readers, requests, output scopes and reservations under one
  disk quota. Every exported method runs under the store's mutex and is one step here. Pointers are keys
  into tables of the objects ever allocated; \<open>st_live\<close> marks the stages in the map \<^verbatim>\<open>stages\<close>. What the disk, the
  clock and the contexts answer is an argument of each step.
\<close>

section \<open>State\<close>

record owner =
  RequestID :: string
  CallerBinding :: string
  Capability :: string
  DefinitionHash :: string
  AuthGeneration :: string

definition owner_valid :: "owner \<Rightarrow> bool" where
  "owner_valid o' \<longleftrightarrow>
     list_all (\<lambda>s. s \<noteq> [] \<and> length s \<le> 256 \<and> utf8_valid s \<and> CHR 0x00 \<notin> set s)
       [RequestID o', CallerBinding o', Capability o', DefinitionHash o', AuthGeneration o']"

record stage =
  st_owner :: owner
  st_kind :: string
  st_name :: string
  st_mime :: string
  st_bytes :: string
  st_reserved :: int
  st_file :: bool
  st_sealed :: bool
  st_ready :: bool
  st_retained :: bool
  st_retired :: bool
  st_live :: bool
  st_failed :: bool
  st_request :: "nat option"
  st_scope :: "nat option"
  st_expires :: int

definition st_size :: "stage \<Rightarrow> int" where
  "st_size st = int (length (st_bytes st))"

datatype request_state = Receiving | Ready | Executing | Aborted | Released

record request =
  r_owner :: owner
  r_input :: schema
  r_limits :: limits
  r_deadline :: int
  r_cancelled :: bool
  r_stopped :: bool
  r_state :: request_state
  r_files :: "(string \<times> string) list"
  r_bytes :: int
  r_started :: bool

record output_limits =
  ol_MaxFileBytes :: int
  ol_MaxTotalBytes :: int
  ol_MaxFiles :: int
  ol_TTL :: int

record scope =
  v_owner :: owner
  v_limits :: output_limits
  v_stages :: "string list"
  v_bytes :: int
  v_published :: bool

record reader =
  rd_stage :: string
  rd_pos :: nat
  rd_cancelled :: bool
  rd_closed :: bool

record reservation =
  rs_bytes :: int
  rs_released :: bool

record store =
  QuotaBytes :: int
  MaxPending :: int
  MaxObjects :: int
  TransferTimeout :: int
  used :: int
  n_readers :: int
  s_closed :: bool
  closeErr :: "string option"
  poisoned :: bool
  stage_objs :: "(string, stage) go_map"
  req_objs :: "(nat, request) go_map"
  req_table :: "(string, nat) go_map"
  scope_objs :: "(nat, scope) go_map"
  reader_objs :: "(nat, reader) go_map"
  lease_objs :: "(nat, reservation) go_map"

type_synonym 'a outcome = "store \<times> 'a result"

text \<open>The answers of the file system for a stage: closing its file and removing its object.\<close>

type_synonym disk = "string \<Rightarrow> bool \<times> bool"

text \<open>A context handed in by a caller: absent, live or ended.\<close>

datatype go_ctx = No_ctx | Live_ctx | Done_ctx

definition the_stage :: "store \<Rightarrow> string \<Rightarrow> stage option" where
  "the_stage s i = map_of (stage_objs s) i"

definition set_stage :: "string \<Rightarrow> stage \<Rightarrow> store \<Rightarrow> store" where
  "set_stage i st s = s\<lparr>stage_objs := AList.update i st (stage_objs s)\<rparr>"

definition set_request :: "nat \<Rightarrow> request \<Rightarrow> store \<Rightarrow> store" where
  "set_request k r s = s\<lparr>req_objs := AList.update k r (req_objs s)\<rparr>"

definition open_readers :: "store \<Rightarrow> string \<Rightarrow> nat list" where
  "open_readers s i = map fst (filter (\<lambda>kr. rd_stage (snd kr) = i \<and> \<not> rd_closed (snd kr)) (reader_objs s))"

definition is_live :: "store \<Rightarrow> string \<Rightarrow> bool" where
  "is_live s i = (case the_stage s i of None \<Rightarrow> False | Some st \<Rightarrow> st_live st)"

definition live :: "store \<Rightarrow> string list" where
  "live s = map fst (filter (\<lambda>kst. st_live (snd kst)) (stage_objs s))"

definition n_leases :: "store \<Rightarrow> int" where
  "n_leases s = int (length (filter (\<lambda>kr. \<not> rs_released (snd kr)) (lease_objs s)))"

section \<open>Quota and reservations\<close>

definition available :: "store \<Rightarrow> string option" where
  "available s = (if s_closed s then Some ''NOT_FOUND'' else if poisoned s then Some ''DEPENDENCY_UNAVAILABLE'' else None)"

definition reserveLocked :: "int \<Rightarrow> store \<Rightarrow> store \<times> string option" where
  "reserveLocked n s =
     (case available s of
        Some e \<Rightarrow> (s, Some e)
      | None \<Rightarrow> if n < 0 \<or> n > QuotaBytes s - used s then (s, Some ''LIMIT_EXCEEDED'') else (s\<lparr>used := used s + n\<rparr>, None))"

definition Reserve :: "nat \<Rightarrow> int \<Rightarrow> store \<Rightarrow> nat outcome" where
  "Reserve k n s =
     (if n < 1 then (s, Inl ''VALIDATION_FAILED'')
      else if n_leases s + int (length (live s)) \<ge> MaxObjects s then (s, Inl ''BUSY'')
      else case reserveLocked n s of
        (s1, Some e) \<Rightarrow> (s1, Inl e)
      | (s1, None) \<Rightarrow> (s1\<lparr>lease_objs := AList.update k \<lparr>rs_bytes = n, rs_released = False\<rparr> (lease_objs s1)\<rparr>, Inr k))"

definition Release :: "nat \<Rightarrow> store \<Rightarrow> store" where
  "Release k s =
     (case map_of (lease_objs s) k of
        None \<Rightarrow> s
      | Some r \<Rightarrow>
          if rs_released r then s
          else s\<lparr>used := used s - rs_bytes r, lease_objs := AList.update k (r\<lparr>rs_released := True\<rparr>) (lease_objs s)\<rparr>)"

section \<open>Stages\<close>

text \<open>
  \<^verbatim>\<open>newStage\<close>: \<open>i\<close> is the random identifier, \<open>created\<close>, \<open>guarded\<close> and \<open>removed\<close> say whether the object could be
  created, protected and inspected, and taken away again.
\<close>

definition newStage :: "string \<Rightarrow> bool \<times> bool \<times> bool \<Rightarrow> go_ctx \<Rightarrow> owner \<Rightarrow> string \<Rightarrow> string \<Rightarrow> string \<Rightarrow> nat option \<Rightarrow> nat option
    \<Rightarrow> store \<Rightarrow> string outcome" where
  "newStage i io ctx o' kind name media req sc s =
     (case available s of
        Some e \<Rightarrow> (s, Inl e)
      | None \<Rightarrow>
          if \<not> owner_valid o' \<or> ctx = No_ctx then (s, Inl ''VALIDATION_FAILED'')
          else if ctx = Done_ctx then (s, Inl ''EXECUTION_FAILED'')
          else if \<not> ValidateBasename name \<or> \<not> validMIME media then (s, Inl ''VALIDATION_FAILED'')
          else if int (length (live s)) + n_leases s \<ge> MaxObjects s then (s, Inl ''BUSY'')
          else
            (case io of (created, guarded, removed) \<Rightarrow>
               if \<not> created then (s, Inl ''EXECUTION_FAILED'')
               else if \<not> guarded then (if removed then s else s\<lparr>poisoned := True\<rparr>, Inl ''EXECUTION_FAILED'')
               else
                 (set_stage i \<lparr>st_owner = o', st_kind = kind, st_name = name, st_mime = media, st_bytes = [], st_reserved = 0,
                     st_file = True, st_sealed = False, st_ready = False, st_retained = False, st_retired = False, st_live = True,
                     st_failed = False, st_request = req, st_scope = sc, st_expires = 0\<rparr> s, Inr i)))"

fun schema_tokens :: "schema \<Rightarrow> string list \<Rightarrow> schema option" where
  "schema_tokens s [] = Some s"
| "schema_tokens s (raw # rest) =
     (case unescapePointer raw of
        Inl _ \<Rightarrow> None
      | Inr token \<Rightarrow>
          (case Items s of
             Some it \<Rightarrow>
               if \<not> index_syntax token \<or> index_value token > max_int64 then None
               else if (case int_constraint s ''maxItems'' of Some m \<Rightarrow> index_value token \<ge> m mod 2 ^ 64 | None \<Rightarrow> False) then None
               else schema_tokens it rest
           | None \<Rightarrow> (case map_of (Properties s) token of None \<Rightarrow> None | Some c \<Rightarrow> schema_tokens c rest)))"

definition schemaAt :: "schema \<Rightarrow> string \<Rightarrow> schema option" where
  "schemaAt s pointer =
     (case pointer of
        [] \<Rightarrow> Some s
      | c # t \<Rightarrow> if c \<noteq> CHR ''/'' then None else schema_tokens s (Split (CHR ''/'') t))"

fun hasFile :: "schema \<Rightarrow> bool" where
  "hasFile (Schema ts props po ps items aa addl req d ds nl cs f pt psrc nm out) =
     (f \<noteq> None \<or> (case items of None \<Rightarrow> False | Some i \<Rightarrow> hasFile i) \<or> list_ex (\<lambda>kc. hasFile (snd kc)) props)"

text \<open>The position a stage was created for, and the byte limit of its leaf.\<close>

definition pointer_of :: "request \<Rightarrow> string \<Rightarrow> string option" where
  "pointer_of r i = map_option fst (find (\<lambda>pi. snd pi = i) (r_files r))"

definition leaf_max :: "request \<Rightarrow> string \<Rightarrow> int" where
  "leaf_max r i =
     (case pointer_of r i of
        None \<Rightarrow> MaxFileBytes (r_limits r)
      | Some p \<Rightarrow>
          (case schemaAt (r_input r) p of
             None \<Rightarrow> MaxFileBytes (r_limits r)
           | Some node \<Rightarrow> (case SFile node of None \<Rightarrow> MaxFileBytes (r_limits r) | Some fc \<Rightarrow> min (MaxFileBytes (r_limits r)) (fc_MaxBytes fc))))"

definition request_refuses :: "store \<Rightarrow> stage \<Rightarrow> string \<Rightarrow> int \<Rightarrow> bool" where
  "request_refuses s st i n =
     (case st_request st of
        None \<Rightarrow> False
      | Some k \<Rightarrow>
          (case map_of (req_objs s) k of
             None \<Rightarrow> False
           | Some r \<Rightarrow> r_state r \<noteq> Receiving \<or> n > leaf_max r i - st_size st \<or> n > MaxTotalFileBytes (r_limits r) - r_bytes r))"

definition scope_refuses :: "store \<Rightarrow> stage \<Rightarrow> int \<Rightarrow> bool" where
  "scope_refuses s st n =
     (case st_scope st of
        None \<Rightarrow> False
      | Some k \<Rightarrow>
          (case map_of (scope_objs s) k of
             None \<Rightarrow> False
           | Some v \<Rightarrow> n > ol_MaxFileBytes (v_limits v) - st_size st \<or> n > ol_MaxTotalBytes (v_limits v) - v_bytes v))"

definition add_request_bytes :: "nat option \<Rightarrow> int \<Rightarrow> store \<Rightarrow> store" where
  "add_request_bytes ko n s =
     (case ko of
        None \<Rightarrow> s
      | Some k \<Rightarrow> (case map_of (req_objs s) k of None \<Rightarrow> s | Some r \<Rightarrow> set_request k (r\<lparr>r_bytes := r_bytes r + n\<rparr>) s))"

definition add_scope_bytes :: "nat option \<Rightarrow> int \<Rightarrow> store \<Rightarrow> store" where
  "add_scope_bytes ko n s =
     (case ko of
        None \<Rightarrow> s
      | Some k \<Rightarrow> (case map_of (scope_objs s) k of
          None \<Rightarrow> s | Some v \<Rightarrow> s\<lparr>scope_objs := AList.update k (v\<lparr>v_bytes := v_bytes v + n\<rparr>) (scope_objs s)\<rparr>))"

text \<open>The context of an input stage is the one of its request, which \<^verbatim>\<open>cancel\<close> ends.\<close>

definition stage_ctx_done :: "store \<Rightarrow> stage \<Rightarrow> bool \<Rightarrow> bool" where
  "stage_ctx_done s st ctxErr \<longleftrightarrow> ctxErr
     \<or> (case st_request st of None \<Rightarrow> False | Some k \<Rightarrow> (case map_of (req_objs s) k of None \<Rightarrow> False | Some r \<Rightarrow> r_cancelled r))"

text \<open>\<open>w\<close> is the count and the error the disk write returns.\<close>

definition Stage_Write :: "string \<Rightarrow> string \<Rightarrow> bool \<Rightarrow> int \<times> bool \<Rightarrow> store \<Rightarrow> nat outcome" where
  "Stage_Write i p ctxErr w s =
     (case the_stage s i of
        None \<Rightarrow> (s, Inl ''panic'')
      | Some st \<Rightarrow>
          (let n64 = int (length p) in
           if st_retired st \<or> st_sealed st \<or> st_failed st then (s, Inl ''CONFLICT'')
           else if stage_ctx_done s st ctxErr then (s, Inl ''EXECUTION_FAILED'')
           else if length p > 65536 then (s, Inl ''LIMIT_EXCEEDED'')
           else if request_refuses s st i n64 then (s, Inl ''LIMIT_EXCEEDED'')
           else if scope_refuses s st n64 then (s, Inl ''LIMIT_EXCEEDED'')
           else
             (let prepaid = min n64 (st_reserved st) in
              case reserveLocked (n64 - prepaid) s of
                (s1, Some e) \<Rightarrow> (s1, Inl e)
              | (s1, None) \<Rightarrow>
                  (let bad = (fst w < 0 \<or> fst w > n64);
                       n = (if bad then 0 else nat (fst w));
                       err = (bad \<or> snd w \<or> int n \<noteq> n64);
                       st' = st\<lparr>st_reserved := st_reserved st - prepaid, st_bytes := st_bytes st @ take n p, st_failed := err\<rparr>;
                       s2 = set_stage i st' (s1\<lparr>used := used s1 - (n64 - int n)\<rparr>);
                       s3 = add_scope_bytes (st_scope st) (int n) (add_request_bytes (st_request st) (int n) s2) in
                   (s3, if err then Inl ''EXECUTION_FAILED'' else Inr n)))))"

definition sealLocked :: "string \<Rightarrow> bool \<Rightarrow> bool \<Rightarrow> store \<Rightarrow> unit outcome" where
  "sealLocked i ctxErr diskErr s =
     (case the_stage s i of
        None \<Rightarrow> (s, Inl ''panic'')
      | Some st \<Rightarrow>
          if st_retired st then (s, Inl ''NOT_FOUND'')
          else if st_sealed st then (s, if st_failed st then Inl ''EXECUTION_FAILED'' else Inr ())
          else
            (let err = (st_failed st \<or> stage_ctx_done s st ctxErr \<or> diskErr) in
             (set_stage i (st\<lparr>st_sealed := True, st_reserved := 0, st_file := False, st_failed := err\<rparr>) (s\<lparr>used := used s - st_reserved st\<rparr>),
              if err then Inl ''EXECUTION_FAILED'' else Inr ())))"

definition Stage_Close :: "string \<Rightarrow> bool \<Rightarrow> bool \<Rightarrow> store \<Rightarrow> unit outcome" where
  "Stage_Close = sealLocked"

definition metadata :: "(string \<Rightarrow> string) \<Rightarrow> stage \<Rightarrow> string \<times> string \<times> int \<times> string" where
  "metadata sha st = (st_name st, st_mime st, st_size st, sha (st_bytes st))"

section \<open>Readers\<close>

definition openLocked :: "nat \<Rightarrow> string \<Rightarrow> bool \<Rightarrow> bool \<Rightarrow> store \<Rightarrow> nat outcome" where
  "openLocked rd i ctxErr opened s =
     (case the_stage s i of
        None \<Rightarrow> (s, Inl ''panic'')
      | Some st \<Rightarrow>
          if \<not> st_ready st \<or> st_retired st then (s, Inl ''NOT_FOUND'')
          else if ctxErr then (s, Inl ''EXECUTION_FAILED'')
          else if n_readers s \<ge> MaxObjects s then (s, Inl ''BUSY'')
          else if \<not> opened then (s, Inl ''EXECUTION_FAILED'')
          else
            (s\<lparr>reader_objs := AList.update rd \<lparr>rd_stage = i, rd_pos = 0, rd_cancelled = False, rd_closed = False\<rparr> (reader_objs s),
               n_readers := n_readers s + 1\<rparr>, Inr rd))"

definition releaseSlotLocked :: "nat \<Rightarrow> store \<Rightarrow> store" where
  "releaseSlotLocked k s =
     (case map_of (req_objs s) k of
        None \<Rightarrow> s
      | Some r \<Rightarrow>
          if r_state r \<noteq> Released \<or> list_ex (\<lambda>pi. is_live s (snd pi)) (r_files r) then s
          else if map_of (req_table s) (RequestID (r_owner r)) = Some k
          then s\<lparr>req_table := AList.delete (RequestID (r_owner r)) (req_table s)\<rparr> else s)"

text \<open>A stage goes once it is retired and no reader is left; a failure leaves it counted and poisons the store.\<close>

definition cleanupLocked :: "disk \<Rightarrow> string \<Rightarrow> store \<Rightarrow> store \<times> string option" where
  "cleanupLocked io i s =
     (case the_stage s i of
        None \<Rightarrow> (s, None)
      | Some st \<Rightarrow>
          if \<not> st_retired st \<or> open_readers s i \<noteq> [] then (s, None)
          else if st_file st \<and> \<not> fst (io i) then (s\<lparr>poisoned := True\<rparr>, Some ''EXECUTION_FAILED'')
          else
            (let s1 = set_stage i (st\<lparr>st_file := False\<rparr>) s in
             if \<not> st_live st then (s1, None)
             else if \<not> snd (io i) then (s1\<lparr>poisoned := True\<rparr>, Some ''EXECUTION_FAILED'')
             else
               (let s2 = set_stage i (st\<lparr>st_file := False, st_reserved := 0, st_live := False\<rparr>)
                      (s1\<lparr>used := used s1 - (st_size st + st_reserved st)\<rparr>) in
                (case st_request st of None \<Rightarrow> s2 | Some k \<Rightarrow> releaseSlotLocked k s2, None))))"

definition retire_stage :: "string \<Rightarrow> store \<Rightarrow> store" where
  "retire_stage i s = (case the_stage s i of None \<Rightarrow> s | Some st \<Rightarrow> set_stage i (st\<lparr>st_retired := True\<rparr>) s)"

fun retire_all :: "disk \<Rightarrow> string list \<Rightarrow> store \<Rightarrow> store \<times> string list" where
  "retire_all io [] s = (s, [])"
| "retire_all io (i # is) s =
     (case cleanupLocked io i (retire_stage i s) of
        (s1, e) \<Rightarrow> (case retire_all io is s1 of (s2, es) \<Rightarrow> (s2, (case e of None \<Rightarrow> es | Some x \<Rightarrow> x # es))))"

definition closeLocked :: "disk \<Rightarrow> bool \<Rightarrow> nat \<Rightarrow> store \<Rightarrow> store \<times> string option" where
  "closeLocked io closedOk rd s =
     (case map_of (reader_objs s) rd of
        None \<Rightarrow> (s, None)
      | Some r \<Rightarrow>
          if rd_closed r then (s, None)
          else if \<not> closedOk
          then (s\<lparr>reader_objs := AList.update rd (r\<lparr>rd_cancelled := True\<rparr>) (reader_objs s), poisoned := True\<rparr>, Some ''EXECUTION_FAILED'')
          else
            cleanupLocked io (rd_stage r)
              (s\<lparr>reader_objs := AList.update rd (r\<lparr>rd_cancelled := True, rd_closed := True\<rparr>) (reader_objs s), n_readers := n_readers s - 1\<rparr>))"

definition Reader_Close :: "disk \<Rightarrow> bool \<Rightarrow> nat \<Rightarrow> store \<Rightarrow> store \<times> string option" where
  "Reader_Close = closeLocked"

text \<open>\<open>got\<close> is the count and the error of the read of at most \<open>n\<close> bytes; a count of 0 at the end is the end of file.\<close>

definition Reader_Read :: "nat \<Rightarrow> nat \<Rightarrow> bool \<Rightarrow> nat \<times> bool \<Rightarrow> store \<Rightarrow> string outcome" where
  "Reader_Read rd n ctxErr got s =
     (case map_of (reader_objs s) rd of
        None \<Rightarrow> (s, Inl ''panic'')
      | Some r \<Rightarrow>
          (case the_stage s (rd_stage r) of
             None \<Rightarrow> (s, Inl ''panic'')
           | Some st \<Rightarrow>
               if rd_closed r then (s, Inl ''file already closed'')
               else if rd_cancelled r \<or> ctxErr then (s, Inl ''EXECUTION_FAILED'')
               else
                 (let p = take (min (fst got) (min n 65536)) (drop (rd_pos r) (st_bytes st)) in
                  (s\<lparr>reader_objs := AList.update rd (r\<lparr>rd_pos := rd_pos r + length p\<rparr>) (reader_objs s)\<rparr>,
                   if snd got then Inl ''EXECUTION_FAILED'' else Inr p))))"

section \<open>Input requests\<close>

text \<open>
  \<^verbatim>\<open>BeginInput\<close>: the capability is its name, input schema and limits; \<open>ctxDeadline\<close> is the deadline of the caller's
  context and \<open>deadline\<close> the one asked for, each if it is set.
\<close>

definition BeginInput :: "nat \<Rightarrow> go_ctx \<Rightarrow> int option \<Rightarrow> owner \<Rightarrow> (string \<times> schema \<times> limits) option \<Rightarrow> int option \<Rightarrow> int \<Rightarrow> store \<Rightarrow> nat outcome" where
  "BeginInput k ctx ctxDeadline o' cap deadline now s =
     (case available s of
        Some e \<Rightarrow> (s, Inl e)
      | None \<Rightarrow>
          (case cap of
             None \<Rightarrow> (s, Inl ''VALIDATION_FAILED'')
           | Some (name, input, l) \<Rightarrow>
               if ctx = No_ctx \<or> \<not> owner_valid o' \<or> name \<noteq> Capability o' \<or> \<not> hasFile input then (s, Inl ''VALIDATION_FAILED'')
               else if map_of (req_table s) (RequestID o') \<noteq> None then (s, Inl ''CONFLICT'')
               else if int (length (req_table s)) \<ge> MaxPending s then (s, Inl ''BUSY'')
               else
                 (let maximum = now + TransferTimeout s;
                      d1 = (case deadline of None \<Rightarrow> maximum | Some d \<Rightarrow> if maximum < d then maximum else d);
                      d2 = (case ctxDeadline of None \<Rightarrow> d1 | Some d \<Rightarrow> if d < d1 then d else d1) in
                  if \<not> now < d2 \<or> ctx = Done_ctx then (s, Inl ''EXECUTION_TIMEOUT'')
                  else if MaxFileBytes l < 1 \<or> MaxTotalFileBytes l < MaxFileBytes l \<or> MaxFiles l < 1 then (s, Inl ''VALIDATION_FAILED'')
                  else
                    (set_request k \<lparr>r_owner = o', r_input = input, r_limits = l, r_deadline = d2, r_cancelled = False,
                        r_stopped = False, r_state = Receiving, r_files = [], r_bytes = 0, r_started = False\<rparr>
                       (s\<lparr>req_table := AList.update (RequestID o') k (req_table s)\<rparr>), Inr k))))"

text \<open>\<open>ctxErr\<close> says that the context the request was begun with has ended or its deadline has passed.\<close>

definition check_request :: "store \<Rightarrow> request \<Rightarrow> owner \<Rightarrow> request_state \<Rightarrow> bool \<Rightarrow> string option" where
  "check_request s r o' state ctxErr =
     (if r_owner r \<noteq> o' then Some ''PERMISSION_DENIED''
      else case available s of
        Some e \<Rightarrow> Some e
      | None \<Rightarrow>
          if r_state r \<noteq> state then Some ''CONFLICT''
          else if state \<noteq> Executing \<and> (r_cancelled r \<or> ctxErr) then Some ''EXECUTION_TIMEOUT''
          else None)"

definition with_request :: "nat \<Rightarrow> owner \<Rightarrow> request_state \<Rightarrow> bool \<Rightarrow> (request \<Rightarrow> store \<Rightarrow> 'a outcome) \<Rightarrow> store \<Rightarrow> 'a outcome" where
  "with_request k o' state ctxErr f s =
     (case map_of (req_objs s) k of
        None \<Rightarrow> (s, Inl ''panic'')
      | Some r \<Rightarrow> (case check_request s r o' state ctxErr of Some e \<Rightarrow> (s, Inl e) | None \<Rightarrow> f r s))"

definition file_node :: "request \<Rightarrow> string \<Rightarrow> file_constraints option" where
  "file_node r pointer = (case schemaAt (r_input r) pointer of None \<Rightarrow> None | Some node \<Rightarrow> SFile node)"

text \<open>\<open>late\<close> says that the request's context ended between the check and the creation of the stage.\<close>

definition NewFile :: "string \<Rightarrow> bool \<times> bool \<times> bool \<Rightarrow> bool \<Rightarrow> bool \<Rightarrow> nat \<Rightarrow> owner \<Rightarrow> string \<Rightarrow> string \<Rightarrow> string \<Rightarrow> store \<Rightarrow> string outcome" where
  "NewFile i io ctxErr late k o' pointer name media =
     with_request k o' Receiving ctxErr (\<lambda>r s.
       if file_node r pointer = None then (s, Inl ''VALIDATION_FAILED'')
       else if map_of (r_files r) pointer \<noteq> None then (s, Inl ''CONFLICT'')
       else if int (length (r_files r)) \<ge> MaxFiles (r_limits r) then (s, Inl ''LIMIT_EXCEEDED'')
       else case newStage i io (if late then Done_ctx else Live_ctx) o' ''i'' name media (Some k) None s of
         (s1, Inl e) \<Rightarrow> (s1, Inl e)
       | (s1, Inr st) \<Rightarrow> (set_request k (r\<lparr>r_files := AList.update pointer i (r_files r)\<rparr>) s1, Inr st))"

definition file_value_of :: "(string \<Rightarrow> string) \<Rightarrow> string \<Rightarrow> string \<Rightarrow> owner \<Rightarrow> stage \<Rightarrow> file_value" where
  "file_value_of sha pointer i o' st =
     \<lparr>file_Pointer = pointer, file_ID = i, file_Name = st_name st, file_MIMEType = st_mime st, file_SHA256 = sha (st_bytes st),
      file_RequestID = RequestID o', file_SizeBytes = st_size st\<rparr>"

definition Complete :: "(string \<Rightarrow> string) \<Rightarrow> bool \<Rightarrow> nat \<Rightarrow> owner \<Rightarrow> string \<Rightarrow> int \<Rightarrow> string \<Rightarrow> store \<Rightarrow> file_value outcome" where
  "Complete sha ctxErr k o' i sz digest =
     with_request k o' Receiving ctxErr (\<lambda>r s.
       case the_stage s i of
         None \<Rightarrow> (s, Inl ''VALIDATION_FAILED'')
       | Some st \<Rightarrow>
           if st_request st \<noteq> Some k \<or> st_owner st \<noteq> o' \<or> st_retired st \<or> \<not> st_sealed st \<or> st_ready st \<or> st_failed st
           then (s, Inl ''VALIDATION_FAILED'')
           else if st_size st \<noteq> sz \<or> sha (st_bytes st) \<noteq> digest then (s, Inl ''VALIDATION_FAILED'')
           else
             (let pointer = (case pointer_of r i of None \<Rightarrow> [] | Some p \<Rightarrow> p); v = file_value_of sha pointer i o' st in
              case file_node r pointer of
                None \<Rightarrow> (s, Inl ''panic'')
              | Some fc \<Rightarrow>
                  (case FileConstraints_Validate fc v of
                     Inl _ \<Rightarrow> (s, Inl ''VALIDATION_FAILED'')
                   | Inr _ \<Rightarrow> (set_stage i (st\<lparr>st_ready := True\<rparr>) s, Inr v))))"

definition same_metadata :: "(string \<Rightarrow> string) \<Rightarrow> stage \<Rightarrow> file_value \<Rightarrow> bool" where
  "same_metadata sha st v \<longleftrightarrow>
     file_Name v = st_name st \<and> file_MIMEType v = st_mime st \<and> file_SizeBytes v = st_size st \<and> file_SHA256 v = sha (st_bytes st)"

definition commit_leaf :: "(string \<Rightarrow> string) \<Rightarrow> store \<Rightarrow> request \<Rightarrow> owner \<Rightarrow> file_leaf \<Rightarrow> string list \<Rightarrow> string list result" where
  "commit_leaf sha s r o' leaf seen =
     (case map_of (r_files r) (leaf_Pointer leaf) of
        None \<Rightarrow> Inl ''VALIDATION_FAILED''
      | Some i \<Rightarrow>
          (case the_stage s i of
             None \<Rightarrow> Inl ''VALIDATION_FAILED''
           | Some st \<Rightarrow>
               if \<not> st_ready st \<or> st_retired st \<or> i \<in> set seen \<or> file_ID (leaf_Value leaf) \<noteq> i
                  \<or> file_RequestID (leaf_Value leaf) \<noteq> RequestID o' \<or> file_Pointer (leaf_Value leaf) \<noteq> leaf_Pointer leaf
               then Inl ''VALIDATION_FAILED''
               else if \<not> same_metadata sha st (leaf_Value leaf) then Inl ''VALIDATION_FAILED''
               else Inr (i # seen)))"

definition Commit :: "stdlib \<Rightarrow> (string \<Rightarrow> string) \<Rightarrow> bool \<Rightarrow> nat \<Rightarrow> owner \<Rightarrow> (string \<times> val) list option \<Rightarrow> store \<Rightarrow> (string \<times> val) list outcome" where
  "Commit L sha ctxErr k o' params =
     with_request k o' Receiving ctxErr (\<lambda>r s.
       case ValidateInput L (r_input r) params (r_limits r) of
         Inl _ \<Rightarrow> (s, Inl ''VALIDATION_FAILED'')
       | Inr (normal, leaves) \<Rightarrow>
           if length leaves \<noteq> length (r_files r) then (s, Inl ''VALIDATION_FAILED'')
           else case each (commit_leaf sha s r o') leaves [] of
             Inl e \<Rightarrow> (s, Inl e)
           | Inr _ \<Rightarrow> (set_request k (r\<lparr>r_state := Ready\<rparr>) s, Inr normal))"

definition Start :: "bool \<Rightarrow> nat \<Rightarrow> owner \<Rightarrow> go_ctx \<Rightarrow> store \<Rightarrow> unit outcome" where
  "Start ctxErr k o' execution =
     with_request k o' Ready ctxErr (\<lambda>r s.
       if execution \<noteq> Live_ctx then (s, Inl ''EXECUTION_TIMEOUT'')
       else (set_request k (r\<lparr>r_state := Executing, r_started := True, r_cancelled := True\<rparr>) s, Inr ()))"

text \<open>\<open>exec\<close> says that the execution context has ended from outside; \<^verbatim>\<open>stopExecution\<close> ends it too.\<close>

definition Request_Open :: "(string \<Rightarrow> string) \<Rightarrow> nat \<Rightarrow> bool \<Rightarrow> bool \<Rightarrow> nat \<Rightarrow> owner \<Rightarrow> file_value \<Rightarrow> store \<Rightarrow> nat outcome" where
  "Request_Open sha rd exec opened k o' v =
     with_request k o' Executing False (\<lambda>r s.
       case map_of (r_files r) (file_Pointer v) of
         None \<Rightarrow> (s, Inl ''PERMISSION_DENIED'')
       | Some i \<Rightarrow>
           (case the_stage s i of
              None \<Rightarrow> (s, Inl ''PERMISSION_DENIED'')
            | Some st \<Rightarrow>
                if i \<noteq> file_ID v \<or> file_RequestID v \<noteq> RequestID o' then (s, Inl ''PERMISSION_DENIED'')
                else if \<not> same_metadata sha st v then (s, Inl ''VALIDATION_FAILED'')
                else openLocked rd i (exec \<or> r_stopped r) opened s))"

text \<open>\<^verbatim>\<open>stopExecution\<close> is set once the request has started.\<close>

definition cancel_request :: "request \<Rightarrow> request" where
  "cancel_request r = r\<lparr>r_cancelled := True, r_stopped := r_stopped r \<or> r_started r\<rparr>"

definition abortLocked :: "nat \<Rightarrow> store \<Rightarrow> store" where
  "abortLocked k s =
     (case map_of (req_objs s) k of
        None \<Rightarrow> s
      | Some r \<Rightarrow> if r_state r = Released then s else set_request k ((cancel_request r)\<lparr>r_state := Aborted\<rparr>) s)"

definition Request_Abort :: "nat \<Rightarrow> owner \<Rightarrow> store \<Rightarrow> unit outcome" where
  "Request_Abort k o' s =
     (case map_of (req_objs s) k of
        None \<Rightarrow> (s, Inl ''panic'')
      | Some r \<Rightarrow> if o' \<noteq> r_owner r then (s, Inl ''PERMISSION_DENIED'') else (abortLocked k s, Inr ()))"

definition releaseStoppedLocked :: "disk \<Rightarrow> nat \<Rightarrow> store \<Rightarrow> unit outcome" where
  "releaseStoppedLocked io k s =
     (case map_of (req_objs s) k of
        None \<Rightarrow> (s, Inl ''panic'')
      | Some r \<Rightarrow>
          (case retire_all io (map snd (r_files r)) (set_request k ((cancel_request r)\<lparr>r_state := Released\<rparr>) s) of
             (s1, errs) \<Rightarrow> (releaseSlotLocked k s1, if errs = [] then Inr () else Inl (hd errs))))"

definition ReleaseStopped :: "disk \<Rightarrow> nat \<Rightarrow> owner \<Rightarrow> store \<Rightarrow> unit outcome" where
  "ReleaseStopped io k o' s =
     (case map_of (req_objs s) k of
        None \<Rightarrow> (s, Inl ''panic'')
      | Some r \<Rightarrow> if o' \<noteq> r_owner r then (s, Inl ''PERMISSION_DENIED'') else releaseStoppedLocked io k s)"

definition InputUsage :: "nat \<Rightarrow> owner \<Rightarrow> store \<Rightarrow> int \<times> int" where
  "InputUsage k o' s =
     (case map_of (req_objs s) k of
        None \<Rightarrow> (0, 0)
      | Some r \<Rightarrow> if o' \<noteq> r_owner r then (0, 0) else (int (length (r_files r)), r_bytes r))"

definition Stage_Abort :: "disk \<Rightarrow> string \<Rightarrow> store \<Rightarrow> unit outcome" where
  "Stage_Abort io i s =
     (case the_stage s i of
        None \<Rightarrow> (s, Inl ''panic'')
      | Some st \<Rightarrow>
          (case st_request st of
             Some k \<Rightarrow>
               (let s1 = abortLocked k s in
                case map_of (req_objs s1) k of
                  None \<Rightarrow> (s1, Inl ''panic'')
                | Some r \<Rightarrow> if r_started r \<and> r_state r \<noteq> Released then (s1, Inr ()) else releaseStoppedLocked io k s1)
           | None \<Rightarrow>
               if st_retained st then (s, Inr ())
               else case cleanupLocked io i (retire_stage i s) of (s1, e) \<Rightarrow> (s1, case e of None \<Rightarrow> Inr () | Some x \<Rightarrow> Inl x)))"

section \<open>Outputs\<close>

definition Store_Output :: "nat \<Rightarrow> owner \<Rightarrow> output_limits \<Rightarrow> store \<Rightarrow> nat outcome" where
  "Store_Output k o' l s =
     (case available s of
        Some e \<Rightarrow> (s, Inl e)
      | None \<Rightarrow>
          if \<not> owner_valid o' \<or> ol_MaxFileBytes l < 1 \<or> ol_MaxTotalBytes l < ol_MaxFileBytes l \<or> ol_MaxFiles l < 1 \<or> ol_TTL l \<le> 0
          then (s, Inl ''VALIDATION_FAILED'')
          else (s\<lparr>scope_objs := AList.update k \<lparr>v_owner = o', v_limits = l, v_stages = [], v_bytes = 0, v_published = False\<rparr> (scope_objs s)\<rparr>, Inr k))"

definition Scope_Begin :: "string \<Rightarrow> bool \<times> bool \<times> bool \<Rightarrow> go_ctx \<Rightarrow> nat \<Rightarrow> string \<Rightarrow> string \<Rightarrow> store \<Rightarrow> string outcome" where
  "Scope_Begin i io ctx k name media s =
     (case map_of (scope_objs s) k of
        None \<Rightarrow> (s, Inl ''panic'')
      | Some v \<Rightarrow>
          if v_published v then (s, Inl ''CONFLICT'')
          else if int (length (v_stages v)) \<ge> ol_MaxFiles (v_limits v) then (s, Inl ''LIMIT_EXCEEDED'')
          else case newStage i io ctx (v_owner v) ''o'' name media None (Some k) s of
            (s1, Inl e) \<Rightarrow> (s1, Inl e)
          | (s1, Inr st) \<Rightarrow> (s1\<lparr>scope_objs := AList.update k (v\<lparr>v_stages := v_stages v @ [i]\<rparr>) (scope_objs s1)\<rparr>, Inr st))"

definition Finish :: "(string \<Rightarrow> string) \<Rightarrow> nat \<Rightarrow> bool \<Rightarrow> bool \<Rightarrow> string \<Rightarrow> string \<times> string \<times> int \<times> string \<Rightarrow> store \<Rightarrow> nat outcome" where
  "Finish sha rd ctxErr opened i m s =
     (case the_stage s i of
        None \<Rightarrow> (s, Inl ''panic'')
      | Some st \<Rightarrow>
          if st_kind st \<noteq> ''o'' \<or> \<not> st_sealed st \<or> st_ready st \<or> st_retired st \<or> st_failed st \<or> ctxErr then (s, Inl ''OUTPUT_INVALID'')
          else if m \<noteq> metadata sha st then (s, Inl ''OUTPUT_INVALID'')
          else openLocked rd i False opened (set_stage i (st\<lparr>st_ready := True\<rparr>) s))"

text \<open>The files of an output: the reader each one carries, where it is one of this store, and its metadata.\<close>

definition retains :: "(string \<Rightarrow> string) \<Rightarrow> store \<Rightarrow> string \<Rightarrow> nat option \<times> string \<times> string \<times> int \<times> string \<Rightarrow> bool" where
  "retains sha s i f \<longleftrightarrow>
     (case fst f of
        None \<Rightarrow> False
      | Some rd \<Rightarrow>
          (case map_of (reader_objs s) rd of
             None \<Rightarrow> False
           | Some r \<Rightarrow>
               (case the_stage s i of
                  None \<Rightarrow> False
                | Some st \<Rightarrow> rd_stage r = i \<and> \<not> rd_closed r \<and> st_ready st \<and> \<not> st_retired st \<and> snd f = metadata sha st)))"

definition retain_stage :: "int \<Rightarrow> string \<Rightarrow> store \<Rightarrow> store" where
  "retain_stage expiry i s =
     (case the_stage s i of None \<Rightarrow> s | Some st \<Rightarrow> set_stage i (st\<lparr>st_retained := True, st_expires := expiry\<rparr>) s)"

definition Retain :: "(string \<Rightarrow> string) \<Rightarrow> int \<Rightarrow> nat \<Rightarrow> (nat option \<times> string \<times> string \<times> int \<times> string) list \<Rightarrow> store \<Rightarrow> (string \<times> (string \<times> string \<times> int \<times> string) \<times> int) list outcome" where
  "Retain sha now k files s =
     (case map_of (scope_objs s) k of
        None \<Rightarrow> (s, Inl ''panic'')
      | Some v \<Rightarrow>
          (case available s of
             Some e \<Rightarrow> (s, Inl e)
           | None \<Rightarrow>
               if v_published v \<or> length files \<noteq> length (v_stages v) then (s, Inl ''OUTPUT_INVALID'')
               else if \<not> list_all2 (retains sha s) (v_stages v) files then (s, Inl ''OUTPUT_INVALID'')
               else
                 (let expiry = now + ol_TTL (v_limits v);
                      s1 = fold (retain_stage expiry) (v_stages v) s in
                  (s1\<lparr>scope_objs := AList.update k (v\<lparr>v_published := True\<rparr>) (scope_objs s1)\<rparr>,
                   Inr (map2 (\<lambda>i f. (i, snd f, expiry)) (v_stages v) files)))))"

definition OpenOutput :: "nat \<Rightarrow> go_ctx \<Rightarrow> bool \<Rightarrow> int \<Rightarrow> owner \<Rightarrow> string \<Rightarrow> store \<Rightarrow> nat outcome" where
  "OpenOutput rd ctx opened now o' i s =
     (case available s of
        Some e \<Rightarrow> (s, Inl e)
      | None \<Rightarrow>
          (case the_stage s i of
             None \<Rightarrow> (s, Inl ''NOT_FOUND'')
           | Some st \<Rightarrow>
               if \<not> st_live st \<or> st_kind st \<noteq> ''o'' \<or> \<not> st_retained st \<or> st_owner st \<noteq> o' \<or> \<not> now < st_expires st
               then (s, Inl ''NOT_FOUND'')
               else if ctx = No_ctx then (s, Inl ''VALIDATION_FAILED'')
               else openLocked rd i (ctx = Done_ctx) opened s))"

section \<open>Expiry, revocation and shutdown\<close>

definition sweeps :: "int \<Rightarrow> (nat \<Rightarrow> bool) \<Rightarrow> nat \<Rightarrow> request \<Rightarrow> bool" where
  "sweeps now ended k r \<longleftrightarrow>
     \<not> r_started r \<and> r_state r \<in> {Receiving, Ready, Aborted} \<and> (\<not> now < r_deadline r \<or> r_cancelled r \<or> ended k)"

fun sweep_requests :: "disk \<Rightarrow> int \<Rightarrow> (nat \<Rightarrow> bool) \<Rightarrow> nat list \<Rightarrow> store \<Rightarrow> store \<times> string list" where
  "sweep_requests io now ended [] s = (s, [])"
| "sweep_requests io now ended (k # ks) s =
     (case map_of (req_objs s) k of
        None \<Rightarrow> sweep_requests io now ended ks s
      | Some r \<Rightarrow>
          if sweeps now ended k r then
            (case retire_all io (map snd (r_files r)) (set_request k (r\<lparr>r_cancelled := True, r_state := Released\<rparr>) s) of
               (s1, es) \<Rightarrow> (case sweep_requests io now ended ks (releaseSlotLocked k s1) of (s2, es') \<Rightarrow> (s2, es @ es')))
          else sweep_requests io now ended ks s)"

definition stage_expired :: "int \<Rightarrow> store \<Rightarrow> string \<Rightarrow> bool" where
  "stage_expired now s i = (case the_stage s i of None \<Rightarrow> False | Some st \<Rightarrow> st_retained st \<and> \<not> now < st_expires st)"

definition joined :: "string list \<Rightarrow> unit result" where
  "joined errs = (case errs of [] \<Rightarrow> Inr () | e # _ \<Rightarrow> Inl e)"

definition Sweep :: "disk \<Rightarrow> int \<Rightarrow> (nat \<Rightarrow> bool) \<Rightarrow> store \<Rightarrow> unit outcome" where
  "Sweep io now ended s =
     (case sweep_requests io now ended (map snd (req_table s)) s of
        (s1, es) \<Rightarrow> (case retire_all io (filter (stage_expired now s1) (live s1)) s1 of (s2, es') \<Rightarrow> (s2, joined (es @ es'))))"

definition revoke_request :: "string \<Rightarrow> nat \<Rightarrow> store \<Rightarrow> store" where
  "revoke_request generation k s =
     (case map_of (req_objs s) k of
        None \<Rightarrow> s
      | Some r \<Rightarrow>
          if AuthGeneration (r_owner r) = generation then set_request k ((cancel_request r)\<lparr>r_state := Aborted\<rparr>) s else s)"

definition of_generation :: "string \<Rightarrow> store \<Rightarrow> string \<Rightarrow> bool" where
  "of_generation generation s i =
     (case the_stage s i of None \<Rightarrow> False | Some st \<Rightarrow> st_kind st = ''o'' \<and> AuthGeneration (st_owner st) = generation)"

definition cancel_readers :: "string list \<Rightarrow> store \<Rightarrow> store" where
  "cancel_readers is s =
     s\<lparr>reader_objs := map_vals (\<lambda>r. if rd_stage r \<in> set is \<and> \<not> rd_closed r then r\<lparr>rd_cancelled := True\<rparr> else r) (reader_objs s)\<rparr>"

definition RevokeGeneration :: "disk \<Rightarrow> string \<Rightarrow> store \<Rightarrow> unit outcome" where
  "RevokeGeneration io generation s =
     (let s1 = fold (revoke_request generation) (map snd (req_table s)) s;
          is = filter (of_generation generation s1) (live s1) in
      case retire_all io is (cancel_readers is s1) of (s2, es) \<Rightarrow> (s2, joined es))"

definition shut_request :: "nat \<Rightarrow> store \<Rightarrow> store" where
  "shut_request k s =
     (case map_of (req_objs s) k of None \<Rightarrow> s | Some r \<Rightarrow> set_request k ((cancel_request r)\<lparr>r_state := Released\<rparr>) s)"

fun close_readers :: "disk \<Rightarrow> (nat \<Rightarrow> bool) \<Rightarrow> nat list \<Rightarrow> store \<Rightarrow> store \<times> string list" where
  "close_readers io closedOk [] s = (s, [])"
| "close_readers io closedOk (rd # rds) s =
     (case closeLocked io (closedOk rd) rd s of
        (s1, e) \<Rightarrow> (case close_readers io closedOk rds s1 of (s2, es) \<Rightarrow> (s2, (case e of None \<Rightarrow> es | Some x \<Rightarrow> x # es))))"

fun shut_stages :: "disk \<Rightarrow> (nat \<Rightarrow> bool) \<Rightarrow> string list \<Rightarrow> store \<Rightarrow> store \<times> string list" where
  "shut_stages io closedOk [] s = (s, [])"
| "shut_stages io closedOk (i # is) s =
     (case close_readers io closedOk (open_readers s i) s of
        (s1, es) \<Rightarrow>
          (case cleanupLocked io i (retire_stage i s1) of
             (s2, e) \<Rightarrow>
               (case shut_stages io closedOk is s2 of
                  (s3, es') \<Rightarrow> (s3, es @ (case e of None \<Rightarrow> es' | Some x \<Rightarrow> x # es')))))"

definition Store_Close :: "disk \<Rightarrow> (nat \<Rightarrow> bool) \<Rightarrow> bool \<Rightarrow> store \<Rightarrow> unit outcome" where
  "Store_Close io closedOk handlesOk s =
     (if s_closed s then (s, case closeErr s of None \<Rightarrow> Inr () | Some e \<Rightarrow> Inl e)
      else
        (let s1 = fold shut_request (map snd (req_table s)) (s\<lparr>s_closed := True\<rparr>) in
         case shut_stages io closedOk (live s1) s1 of
           (s2, es) \<Rightarrow>
             (let r = joined (es @ (if handlesOk then [] else [''EXECUTION_FAILED''])) in
              (s2\<lparr>closeErr := (case r of Inl e \<Rightarrow> Some e | Inr _ \<Rightarrow> None)\<rparr>, r))))"

section \<open>Scratch stages\<close>

definition scratch_owner :: owner where
  "scratch_owner = \<lparr>RequestID = ''scratch'', CallerBinding = ''scratch'', Capability = ''scratch'', DefinitionHash = ''scratch'', AuthGeneration = ''scratch''\<rparr>"

definition NewScratch :: "string \<Rightarrow> bool \<times> bool \<times> bool \<Rightarrow> go_ctx \<Rightarrow> string \<Rightarrow> string \<Rightarrow> int \<Rightarrow> store \<Rightarrow> string outcome" where
  "NewScratch i io ctx name media bytes s =
     (if bytes < 0 then (s, Inl ''VALIDATION_FAILED'')
      else case reserveLocked bytes s of
        (s1, Some e) \<Rightarrow> (s1, Inl e)
      | (s1, None) \<Rightarrow>
          (case newStage i io ctx scratch_owner ''o'' name media None None s1 of
             (s2, Inl e) \<Rightarrow> (s2\<lparr>used := used s2 - bytes\<rparr>, Inl e)
           | (s2, Inr j) \<Rightarrow>
               (case the_stage s2 i of None \<Rightarrow> s2 | Some st \<Rightarrow> set_stage i (st\<lparr>st_reserved := bytes\<rparr>) s2, Inr j)))"

definition Scratch_Begin :: "string \<Rightarrow> bool \<times> bool \<times> bool \<Rightarrow> go_ctx \<Rightarrow> string \<Rightarrow> string \<Rightarrow> store \<Rightarrow> string outcome" where
  "Scratch_Begin i io ctx name media = newStage i io ctx scratch_owner ''o'' name media None None"

section \<open>The accounting invariant\<close>

definition one :: "bool \<Rightarrow> int" where
  "one b = (if b then 1 else 0)"

definition charge :: "stage \<Rightarrow> int" where
  "charge st = (if st_live st then st_size st + st_reserved st else 0)"

definition lease_charge :: "reservation \<Rightarrow> int" where
  "lease_charge r = (if rs_released r then 0 else rs_bytes r)"

text \<open>The bytes in use are those of the stages on disk, of their reservations and of the leases not released.\<close>

definition accounts :: "store \<Rightarrow> bool" where
  "accounts s \<longleftrightarrow>
     used s = total_of charge (stage_objs s) + total_of lease_charge (lease_objs s) \<and> used s \<le> QuotaBytes s"

definition places :: "store \<Rightarrow> bool" where
  "places s \<longleftrightarrow>
     total_of (\<lambda>st. one (st_live st)) (stage_objs s) + total_of (\<lambda>r. one (\<not> rs_released r)) (lease_objs s) \<le> MaxObjects s"

definition stage_ok :: "stage \<Rightarrow> bool" where
  "stage_ok st \<longleftrightarrow> 0 \<le> st_reserved st \<and> (\<not> st_retired st \<longrightarrow> st_live st) \<and> (st_ready st \<longrightarrow> st_sealed st \<and> \<not> st_failed st)
     \<and> (st_retained st \<longrightarrow> st_ready st \<and> st_request st = None) \<and> (\<not> st_live st \<or> st_sealed st \<longrightarrow> \<not> st_file st)"

definition stages_ok :: "store \<Rightarrow> bool" where
  "stages_ok s \<longleftrightarrow> distinct_keys (stage_objs s) \<and> (\<forall>i st. the_stage s i = Some st \<longrightarrow> stage_ok st)"

definition leases_ok :: "store \<Rightarrow> bool" where
  "leases_ok s \<longleftrightarrow> distinct_keys (lease_objs s) \<and> (\<forall>k r. map_of (lease_objs s) k = Some r \<longrightarrow> 1 \<le> rs_bytes r)"

text \<open>Every reader not closed keeps the bytes of its stage on disk.\<close>

definition readers_ok :: "store \<Rightarrow> bool" where
  "readers_ok s \<longleftrightarrow> distinct_keys (reader_objs s) \<and> n_readers s = total_of (\<lambda>r. one (\<not> rd_closed r)) (reader_objs s)
     \<and> n_readers s \<le> MaxObjects s
     \<and> (\<forall>rd r. map_of (reader_objs s) rd = Some r \<longrightarrow> (\<exists>st. the_stage s (rd_stage r) = Some st \<and> st_ready st \<and> (rd_closed r \<or> st_live st)))"

definition table_ok :: "store \<Rightarrow> bool" where
  "table_ok s \<longleftrightarrow> distinct_keys (req_table s) \<and> int (length (req_table s)) \<le> MaxPending s"

definition received :: "nat \<Rightarrow> stage \<Rightarrow> int" where
  "received k st = (if st_request st = Some k then st_size st else 0)"

definition produced :: "nat \<Rightarrow> stage \<Rightarrow> int" where
  "produced k st = (if st_scope st = Some k then st_size st else 0)"

definition request_ok :: "store \<Rightarrow> nat \<Rightarrow> request \<Rightarrow> bool" where
  "request_ok s k r \<longleftrightarrow>
     r_bytes r = total_of (received k) (stage_objs s) \<and> r_bytes r \<le> MaxTotalFileBytes (r_limits r)
     \<and> int (length (r_files r)) \<le> MaxFiles (r_limits r)
     \<and> (\<forall>i. i \<in> snd ` set (r_files r) \<longrightarrow> (\<exists>st. the_stage s i = Some st \<and> st_request st = Some k))
     \<and> (\<forall>i st. the_stage s i = Some st \<longrightarrow> st_request st = Some k \<longrightarrow> i \<in> snd ` set (r_files r) \<and> st_size st \<le> max 0 (leaf_max r i))"

definition requests_ok :: "store \<Rightarrow> bool" where
  "requests_ok s \<longleftrightarrow> (\<forall>k r. map_of (req_objs s) k = Some r \<longrightarrow> request_ok s k r)
     \<and> (\<forall>i st k. the_stage s i = Some st \<longrightarrow> st_request st = Some k \<longrightarrow> map_of (req_objs s) k \<noteq> None)"

definition scope_ok :: "store \<Rightarrow> nat \<Rightarrow> scope \<Rightarrow> bool" where
  "scope_ok s k v \<longleftrightarrow>
     v_bytes v = total_of (produced k) (stage_objs s) \<and> v_bytes v \<le> ol_MaxTotalBytes (v_limits v)
     \<and> int (length (v_stages v)) \<le> ol_MaxFiles (v_limits v) \<and> 1 \<le> ol_MaxFileBytes (v_limits v)
     \<and> (\<forall>i \<in> set (v_stages v). \<exists>st. the_stage s i = Some st \<and> st_scope st = Some k)
     \<and> (\<forall>i st. the_stage s i = Some st \<longrightarrow> st_scope st = Some k \<longrightarrow>
          i \<in> set (v_stages v) \<and> st_size st \<le> ol_MaxFileBytes (v_limits v))"

definition scopes_ok :: "store \<Rightarrow> bool" where
  "scopes_ok s \<longleftrightarrow> (\<forall>k v. map_of (scope_objs s) k = Some v \<longrightarrow> scope_ok s k v)
     \<and> (\<forall>i st k. the_stage s i = Some st \<longrightarrow> st_scope st = Some k \<longrightarrow> map_of (scope_objs s) k \<noteq> None \<and> st_request st = None)"

definition store_ok :: "store \<Rightarrow> bool" where
  "store_ok s \<longleftrightarrow> accounts s \<and> places s \<and> stages_ok s \<and> leases_ok s \<and> readers_ok s \<and> table_ok s \<and> requests_ok s \<and> scopes_ok s"

lemmas store_parts = accounts_def places_def stages_ok_def leases_ok_def readers_ok_def table_ok_def requests_ok_def scopes_ok_def

lemma one_simps [simp]: "one True = 1" "one False = 0" "0 \<le> one b"
  by (simp_all add: one_def)

lemma st_size_nonneg [simp]: "0 \<le> st_size st"
  by (simp add: st_size_def)

lemma length_filter_total: "int (length (filter (\<lambda>kv. P (snd kv)) m)) = total_of (\<lambda>v. one (P v)) m"
  by (induction m) (auto simp: total_of_def one_def)

lemma n_live: "int (length (live s)) = total_of (\<lambda>st. one (st_live st)) (stage_objs s)"
  by (simp add: live_def length_filter_total)

lemma n_leases_total: "n_leases s = total_of (\<lambda>r. one (\<not> rs_released r)) (lease_objs s)"
  by (simp add: n_leases_def length_filter_total [of "\<lambda>r. \<not> rs_released r"])

lemma the_stage_set [simp]: "the_stage (set_stage i st s) j = (if j = i then Some st else the_stage s j)"
  by (simp add: the_stage_def set_stage_def map_of_update)

lemma used_set_stage: "used (set_stage i st s) = used s"
  by (simp add: set_stage_def)

lemma no_open_readers:
  "open_readers s i = [] \<Longrightarrow> distinct_keys (reader_objs s) \<Longrightarrow> map_of (reader_objs s) rd = Some r \<Longrightarrow> rd_stage r = i \<Longrightarrow> rd_closed r"
  by (auto simp: open_readers_def filter_empty_conv dest!: map_of_SomeD)

text \<open>An update of one stage, with the bytes in use moved by the difference it makes.\<close>

definition moves :: "store \<Rightarrow> string \<Rightarrow> stage \<Rightarrow> stage \<Rightarrow> bool" where
  "moves s i st st' \<longleftrightarrow> the_stage s i = Some st \<and> stage_ok st' \<and> st_request st' = st_request st \<and> st_scope st' = st_scope st
     \<and> (st_ready st \<longrightarrow> st_ready st') \<and> (st_live st' \<longrightarrow> st_live st) \<and> (st_live st \<longrightarrow> st_live st' \<or> open_readers s i = [])"

definition evolves :: "store \<Rightarrow> string \<Rightarrow> stage \<Rightarrow> stage \<Rightarrow> bool" where
  "evolves s i st st' \<longleftrightarrow> moves s i st st' \<and> st_bytes st' = st_bytes st"

lemmas evolution = evolves_def moves_def stage_ok_def

definition put_stage :: "string \<Rightarrow> stage \<Rightarrow> stage \<Rightarrow> store \<Rightarrow> store" where
  "put_stage i st st' s = set_stage i st' (s\<lparr>used := used s + (charge st' - charge st)\<rparr>)"

lemma put_stage_fields [simp]:
  "the_stage (put_stage i st st' s) j = (if j = i then Some st' else the_stage s j)"
  "QuotaBytes (put_stage i st st' s) = QuotaBytes s" "MaxObjects (put_stage i st st' s) = MaxObjects s"
  "MaxPending (put_stage i st st' s) = MaxPending s" "n_readers (put_stage i st st' s) = n_readers s"
  "lease_objs (put_stage i st st' s) = lease_objs s" "reader_objs (put_stage i st st' s) = reader_objs s"
  "req_table (put_stage i st st' s) = req_table s" "req_objs (put_stage i st st' s) = req_objs s"
  "scope_objs (put_stage i st st' s) = scope_objs s" "stage_objs (put_stage i st st' s) = AList.update i st' (stage_objs s)"
  "used (put_stage i st st' s) = used s + (charge st' - charge st)"
  by (simp_all add: put_stage_def the_stage_def set_stage_def map_of_update)

lemma moves_total:
  assumes "stages_ok s" "moves s i st st'"
  shows "total_of f (AList.update i st' (stage_objs s)) = total_of f (stage_objs s) - f st + f st'"
  using assms by (intro total_update) (auto simp: stages_ok_def moves_def the_stage_def)

lemma put_stage_parts:
  assumes ok: "store_ok s" and mv: "moves s i st st'" and q: "used s + (charge st' - charge st) \<le> QuotaBytes s"
  shows "accounts (put_stage i st st' s)" "places (put_stage i st st' s)" "stages_ok (put_stage i st st' s)" "leases_ok (put_stage i st st' s)"
    "readers_ok (put_stage i st st' s)" "table_ok (put_stage i st st' s)"
proof -
  have so: "stages_ok s" using ok by (simp add: store_ok_def)
  note tot = moves_total [OF so mv]
  show "accounts (put_stage i st st' s)" "stages_ok (put_stage i st st' s)" "leases_ok (put_stage i st st' s)" "table_ok (put_stage i st st' s)"
    using ok mv q by (auto simp: store_ok_def store_parts tot moves_def distinct_keys_update split: if_splits)
  show "places (put_stage i st st' s)"
    using ok mv by (auto simp: store_ok_def places_def tot moves_def one_def)
  show "readers_ok (put_stage i st st' s)"
    using ok mv by (fastforce simp: store_ok_def readers_ok_def moves_def dest: no_open_readers)
qed

lemma put_stage_limits:
  assumes so: "stages_ok s" and mv: "moves s i st st'"
  shows "request_ok s k r \<Longrightarrow> st_request st \<noteq> Some k \<or> st_size st' = st_size st \<Longrightarrow> request_ok (put_stage i st st' s) k r"
    and "scope_ok s k v \<Longrightarrow> st_scope st \<noteq> Some k \<or> st_size st' = st_size st \<Longrightarrow> scope_ok (put_stage i st st' s) k v"
proof -
  assume "st_request st \<noteq> Some k \<or> st_size st' = st_size st"
  moreover from this have "received k st' = received k st" using mv by (auto simp: received_def moves_def)
  ultimately show "request_ok s k r \<Longrightarrow> request_ok (put_stage i st st' s) k r"
    using mv by (auto simp: request_ok_def moves_total [OF so mv] moves_def)
next
  assume "st_scope st \<noteq> Some k \<or> st_size st' = st_size st"
  moreover from this have "produced k st' = produced k st" using mv by (auto simp: produced_def moves_def)
  ultimately show "scope_ok s k v \<Longrightarrow> scope_ok (put_stage i st st' s) k v"
    using mv by (auto simp: scope_ok_def moves_total [OF so mv] moves_def)
qed

lemma put_stage_ok:
  assumes ok: "store_ok s" and ev: "evolves s i st st'" and q: "used s + (charge st' - charge st) \<le> QuotaBytes s"
  shows "store_ok (put_stage i st st' s)"
proof -
  have so: "stages_ok s" and mv: "moves s i st st'" and eq: "st_size st' = st_size st"
    using ok ev by (auto simp: store_ok_def evolves_def st_size_def)
  have "requests_ok (put_stage i st st' s)" "scopes_ok (put_stage i st st' s)"
    using ok mv put_stage_limits [OF so mv] eq by (auto simp: store_ok_def requests_ok_def scopes_ok_def moves_def)
  with put_stage_parts [OF ok mv q] show ?thesis by (simp add: store_ok_def)
qed

lemma lower_stage_ok:
  "store_ok s \<Longrightarrow> evolves s i st st' \<Longrightarrow> charge st' \<le> charge st \<Longrightarrow> store_ok (put_stage i st st' s)"
  by (rule put_stage_ok) (auto simp: store_ok_def accounts_def)

lemma set_stage_ok:
  assumes "store_ok s" "evolves s i st st'" "charge st' = charge st"
  shows "store_ok (set_stage i st' s)"
  using lower_stage_ok [OF assms(1,2)] assms(3) by (simp add: put_stage_def)

text \<open>What no part of the accounting looks at.\<close>

lemma quiet_flags [simp]:
  "store_ok (s\<lparr>poisoned := b\<rparr>) = store_ok s" "store_ok (s\<lparr>s_closed := b\<rparr>) = store_ok s" "store_ok (s\<lparr>closeErr := e\<rparr>) = store_ok s"
  "the_stage (s\<lparr>poisoned := b\<rparr>) = the_stage s" "the_stage (s\<lparr>s_closed := b\<rparr>) = the_stage s" "the_stage (s\<lparr>closeErr := e\<rparr>) = the_stage s"
  by (simp_all add: store_ok_def store_parts request_ok_def scope_ok_def the_stage_def fun_eq_iff)

lemma quiet_request:
  assumes "store_ok s" "map_of (req_objs s) k = Some r"
    and "r_bytes r' = r_bytes r" "r_limits r' = r_limits r" "r_files r' = r_files r" "r_input r' = r_input r"
  shows "store_ok (set_request k r' s)"
proof -
  have leaf: "leaf_max r' i = leaf_max r i" for i by (simp only: leaf_max_def pointer_of_def assms(4-6))
  have req: "request_ok (set_request k r' s) l q = request_ok s l q" "scope_ok (set_request k r' s) l v = scope_ok s l v" for l q v
    by (simp_all add: request_ok_def scope_ok_def set_request_def the_stage_def)
  have "request_ok s k r" using assms(1,2) by (simp add: store_ok_def requests_ok_def)
  then have "request_ok s k r'" using assms(3-6) leaf by (simp add: request_ok_def)
  then have "requests_ok (set_request k r' s)"
    using assms(1) by (auto simp: store_ok_def requests_ok_def req) (auto simp: set_request_def map_of_update the_stage_def split: if_splits)
  moreover have "scopes_ok (set_request k r' s)"
    using assms(1) by (auto simp: store_ok_def scopes_ok_def req) (auto simp: set_request_def the_stage_def)
  ultimately show ?thesis
    using assms(1) by (simp add: store_ok_def) (simp add: accounts_def places_def stages_ok_def leases_ok_def readers_ok_def table_ok_def set_request_def the_stage_def)
qed

lemma table_apart:
  "accounts (s\<lparr>req_table := t\<rparr>) = accounts s" "places (s\<lparr>req_table := t\<rparr>) = places s" "stages_ok (s\<lparr>req_table := t\<rparr>) = stages_ok s"
  "leases_ok (s\<lparr>req_table := t\<rparr>) = leases_ok s" "readers_ok (s\<lparr>req_table := t\<rparr>) = readers_ok s"
  "requests_ok (s\<lparr>req_table := t\<rparr>) = requests_ok s" "scopes_ok (s\<lparr>req_table := t\<rparr>) = scopes_ok s"
  by (simp_all add: store_parts request_ok_def scope_ok_def the_stage_def)

lemma set_table_ok: "store_ok s \<Longrightarrow> table_ok (s\<lparr>req_table := t\<rparr>) \<Longrightarrow> store_ok (s\<lparr>req_table := t\<rparr>)"
  by (simp add: store_ok_def table_apart)

lemma table_delete_ok: "store_ok s \<Longrightarrow> store_ok (s\<lparr>req_table := AList.delete q (req_table s)\<rparr>)"
  using length_delete [of q "req_table s"]
  by (intro set_table_ok) (auto simp: store_ok_def table_ok_def distinct_keys_delete)

lemma releaseSlotLocked_ok: "store_ok s \<Longrightarrow> store_ok (releaseSlotLocked k s)"
  by (simp add: releaseSlotLocked_def table_delete_ok split: option.split)

lemma stage_okD: "store_ok s \<Longrightarrow> the_stage s i = Some st \<Longrightarrow> stage_ok st"
  by (simp add: store_ok_def stages_ok_def)

lemma stage_ownedD:
  assumes "store_ok s" "the_stage s i = Some st"
  shows "st_request st = Some k \<Longrightarrow> \<exists>r. map_of (req_objs s) k = Some r \<and> request_ok s k r"
    and "st_scope st = Some k \<Longrightarrow> \<exists>v. map_of (scope_objs s) k = Some v \<and> scope_ok s k v \<and> st_request st = None"
proof -
  show "\<exists>r. map_of (req_objs s) k = Some r \<and> request_ok s k r" if "st_request st = Some k"
    using assms that unfolding store_ok_def requests_ok_def by blast
  show "\<exists>v. map_of (scope_objs s) k = Some v \<and> scope_ok s k v \<and> st_request st = None" if "st_scope st = Some k"
    using assms that unfolding store_ok_def scopes_ok_def by blast
qed

lemma retire_stage_ok:
  assumes "store_ok s"
  shows "store_ok (retire_stage i s)"
proof (cases "the_stage s i")
  case (Some st)
  then have "evolves s i st (st\<lparr>st_retired := True\<rparr>)"
    using stage_okD [OF assms Some] by (simp add: evolution)
  from set_stage_ok [OF assms this] Some show ?thesis by (simp add: retire_stage_def charge_def st_size_def)
qed (simp add: retire_stage_def assms)

lemma cleanupLocked_ok:
  assumes "store_ok s"
  shows "store_ok (fst (cleanupLocked io i s))"
proof (cases "the_stage s i")
  case None
  with assms show ?thesis by (simp add: cleanupLocked_def)
next
  case (Some st)
  show ?thesis
  proof (cases "st_retired st \<and> open_readers s i = [] \<and> (st_file st \<longrightarrow> fst (io i))")
    case False
    with assms Some show ?thesis by (auto simp: cleanupLocked_def)
  next
    case True
    have "stage_ok st" by (rule stage_okD [OF assms Some])
    then have ev: "evolves s i st (st\<lparr>st_file := False\<rparr>)" "evolves s i st (st\<lparr>st_file := False, st_reserved := 0, st_live := False\<rparr>)"
      using Some True by (auto simp: evolution)
    have s1: "store_ok (set_stage i (st\<lparr>st_file := False\<rparr>) s)"
      using set_stage_ok [OF assms ev(1)] by (simp add: charge_def st_size_def)
    have "put_stage i st (st\<lparr>st_file := False, st_reserved := 0, st_live := False\<rparr>) s
        = set_stage i (st\<lparr>st_file := False, st_reserved := 0, st_live := False\<rparr>)
            ((set_stage i (st\<lparr>st_file := False\<rparr>) s)\<lparr>used := used s - (st_size st + st_reserved st)\<rparr>)" if "st_live st"
      using that by (simp add: put_stage_def set_stage_def charge_def)
    moreover have "store_ok (put_stage i st (st\<lparr>st_file := False, st_reserved := 0, st_live := False\<rparr>) s)"
      using lower_stage_ok [OF assms ev(2)] \<open>stage_ok st\<close> by (simp add: charge_def stage_ok_def)
    ultimately have "st_live st \<Longrightarrow> store_ok (set_stage i (st\<lparr>st_file := False, st_reserved := 0, st_live := False\<rparr>)
            ((set_stage i (st\<lparr>st_file := False\<rparr>) s)\<lparr>used := used s - (st_size st + st_reserved st)\<rparr>))"
      by simp
    then show ?thesis using True Some s1
      by (auto simp: cleanupLocked_def Let_def releaseSlotLocked_ok used_set_stage split: option.split)
  qed
qed

lemma retire_all_ok: "store_ok s \<Longrightarrow> store_ok (fst (retire_all io is s))"
proof (induction "is" arbitrary: s)
  case (Cons i "is")
  have "store_ok (fst (cleanupLocked io i (retire_stage i s)))"
    by (intro cleanupLocked_ok retire_stage_ok Cons.prems)
  then show ?case using Cons.IH by (simp add: split_beta)
qed simp

text \<open>Readers.\<close>

lemma readers_apart:
  "accounts (s\<lparr>reader_objs := m, n_readers := n\<rparr>) = accounts s" "places (s\<lparr>reader_objs := m, n_readers := n\<rparr>) = places s"
  "stages_ok (s\<lparr>reader_objs := m, n_readers := n\<rparr>) = stages_ok s" "leases_ok (s\<lparr>reader_objs := m, n_readers := n\<rparr>) = leases_ok s"
  "table_ok (s\<lparr>reader_objs := m, n_readers := n\<rparr>) = table_ok s" "requests_ok (s\<lparr>reader_objs := m, n_readers := n\<rparr>) = requests_ok s"
  "scopes_ok (s\<lparr>reader_objs := m, n_readers := n\<rparr>) = scopes_ok s"
  by (simp_all add: store_parts request_ok_def scope_ok_def the_stage_def)

lemma set_readers_ok:
  "store_ok s \<Longrightarrow> readers_ok (s\<lparr>reader_objs := m, n_readers := n\<rparr>) \<Longrightarrow> store_ok (s\<lparr>reader_objs := m, n_readers := n\<rparr>)"
  by (simp add: store_ok_def readers_apart)

lemma keep_readers_ok: "store_ok s \<Longrightarrow> readers_ok (s\<lparr>reader_objs := m\<rparr>) \<Longrightarrow> store_ok (s\<lparr>reader_objs := m\<rparr>)"
  using set_readers_ok [of s "n_readers s" m] by simp

lemma openLocked_ok:
  assumes ok: "store_ok s" and new: "map_of (reader_objs s) rd = None"
  shows "store_ok (fst (openLocked rd i ctxErr opened s))"
proof (cases "the_stage s i")
  case (Some st)
  have "stage_ok st" by (rule stage_okD [OF ok Some])
  then show ?thesis using ok new Some
    by (auto simp: openLocked_def stage_ok_def store_ok_def readers_ok_def readers_apart the_stage_def total_update_new
        distinct_keys_update map_of_update)
qed (simp add: openLocked_def ok)

lemma closeLocked_ok:
  assumes ok: "store_ok s"
  shows "store_ok (fst (closeLocked io closedOk rd s))"
proof (cases "map_of (reader_objs s) rd")
  case (Some r)
  have d: "distinct_keys (reader_objs s)" using ok by (simp add: store_ok_def readers_ok_def)
  have "readers_ok (s\<lparr>reader_objs := AList.update rd (r\<lparr>rd_cancelled := True\<rparr>) (reader_objs s)\<rparr>)"
    using ok Some by (auto simp: store_ok_def readers_ok_def the_stage_def map_of_update distinct_keys_update total_update [OF d Some])
  then have kept: "store_ok (s\<lparr>reader_objs := AList.update rd (r\<lparr>rd_cancelled := True\<rparr>) (reader_objs s)\<rparr>)"
    by (rule keep_readers_ok [OF ok])
  have "readers_ok (s\<lparr>reader_objs := AList.update rd (r\<lparr>rd_cancelled := True, rd_closed := True\<rparr>) (reader_objs s), n_readers := n_readers s - 1\<rparr>)"
    if "\<not> rd_closed r"
    using ok Some that by (fastforce simp: store_ok_def readers_ok_def the_stage_def map_of_update distinct_keys_update total_update [OF d Some])
  then show ?thesis using Some ok kept cleanupLocked_ok [OF set_readers_ok [OF ok]]
    by (simp add: closeLocked_def)
qed (simp add: closeLocked_def ok)

lemma Reader_Read_ok:
  assumes ok: "store_ok s"
  shows "store_ok (fst (Reader_Read rd n ctxErr got s))"
proof (cases "map_of (reader_objs s) rd")
  case (Some r)
  have d: "distinct_keys (reader_objs s)" using ok by (simp add: store_ok_def readers_ok_def)
  have "readers_ok (s\<lparr>reader_objs := AList.update rd (r\<lparr>rd_pos := p\<rparr>) (reader_objs s)\<rparr>)" for p
    using ok Some by (auto simp: store_ok_def readers_ok_def the_stage_def map_of_update distinct_keys_update total_update [OF d Some])
  then have "store_ok (s\<lparr>reader_objs := AList.update rd (r\<lparr>rd_pos := p\<rparr>) (reader_objs s)\<rparr>)" for p
    by (rule keep_readers_ok [OF ok])
  then show ?thesis using Some ok by (auto simp: Reader_Read_def Let_def split: option.split)
qed (simp add: Reader_Read_def ok)

lemma cancel_readers_ok:
  assumes "store_ok s"
  shows "store_ok (cancel_readers is s)"
proof -
  let ?f = "\<lambda>r. if rd_stage r \<in> set is \<and> \<not> rd_closed r then r\<lparr>rd_cancelled := True\<rparr> else r"
  have [simp]: "rd_closed (?f r) = rd_closed r" "rd_stage (?f r) = rd_stage r" for r by simp_all
  have "readers_ok (s\<lparr>reader_objs := map_vals ?f (reader_objs s)\<rparr>)"
    using assms by (auto simp: store_ok_def readers_ok_def the_stage_def map_vals_facts map_of_map_vals simp del: if_split)
  then show ?thesis using keep_readers_ok [OF assms] by (simp add: cancel_readers_def)
qed

lemma close_readers_ok: "store_ok s \<Longrightarrow> store_ok (fst (close_readers io closedOk rds s))"
  by (induction rds arbitrary: s) (simp_all add: split_beta closeLocked_ok)

lemma shut_stages_ok: "store_ok s \<Longrightarrow> store_ok (fst (shut_stages io closedOk is s))"
  by (induction "is" arbitrary: s) (simp_all add: split_beta close_readers_ok cleanupLocked_ok retire_stage_ok)

text \<open>Requests.\<close>

lemma cancelled_ok:
  "store_ok s \<Longrightarrow> map_of (req_objs s) k = Some r \<Longrightarrow> store_ok (set_request k ((cancel_request r)\<lparr>r_state := x\<rparr>) s)"
  by (rule quiet_request) (simp_all add: cancel_request_def)

lemma abortLocked_ok: "store_ok s \<Longrightarrow> store_ok (abortLocked k s)"
  by (simp add: abortLocked_def cancelled_ok split: option.split)

lemma revoke_requests_ok: "store_ok s \<Longrightarrow> store_ok (fold (revoke_request g) ks s)"
  by (induction ks arbitrary: s) (simp_all add: revoke_request_def cancelled_ok split: option.split)

lemma shut_requests_ok: "store_ok s \<Longrightarrow> store_ok (fold shut_request ks s)"
  by (induction ks arbitrary: s) (simp_all add: shut_request_def cancelled_ok split: option.split)

lemma releaseStoppedLocked_ok: "store_ok s \<Longrightarrow> store_ok (fst (releaseStoppedLocked io k s))"
  by (simp add: releaseStoppedLocked_def split_beta releaseSlotLocked_ok retire_all_ok cancelled_ok split: option.split)

lemma Stage_Abort_ok: "store_ok s \<Longrightarrow> store_ok (fst (Stage_Abort io i s))"
  by (simp add: Stage_Abort_def Let_def split_beta abortLocked_ok releaseStoppedLocked_ok cleanupLocked_ok retire_stage_ok split: option.split)

lemma sweep_requests_ok: "store_ok s \<Longrightarrow> store_ok (fst (sweep_requests io now ended ks s))"
proof (induction ks arbitrary: s)
  case (Cons k ks)
  have "store_ok (set_request k (r\<lparr>r_cancelled := True, r_state := Released\<rparr>) s)" if "map_of (req_objs s) k = Some r" for r
    using Cons.prems that by (rule quiet_request) simp_all
  then show ?case using Cons by (simp add: split_beta retire_all_ok releaseSlotLocked_ok split: option.split)
qed simp

lemma Sweep_ok: "store_ok s \<Longrightarrow> store_ok (fst (Sweep io now ended s))"
  by (simp add: Sweep_def split_beta retire_all_ok sweep_requests_ok)

lemma RevokeGeneration_ok: "store_ok s \<Longrightarrow> store_ok (fst (RevokeGeneration io g s))"
  by (simp add: RevokeGeneration_def Let_def split_beta retire_all_ok cancel_readers_ok revoke_requests_ok)

lemma Store_Close_ok: "store_ok s \<Longrightarrow> store_ok (fst (Store_Close io closedOk handlesOk s))"
  by (simp add: Store_Close_def Let_def split_beta shut_stages_ok shut_requests_ok)

text \<open>Leases.\<close>

lemma reserveLocked_cases:
  "reserveLocked n s = (s1, e) \<Longrightarrow> (e = None \<and> 0 \<le> n \<and> used s + n \<le> QuotaBytes s \<and> s1 = s\<lparr>used := used s + n\<rparr>) \<or> (e \<noteq> None \<and> s1 = s)"
  by (auto simp: reserveLocked_def split: option.splits if_splits)

lemma leases_apart:
  "stages_ok (s\<lparr>used := u, lease_objs := m\<rparr>) = stages_ok s" "readers_ok (s\<lparr>used := u, lease_objs := m\<rparr>) = readers_ok s"
  "table_ok (s\<lparr>used := u, lease_objs := m\<rparr>) = table_ok s" "requests_ok (s\<lparr>used := u, lease_objs := m\<rparr>) = requests_ok s"
  "scopes_ok (s\<lparr>used := u, lease_objs := m\<rparr>) = scopes_ok s"
  by (simp_all add: store_parts request_ok_def scope_ok_def the_stage_def)

lemma Reserve_ok:
  assumes ok: "store_ok s" and new: "map_of (lease_objs s) k = None"
  shows "store_ok (fst (Reserve k n s))"
proof (cases "n < 1 \<or> n_leases s + int (length (live s)) \<ge> MaxObjects s \<or> snd (reserveLocked n s) \<noteq> None")
  case True
  with ok show ?thesis using reserveLocked_cases [of n s] by (auto simp: Reserve_def split: prod.splits option.splits)
next
  case False
  then have s1: "reserveLocked n s = (s\<lparr>used := used s + n\<rparr>, None)" "used s + n \<le> QuotaBytes s"
    using reserveLocked_cases [of n s] by (cases "reserveLocked n s"; auto)+
  let ?s = "s\<lparr>used := used s + n, lease_objs := AList.update k \<lparr>rs_bytes = n, rs_released = False\<rparr> (lease_objs s)\<rparr>"
  have "accounts ?s" "places ?s" "leases_ok ?s"
    using ok False s1(2) new
    by (auto simp: store_ok_def accounts_def places_def leases_ok_def total_update_new lease_charge_def n_live n_leases_total distinct_keys_update map_of_update)
  then have "store_ok ?s" using ok by (simp add: store_ok_def leases_apart)
  then show ?thesis using False s1(1) by (simp add: Reserve_def)
qed

lemma total_stages_nonneg: "stages_ok s \<Longrightarrow> 0 \<le> total_of charge (stage_objs s)"
  by (rule total_nonneg) (auto simp: stages_ok_def the_stage_def charge_def stage_ok_def)

lemma total_leases_nonneg: "leases_ok s \<Longrightarrow> 0 \<le> total_of lease_charge (lease_objs s)"
  by (rule total_nonneg) (fastforce simp: leases_ok_def lease_charge_def)+

lemma Release_ok:
  assumes ok: "store_ok s"
  shows "store_ok (Release k s)"
proof (cases "map_of (lease_objs s) k")
  case (Some r)
  have d: "distinct_keys (lease_objs s)" "1 \<le> rs_bytes r" using ok Some by (auto simp: store_ok_def leases_ok_def)
  let ?s = "s\<lparr>used := used s - rs_bytes r, lease_objs := AList.update k (r\<lparr>rs_released := True\<rparr>) (lease_objs s)\<rparr>"
  have "accounts ?s" if "\<not> rs_released r"
    using ok d that by (simp add: store_ok_def accounts_def total_update [OF d(1) Some] lease_charge_def)
  moreover have "places ?s" "leases_ok ?s" if "\<not> rs_released r"
    using ok that Some
    by (auto simp: store_ok_def places_def leases_ok_def total_update [OF d(1) Some] distinct_keys_update map_of_update)
  ultimately have "\<not> rs_released r \<Longrightarrow> store_ok ?s" using ok by (simp add: store_ok_def leases_apart)
  then show ?thesis using Some ok by (simp add: Release_def)
qed (simp add: Release_def ok)

text \<open>New stages.\<close>

definition blank :: "stage \<Rightarrow> bool" where
  "blank st \<longleftrightarrow> st_bytes st = [] \<and> st_reserved st = 0 \<and> st_live st \<and> \<not> st_ready st \<and> \<not> st_retained st \<and> \<not> st_retired st \<and> \<not> st_sealed st"

definition admits :: "store \<Rightarrow> string \<Rightarrow> bool" where
  "admits s i \<longleftrightarrow> the_stage s i = None \<and> int (length (live s)) + n_leases s < MaxObjects s"

lemma newStage_cases:
  assumes "newStage i io ctx o' kind name media req sc s = (s1, res)" "the_stage s i = None"
  shows "(\<exists>e. res = Inl e \<and> (s1 = s \<or> s1 = s\<lparr>poisoned := True\<rparr>))
    \<or> (\<exists>st. res = Inr i \<and> s1 = set_stage i st s \<and> admits s i \<and> blank st \<and> st_request st = req \<and> st_scope st = sc)"
  using assms by (auto simp: newStage_def blank_def admits_def split: option.splits if_splits prod.splits)

lemma requests_apart:
  "accounts (set_request k r s) = accounts s" "places (set_request k r s) = places s" "stages_ok (set_request k r s) = stages_ok s"
  "leases_ok (set_request k r s) = leases_ok s" "readers_ok (set_request k r s) = readers_ok s"
  "table_ok (set_request k r s) = table_ok s" "scopes_ok (set_request k r s) = scopes_ok s"
  by (simp_all add: store_parts scope_ok_def the_stage_def set_request_def)

lemma scopes_apart:
  "accounts (s\<lparr>scope_objs := m\<rparr>) = accounts s" "places (s\<lparr>scope_objs := m\<rparr>) = places s" "stages_ok (s\<lparr>scope_objs := m\<rparr>) = stages_ok s"
  "leases_ok (s\<lparr>scope_objs := m\<rparr>) = leases_ok s" "readers_ok (s\<lparr>scope_objs := m\<rparr>) = readers_ok s"
  "table_ok (s\<lparr>scope_objs := m\<rparr>) = table_ok s" "requests_ok (s\<lparr>scope_objs := m\<rparr>) = requests_ok s"
  by (simp_all add: store_parts request_ok_def the_stage_def)

lemma blank_total: "the_stage s i = None \<Longrightarrow> total_of f (stage_objs (set_stage i st s)) = total_of f (stage_objs s) + f st"
  by (simp add: set_stage_def the_stage_def total_update_new)

lemma blank_measures: "blank st \<Longrightarrow> charge st = 0 \<and> received k st = 0 \<and> produced k st = 0 \<and> st_size st = 0 \<and> stage_ok st"
  by (simp add: blank_def charge_def received_def produced_def st_size_def stage_ok_def)

lemma new_stage_parts:
  assumes ok: "store_ok s" and ad: "admits s i" and st: "blank st"
  shows "accounts (set_stage i st s)" "places (set_stage i st s)" "stages_ok (set_stage i st s)" "leases_ok (set_stage i st s)"
    "readers_ok (set_stage i st s)" "table_ok (set_stage i st s)"
proof -
  have new: "the_stage s i = None" using ad by (simp add: admits_def)
  note m = blank_total [OF new] blank_measures [OF st]
  show "accounts (set_stage i st s)" "places (set_stage i st s)"
    using ok ad st m by (auto simp: store_ok_def accounts_def places_def admits_def n_live n_leases_total blank_def) (auto simp: set_stage_def)
  show "stages_ok (set_stage i st s)"
    using ok m by (auto simp: store_ok_def stages_ok_def set_stage_def distinct_keys_update the_stage_def map_of_update)
  show "leases_ok (set_stage i st s)" "table_ok (set_stage i st s)"
    using ok by (auto simp: store_ok_def leases_ok_def table_ok_def set_stage_def)
  have "rd_stage r \<noteq> i" if "map_of (reader_objs s) rd = Some r" for rd r
    using ok new that by (fastforce simp: store_ok_def readers_ok_def)
  then show "readers_ok (set_stage i st s)"
    using ok by (auto simp: store_ok_def readers_ok_def) (auto simp: set_stage_def)
qed

lemma new_stage_limits:
  assumes new: "the_stage s i = None" and st: "blank st"
  shows "request_ok s k r \<Longrightarrow> st_request st \<noteq> Some k \<Longrightarrow> request_ok (set_stage i st s) k r"
    and "scope_ok s k v \<Longrightarrow> st_scope st \<noteq> Some k \<Longrightarrow> scope_ok (set_stage i st s) k v"
  using new blank_measures [OF st, of k] by (auto simp: request_ok_def scope_ok_def blank_total [OF new] split: if_splits)

lemma new_stage_ok:
  assumes ok: "store_ok s" and ad: "admits s i" and st: "blank st" "st_request st = None" "st_scope st = None"
  shows "store_ok (set_stage i st s)"
proof -
  have new: "the_stage s i = None" using ad by (simp add: admits_def)
  have "req_objs (set_stage i st s) = req_objs s" "scope_objs (set_stage i st s) = scope_objs s"
    by (simp_all add: set_stage_def)
  then have "requests_ok (set_stage i st s)" "scopes_ok (set_stage i st s)"
    using ok st new_stage_limits [OF new st(1)] by (auto simp: store_ok_def requests_ok_def scopes_ok_def split: if_splits)
  with new_stage_parts [OF ok ad st(1)] show ?thesis by (simp add: store_ok_def)
qed

lemma pointer_of_new:
  assumes "map_of (r_files r) p = None" "j \<noteq> i"
  shows "pointer_of (r\<lparr>r_files := AList.update p i (r_files r)\<rparr>) j = pointer_of r j"
proof -
  have "find (\<lambda>pi. snd pi = j) (AList.update p i m) = find (\<lambda>pi. snd pi = j) m" if "map_of m p = None" for m :: "(string \<times> string) list"
    using that assms(2) by (induction m) (auto split: if_splits)
  with assms(1) show ?thesis by (simp add: pointer_of_def)
qed

lemma limits_apart:
  "request_ok (set_request l q s) k r = request_ok s k r" "scope_ok (set_request l q s) k v = scope_ok s k v"
  "request_ok (s\<lparr>scope_objs := m\<rparr>) k r = request_ok s k r" "scope_ok (s\<lparr>scope_objs := m\<rparr>) k v = scope_ok s k v"
  "the_stage (set_request l q s) j = the_stage s j" "the_stage (s\<lparr>scope_objs := m\<rparr>) j = the_stage s j"
  by (simp_all add: request_ok_def scope_ok_def set_request_def the_stage_def)

lemma set_stage_tables [simp]:
  "req_objs (set_stage i st s) = req_objs s" "scope_objs (set_stage i st s) = scope_objs s"
  "reader_objs (set_stage i st s) = reader_objs s"
  by (simp_all add: set_stage_def)

lemma req_objs_set: "map_of (req_objs (set_request k r s)) l = (if l = k then Some r else map_of (req_objs s) l)"
  by (simp add: set_request_def map_of_update)

lemma files_update_new: "map_of m p = None \<Longrightarrow> snd ` set (AList.update p i m) = insert i (snd ` set m)"
  by (induction m) (auto split: if_splits)

lemma new_file_ok:
  assumes ok: "store_ok s" and ad: "admits s i" and st: "blank st" "st_request st = Some k" "st_scope st = None"
    and r: "map_of (req_objs s) k = Some r" "map_of (r_files r) p = None" "int (length (r_files r)) < MaxFiles (r_limits r)"
  shows "store_ok (set_request k (r\<lparr>r_files := AList.update p i (r_files r)\<rparr>) (set_stage i st s))"
proof -
  let ?r = "r\<lparr>r_files := AList.update p i (r_files r)\<rparr>"
  have new: "the_stage s i = None" using ad by (simp add: admits_def)
  have leaf: "leaf_max ?r j = leaf_max r j" if "j \<noteq> i" for j
    using pointer_of_new [OF r(2) that] by (simp add: leaf_max_def split: option.split)
  have files: "snd ` set (AList.update p i (r_files r)) = insert i (snd ` set (r_files r))"
    by (rule files_update_new [OF r(2)])
  have "request_ok s k r" using ok r(1) by (simp add: store_ok_def requests_ok_def)
  then have "request_ok (set_stage i st s) k ?r"
    using blank_measures [OF st(1), of k] r(3) leaf length_update_new [OF r(2), of i] files st(2)
    by (auto simp: request_ok_def blank_total [OF new])
  then have "requests_ok (set_request k ?r (set_stage i st s))" "scopes_ok (set_stage i st s)"
    using ok st r(1) new_stage_limits [OF new st(1)]
    by (auto simp: store_ok_def requests_ok_def scopes_ok_def limits_apart req_objs_set split: if_splits)
  with new_stage_parts [OF ok ad st(1)] show ?thesis by (simp add: store_ok_def requests_apart)
qed

lemma with_request_ok:
  assumes "store_ok s" "\<And>r. map_of (req_objs s) k = Some r \<Longrightarrow> check_request s r o' x ctxErr = None \<Longrightarrow> store_ok (fst (f r s))"
  shows "store_ok (fst (with_request k o' x ctxErr f s))"
  using assms by (auto simp: with_request_def split: option.split)

lemma NewFile_ok:
  assumes ok: "store_ok s" and new: "the_stage s i = None"
  shows "store_ok (fst (NewFile i io ctxErr late k o' p name media s))"
  unfolding NewFile_def
proof (rule with_request_ok [OF ok])
  fix r assume r: "map_of (req_objs s) k = Some r"
  let ?n = "newStage i io (if late then Done_ctx else Live_ctx) o' ''i'' name media (Some k) None s"
  obtain s1 res where n: "?n = (s1, res)" by force
  show "store_ok (fst (if file_node r p = None then (s, Inl ''VALIDATION_FAILED'')
       else if map_of (r_files r) p \<noteq> None then (s, Inl ''CONFLICT'')
       else if int (length (r_files r)) \<ge> MaxFiles (r_limits r) then (s, Inl ''LIMIT_EXCEEDED'')
       else case ?n of
         (s1, Inl e) \<Rightarrow> (s1, Inl e)
       | (s1, Inr st) \<Rightarrow> (set_request k (r\<lparr>r_files := AList.update p i (r_files r)\<rparr>) s1, Inr st)))"
    using newStage_cases [OF n new] ok new_file_ok [OF ok, of i _ k r p] r by (auto simp: n)
qed

lemma new_output_ok:
  assumes ok: "store_ok s" and ad: "admits s i" and st: "blank st" "st_request st = None" "st_scope st = Some k"
    and v: "map_of (scope_objs s) k = Some v" "int (length (v_stages v)) < ol_MaxFiles (v_limits v)"
  shows "store_ok ((set_stage i st s)\<lparr>scope_objs := AList.update k (v\<lparr>v_stages := v_stages v @ [i]\<rparr>) (scope_objs s)\<rparr>)"
proof -
  let ?v = "v\<lparr>v_stages := v_stages v @ [i]\<rparr>"
  have new: "the_stage s i = None" using ad by (simp add: admits_def)
  have "scope_ok s k v" using ok v(1) by (simp add: store_ok_def scopes_ok_def)
  then have "scope_ok (set_stage i st s) k ?v"
    using blank_measures [OF st(1), of k] v(2) st(3) by (auto simp: scope_ok_def blank_total [OF new])
  then have "scopes_ok ((set_stage i st s)\<lparr>scope_objs := AList.update k ?v (scope_objs s)\<rparr>)" "requests_ok (set_stage i st s)"
    using ok st v(1) new_stage_limits [OF new st(1)]
    by (auto simp: store_ok_def requests_ok_def scopes_ok_def limits_apart map_of_update split: if_splits)
  with new_stage_parts [OF ok ad st(1)] show ?thesis by (simp add: store_ok_def scopes_apart)
qed

lemma Scope_Begin_ok:
  assumes ok: "store_ok s" and new: "the_stage s i = None"
  shows "store_ok (fst (Scope_Begin i io ctx k name media s))"
proof (cases "map_of (scope_objs s) k")
  case (Some v)
  obtain s1 res where n: "newStage i io ctx (v_owner v) ''o'' name media None (Some k) s = (s1, res)" by force
  show ?thesis
    using newStage_cases [OF n new] ok new_output_ok [OF ok, of i _ k v] Some by (auto simp: Scope_Begin_def n)
qed (simp add: Scope_Begin_def ok)

lemma NewScratch_ok:
  assumes ok: "store_ok s" and new: "the_stage s i = None"
  shows "store_ok (fst (NewScratch i io ctx name media b s))"
proof (cases "0 \<le> b \<and> snd (reserveLocked b s) = None")
  case False
  then show ?thesis using reserveLocked_cases [of b s] ok by (cases "reserveLocked b s") (auto simp: NewScratch_def)
next
  case True
  let ?s = "s\<lparr>used := used s + b\<rparr>"
  have s1: "reserveLocked b s = (?s, None)" and q: "used s + b \<le> QuotaBytes s"
    using reserveLocked_cases [of b s] True by (cases "reserveLocked b s"; auto)+
  obtain s2 res where n: "newStage i io ctx scratch_owner ''o'' name media None None ?s = (s2, res)" by force
  have new': "the_stage ?s i = None" using new by (simp add: the_stage_def)
  from newStage_cases [OF n new'] show ?thesis
  proof (elim disjE exE conjE)
    fix e assume "res = Inl e" "s2 = ?s"
    then show ?thesis using True s1 n ok by (simp add: NewScratch_def)
  next
    fix e assume "res = Inl e" "s2 = ?s\<lparr>poisoned := True\<rparr>"
    then show ?thesis using True s1 n ok by (simp add: NewScratch_def)
  next
    fix st assume st: "res = Inr i" "s2 = set_stage i st ?s" "admits ?s i" "blank st" "st_request st = None" "st_scope st = None"
    have "admits s i" using st(3) by (simp add: admits_def the_stage_def live_def n_leases_def)
    then have ok1: "store_ok (set_stage i st s)" using new_stage_ok [OF ok] st by simp
    have "evolves (set_stage i st s) i st (st\<lparr>st_reserved := b\<rparr>)"
      using st(4) True by (simp add: evolution blank_def)
    from put_stage_ok [OF ok1 this] have "store_ok (put_stage i st (st\<lparr>st_reserved := b\<rparr>) (set_stage i st s))"
      using q st(4) by (simp add: charge_def blank_def used_set_stage set_stage_def st_size_def)
    moreover have "put_stage i st (st\<lparr>st_reserved := b\<rparr>) (set_stage i st s) = set_stage i (st\<lparr>st_reserved := b\<rparr>) s2"
      using st(2,4) by (simp add: put_stage_def set_stage_def charge_def blank_def st_size_def)
    ultimately show ?thesis using st(1,2) s1 n True by (simp add: NewScratch_def)
  qed
qed

text \<open>Writing, sealing and completing.\<close>

lemma grow_limits:
  assumes so: "stages_ok s" and mv: "moves s i st st'" and n: "st_size st' = st_size st + n" "0 \<le> n"
  shows "request_ok s k r \<Longrightarrow> st_request st = Some k \<Longrightarrow> n \<le> MaxTotalFileBytes (r_limits r) - r_bytes r \<Longrightarrow> n \<le> leaf_max r i - st_size st
      \<Longrightarrow> request_ok (put_stage i st st' s) k (r\<lparr>r_bytes := r_bytes r + n\<rparr>)"
    and "scope_ok s k v \<Longrightarrow> st_scope st = Some k \<Longrightarrow> n \<le> ol_MaxTotalBytes (v_limits v) - v_bytes v \<Longrightarrow> n \<le> ol_MaxFileBytes (v_limits v) - st_size st
      \<Longrightarrow> scope_ok (put_stage i st st' s) k (v\<lparr>v_bytes := v_bytes v + n\<rparr>)"
proof -
  have m: "the_stage s i = Some st" "st_request st' = st_request st" "st_scope st' = st_scope st" using mv by (simp_all add: moves_def)
  have leaf: "leaf_max (r\<lparr>r_bytes := b\<rparr>) j = leaf_max r j" for r b j by (simp add: leaf_max_def pointer_of_def split: option.split)
  show "request_ok s k r \<Longrightarrow> st_request st = Some k \<Longrightarrow> n \<le> MaxTotalFileBytes (r_limits r) - r_bytes r \<Longrightarrow> n \<le> leaf_max r i - st_size st
      \<Longrightarrow> request_ok (put_stage i st st' s) k (r\<lparr>r_bytes := r_bytes r + n\<rparr>)"
    using m n by (auto simp: request_ok_def moves_total [OF so mv] received_def leaf)
  show "scope_ok s k v \<Longrightarrow> st_scope st = Some k \<Longrightarrow> n \<le> ol_MaxTotalBytes (v_limits v) - v_bytes v \<Longrightarrow> n \<le> ol_MaxFileBytes (v_limits v) - st_size st
      \<Longrightarrow> scope_ok (put_stage i st st' s) k (v\<lparr>v_bytes := v_bytes v + n\<rparr>)"
    using m n by (auto simp: scope_ok_def moves_total [OF so mv] produced_def)
qed

lemma grow_requests:
  assumes ok: "store_ok s" and mv: "moves s i st st'" and n: "st_size st' = st_size st + n" "0 \<le> n" "n \<le> m"
    and fits: "\<not> request_refuses s st i m"
  shows "requests_ok (add_request_bytes (st_request st) n (put_stage i st st' s))"
proof -
  have so: "stages_ok s" and st: "the_stage s i = Some st" "st_request st' = st_request st" using ok mv by (auto simp: store_ok_def moves_def)
  have reqs: "map_of (req_objs s) k = Some r \<Longrightarrow> request_ok s k r" for k r using ok by (simp add: store_ok_def requests_ok_def)
  have owned: "the_stage s j = Some x \<Longrightarrow> st_request x = Some k \<Longrightarrow> map_of (req_objs s) k \<noteq> None" for j x k
    using ok by (simp add: store_ok_def requests_ok_def)
  show ?thesis
  proof (cases "st_request st")
    case None
    then have "request_ok (put_stage i st st' s) k r" if "map_of (req_objs s) k = Some r" for k r
      using put_stage_limits(1) [OF so mv reqs [OF that]] by simp
    then show ?thesis using None st owned by (auto simp: add_request_bytes_def requests_ok_def)
  next
    case (Some k)
    obtain r where r: "map_of (req_objs s) k = Some r" using owned [OF st(1) Some] by auto
    have f: "n \<le> MaxTotalFileBytes (r_limits r) - r_bytes r" "n \<le> leaf_max r i - st_size st"
      using fits Some r n(3) by (auto simp: request_refuses_def)
    have "request_ok (put_stage i st st' s) k (r\<lparr>r_bytes := r_bytes r + n\<rparr>)"
      by (rule grow_limits(1) [OF so mv n(1,2) reqs [OF r] Some f])
    moreover have "request_ok (put_stage i st st' s) l q" if "map_of (req_objs s) l = Some q" "l \<noteq> k" for l q
      using put_stage_limits(1) [OF so mv reqs [OF that(1)]] Some that(2) by simp
    ultimately show ?thesis using Some r st owned
      by (auto simp: add_request_bytes_def requests_ok_def limits_apart req_objs_set split: if_splits)
  qed
qed

lemma grow_scopes:
  assumes ok: "store_ok s" and mv: "moves s i st st'" and n: "st_size st' = st_size st + n" "0 \<le> n" "n \<le> m"
    and fits: "\<not> scope_refuses s st m"
  shows "scopes_ok (add_scope_bytes (st_scope st) n (put_stage i st st' s))"
proof -
  have so: "stages_ok s" and st: "the_stage s i = Some st" "st_scope st' = st_scope st" "st_request st' = st_request st"
    using ok mv by (auto simp: store_ok_def moves_def)
  have scs: "map_of (scope_objs s) k = Some v \<Longrightarrow> scope_ok s k v" for k v using ok by (simp add: store_ok_def scopes_ok_def)
  have owned: "the_stage s j = Some x \<Longrightarrow> st_scope x = Some k \<Longrightarrow> map_of (scope_objs s) k \<noteq> None \<and> st_request x = None" for j x k
    using ok by (simp add: store_ok_def scopes_ok_def)
  show ?thesis
  proof (cases "st_scope st")
    case None
    then have "scope_ok (put_stage i st st' s) k v" if "map_of (scope_objs s) k = Some v" for k v
      using put_stage_limits(2) [OF so mv scs [OF that]] by simp
    then show ?thesis using None st owned by (auto simp: add_scope_bytes_def scopes_ok_def)
  next
    case (Some k)
    obtain v where v: "map_of (scope_objs s) k = Some v" using owned [OF st(1) Some] by auto
    have f: "n \<le> ol_MaxTotalBytes (v_limits v) - v_bytes v" "n \<le> ol_MaxFileBytes (v_limits v) - st_size st"
      using fits Some v n(3) by (auto simp: scope_refuses_def)
    have "scope_ok (put_stage i st st' s) k (v\<lparr>v_bytes := v_bytes v + n\<rparr>)"
      by (rule grow_limits(2) [OF so mv n(1,2) scs [OF v] Some f])
    moreover have "scope_ok (put_stage i st st' s) l q" if "map_of (scope_objs s) l = Some q" "l \<noteq> k" for l q
      using put_stage_limits(2) [OF so mv scs [OF that(1)]] Some that(2) by simp
    ultimately show ?thesis using Some v st owned
      by (auto simp: add_scope_bytes_def scopes_ok_def limits_apart map_of_update split: if_splits)
  qed
qed

lemma bytes_commute: "add_scope_bytes q n (add_request_bytes p n s) = add_request_bytes p n (add_scope_bytes q n s)"
  by (simp add: add_scope_bytes_def add_request_bytes_def set_request_def split: option.split)

lemma bytes_apart:
  "requests_ok (add_scope_bytes q n s) = requests_ok s" "scopes_ok (add_request_bytes p n s) = scopes_ok s"
  "accounts (add_scope_bytes q n s) = accounts s" "accounts (add_request_bytes p n s) = accounts s"
  "places (add_scope_bytes q n s) = places s" "places (add_request_bytes p n s) = places s"
  "stages_ok (add_scope_bytes q n s) = stages_ok s" "stages_ok (add_request_bytes p n s) = stages_ok s"
  "leases_ok (add_scope_bytes q n s) = leases_ok s" "leases_ok (add_request_bytes p n s) = leases_ok s"
  "readers_ok (add_scope_bytes q n s) = readers_ok s" "readers_ok (add_request_bytes p n s) = readers_ok s"
  "table_ok (add_scope_bytes q n s) = table_ok s" "table_ok (add_request_bytes p n s) = table_ok s"
  by (simp_all add: add_scope_bytes_def add_request_bytes_def requests_apart scopes_apart split: option.split)

lemma grow_ok:
  assumes ok: "store_ok s" and mv: "moves s i st st'" and q: "used s + (charge st' - charge st) \<le> QuotaBytes s"
    and n: "st_size st' = st_size st + n" "0 \<le> n" "n \<le> m" and fits: "\<not> request_refuses s st i m" "\<not> scope_refuses s st m"
  shows "store_ok (add_scope_bytes (st_scope st) n (add_request_bytes (st_request st) n (put_stage i st st' s)))"
  using put_stage_parts [OF ok mv q] grow_requests [OF ok mv n fits(1)] grow_scopes [OF ok mv n fits(2)]
  by (simp add: store_ok_def bytes_apart) (simp add: bytes_commute bytes_apart)

lemma Stage_Write_ok:
  assumes ok: "store_ok s"
  shows "store_ok (fst (Stage_Write i p ctxErr w s))"
proof (cases "the_stage s i")
  case (Some st)
  have sok: "stage_ok st" by (rule stage_okD [OF ok Some])
  define m where "m = int (length p)"
  define pre where "pre = min m (st_reserved st)"
  define n where "n = (if fst w < 0 \<or> fst w > m then 0 else nat (fst w))"
  define err where "err = ((fst w < 0 \<or> fst w > m) \<or> snd w \<or> int n \<noteq> m)"
  define st' where "st' = st\<lparr>st_reserved := st_reserved st - pre, st_bytes := st_bytes st @ take n p, st_failed := err\<rparr>"
  have n: "int n \<le> m" "st_size st' = st_size st + int n" by (auto simp: n_def m_def st'_def st_size_def)
  obtain s1 e where r: "reserveLocked (m - pre) s = (s1, e)" by force
  show ?thesis
  proof (cases "st_retired st \<or> st_sealed st \<or> st_failed st \<or> stage_ctx_done s st ctxErr \<or> length p > 65536
      \<or> request_refuses s st i m \<or> scope_refuses s st m \<or> e \<noteq> None")
    case True
    then show ?thesis using Some ok r reserveLocked_cases [OF r] by (auto simp: Stage_Write_def m_def [symmetric] pre_def [symmetric] Let_def)
  next
    case False
    have s1: "s1 = s\<lparr>used := used s + (m - pre)\<rparr>" "used s + (m - pre) \<le> QuotaBytes s" using False reserveLocked_cases [OF r] by auto
    have mv: "moves s i st st'" using sok False Some by (auto simp: moves_def st'_def stage_ok_def pre_def)
    have ch: "charge st' - charge st = int n - pre" using n(2) sok False by (auto simp: charge_def st'_def stage_ok_def)
    have "store_ok (add_scope_bytes (st_scope st) (int n) (add_request_bytes (st_request st) (int n) (put_stage i st st' s)))"
      using False n s1(2) ch by (intro grow_ok [OF ok mv, where m = m]) auto
    moreover have "put_stage i st st' s = set_stage i st' (s1\<lparr>used := used s1 - (m - int n)\<rparr>)"
      using ch s1(1) by (simp add: put_stage_def)
    ultimately show ?thesis using False Some r
      by (simp add: Stage_Write_def m_def [symmetric] pre_def [symmetric] n_def [symmetric] err_def st'_def Let_def)
  qed
qed (simp add: Stage_Write_def ok)

lemma sealLocked_ok:
  assumes ok: "store_ok s"
  shows "store_ok (fst (sealLocked i ctxErr diskErr s))"
proof (cases "the_stage s i")
  case (Some st)
  let ?st = "\<lambda>x. st\<lparr>st_sealed := True, st_reserved := 0, st_file := False, st_failed := x\<rparr>"
  have sok: "stage_ok st" by (rule stage_okD [OF ok Some])
  have "store_ok (put_stage i st (?st x) s)" if "\<not> st_retired st" "\<not> st_sealed st" for x
    using sok that Some by (intro lower_stage_ok [OF ok]) (auto simp: evolution charge_def st_size_def)
  moreover have "put_stage i st (?st x) s = set_stage i (?st x) (s\<lparr>used := used s - st_reserved st\<rparr>)" if "\<not> st_retired st" for x
    using sok that by (simp add: put_stage_def charge_def st_size_def stage_ok_def)
  ultimately show ?thesis using ok Some by (simp add: sealLocked_def Let_def)
qed (simp add: sealLocked_def ok)

lemma ready_ok:
  assumes ok: "store_ok s" and st: "the_stage s i = Some st" "st_sealed st" "\<not> st_failed st"
  shows "store_ok (set_stage i (st\<lparr>st_ready := True\<rparr>) s)"
  using stage_okD [OF ok st(1)] st by (intro set_stage_ok [OF ok]) (auto simp: evolution charge_def st_size_def)

lemma Complete_ok: "store_ok s \<Longrightarrow> store_ok (fst (Complete sha ctxErr k o' i sz digest s))"
  unfolding Complete_def by (rule with_request_ok) (auto simp: Let_def ready_ok split: option.split sum.split)

lemma Commit_ok: "store_ok s \<Longrightarrow> store_ok (fst (Commit L sha ctxErr k o' params s))"
  unfolding Commit_def by (rule with_request_ok) (auto intro: quiet_request split: sum.split)

lemma Start_ok: "store_ok s \<Longrightarrow> store_ok (fst (Start ctxErr k o' execution s))"
  unfolding Start_def by (rule with_request_ok) (auto intro: quiet_request)

lemma Request_Open_ok:
  "store_ok s \<Longrightarrow> map_of (reader_objs s) rd = None \<Longrightarrow> store_ok (fst (Request_Open sha rd ex opened k o' v s))"
  unfolding Request_Open_def by (rule with_request_ok) (auto simp: openLocked_ok split: option.split)

lemma Finish_ok:
  "store_ok s \<Longrightarrow> map_of (reader_objs s) rd = None \<Longrightarrow> store_ok (fst (Finish sha rd ctxErr opened i m s))"
  by (auto simp: Finish_def ready_ok intro!: openLocked_ok split: option.split)

lemma OpenOutput_ok:
  "store_ok s \<Longrightarrow> map_of (reader_objs s) rd = None \<Longrightarrow> store_ok (fst (OpenOutput rd ctx opened now o' i s))"
  by (auto simp: OpenOutput_def intro!: openLocked_ok split: option.split)

lemma Store_Output_ok:
  assumes ok: "store_ok s" and new: "map_of (scope_objs s) k = None"
  shows "store_ok (fst (Store_Output k o' l s))"
proof -
  let ?v = "\<lparr>v_owner = o', v_limits = l, v_stages = [], v_bytes = 0, v_published = False\<rparr>"
  have none: "the_stage s i = Some st \<Longrightarrow> st_scope st \<noteq> Some k" for i st
    using stage_ownedD(2) [OF ok] new by fastforce
  then have "total_of (produced k) (stage_objs s) = 0"
    using ok by (intro total_zero) (auto simp: produced_def the_stage_def store_ok_def stages_ok_def)
  then have "scope_ok s k ?v" if "1 \<le> ol_MaxFileBytes l" "ol_MaxFileBytes l \<le> ol_MaxTotalBytes l" "1 \<le> ol_MaxFiles l"
    using that none by (auto simp: scope_ok_def)
  then have "scopes_ok (s\<lparr>scope_objs := AList.update k ?v (scope_objs s)\<rparr>)"
    if "1 \<le> ol_MaxFileBytes l" "ol_MaxFileBytes l \<le> ol_MaxTotalBytes l" "1 \<le> ol_MaxFiles l"
    using ok that by (auto simp: store_ok_def scopes_ok_def limits_apart map_of_update)
  then show ?thesis using ok by (auto simp: Store_Output_def store_ok_def scopes_apart split: option.split)
qed

lemma new_request_ok:
  assumes ok: "store_ok s" and new: "map_of (req_objs s) k = None" and t: "map_of (req_table s) q = None" "int (length (req_table s)) < MaxPending s"
    and r: "r_bytes r = 0" "r_files r = []" "1 \<le> MaxFileBytes (r_limits r)" "MaxFileBytes (r_limits r) \<le> MaxTotalFileBytes (r_limits r)" "1 \<le> MaxFiles (r_limits r)"
  shows "store_ok (set_request k r (s\<lparr>req_table := AList.update q k (req_table s)\<rparr>))"
proof -
  let ?s = "s\<lparr>req_table := AList.update q k (req_table s)\<rparr>"
  have ok1: "store_ok ?s"
    using ok t by (intro set_table_ok) (auto simp: store_ok_def table_ok_def distinct_keys_update length_update_new)
  have none: "the_stage ?s i = Some st \<Longrightarrow> st_request st \<noteq> Some k" for i st
    using stage_ownedD(1) [OF ok1] new by fastforce
  then have "total_of (received k) (stage_objs ?s) = 0"
    using ok1 by (intro total_zero) (auto simp: received_def the_stage_def store_ok_def stages_ok_def)
  then have "request_ok ?s k r" using r none by (auto simp: request_ok_def)
  then have "requests_ok (set_request k r ?s)"
    using ok1 by (auto simp: store_ok_def requests_ok_def limits_apart req_objs_set)
  then show ?thesis using ok1 by (simp add: store_ok_def requests_apart)
qed

lemma BeginInput_ok:
  assumes ok: "store_ok s" and new: "map_of (req_objs s) k = None"
  shows "store_ok (fst (BeginInput k ctx cd o' cap d now s))"
  using ok new_request_ok [OF ok new] by (auto simp: BeginInput_def Let_def split: option.split)

lemma retain_stages_ok:
  assumes "store_ok s" "\<forall>i \<in> set is. \<exists>st. the_stage s i = Some st \<and> st_ready st \<and> st_request st = None"
  shows "store_ok (fold (retain_stage t) is s)"
  using assms
proof (induction "is" arbitrary: s)
  case (Cons i "is")
  then obtain st where st: "the_stage s i = Some st" "st_ready st" "st_request st = None" by auto
  have "evolves s i st (st\<lparr>st_retained := True, st_expires := t\<rparr>)"
    using st stage_okD [OF Cons.prems(1) st(1)] by (auto simp: evolution)
  from set_stage_ok [OF Cons.prems(1) this] have "store_ok (retain_stage t i s)"
    using st by (simp add: retain_stage_def charge_def st_size_def)
  moreover have "\<forall>j \<in> set is. \<exists>st. the_stage (retain_stage t i s) j = Some st \<and> st_ready st \<and> st_request st = None"
    using Cons.prems(2) st by (auto simp: retain_stage_def)
  ultimately show ?case using Cons.IH by simp
qed simp

lemma publish_ok:
  assumes ok: "store_ok s" and v: "map_of (scope_objs s) k = Some v"
  shows "store_ok (s\<lparr>scope_objs := AList.update k (v\<lparr>v_published := b\<rparr>) (scope_objs s)\<rparr>)"
proof -
  have "scope_ok s k v" using ok v by (simp add: store_ok_def scopes_ok_def)
  then have "scope_ok s k (v\<lparr>v_published := b\<rparr>)" by (simp add: scope_ok_def)
  then have "scopes_ok (s\<lparr>scope_objs := AList.update k (v\<lparr>v_published := b\<rparr>) (scope_objs s)\<rparr>)"
    using ok by (auto simp: store_ok_def scopes_ok_def limits_apart map_of_update)
  then show ?thesis using ok by (simp add: store_ok_def scopes_apart)
qed

lemma retain_keeps_scopes: "scope_objs (fold (retain_stage t) is s) = scope_objs s"
  by (induction "is" arbitrary: s) (simp_all add: retain_stage_def split: option.split)

lemma Retain_ok:
  assumes ok: "store_ok s"
  shows "store_ok (fst (Retain sha now k files s))"
proof (cases "map_of (scope_objs s) k")
  case (Some v)
  have v: "scope_ok s k v" using ok Some by (simp add: store_ok_def scopes_ok_def)
  let ?s = "fold (retain_stage (now + ol_TTL (v_limits v))) (v_stages v) s"
  have "store_ok (?s\<lparr>scope_objs := AList.update k (v\<lparr>v_published := True\<rparr>) (scope_objs ?s)\<rparr>)"
    if fs: "list_all2 (retains sha s) (v_stages v) files"
  proof -
    have "\<exists>st. the_stage s i = Some st \<and> st_ready st \<and> st_request st = None" if i: "i \<in> set (v_stages v)" for i
    proof -
      from fs i have "\<exists>f. retains sha s i f" by (induction rule: list_all2_induct) (auto simp del: split_paired_Ex)
      then obtain st where st: "the_stage s i = Some st" "st_ready st" by (auto simp: retains_def split: option.splits)
      moreover have "st_scope st = Some k" using v i st(1) by (auto simp: scope_ok_def)
      ultimately show ?thesis using stage_ownedD(2) [OF ok] by blast
    qed
    then have "store_ok ?s" by (intro retain_stages_ok [OF ok]) blast
    from publish_ok [OF this, of k v True] show ?thesis using Some by (simp add: retain_keeps_scopes)
  qed
  then show ?thesis using Some ok by (simp add: Retain_def Let_def split: option.split)
qed (simp add: Retain_def ok)

section \<open>Executions of the store\<close>

text \<open>
  One call of the exported interface with everything the environment answers. A new stage takes a random
  identifier and a new object a new address, so an operation that allocates one already in use does not occur.
\<close>

datatype store_op =
  Op_reserve nat int
| Op_release nat
| Op_begin_input nat go_ctx "int option" owner "(string \<times> schema \<times> limits) option" "int option" int
| Op_new_file string "bool \<times> bool \<times> bool" bool bool nat owner string string string
| Op_write string string bool "int \<times> bool"
| Op_seal string bool bool
| Op_complete bool nat owner string int string
| Op_commit bool nat owner "(string \<times> val) list option"
| Op_start bool nat owner go_ctx
| Op_open nat bool bool nat owner file_value
| Op_read nat nat bool "nat \<times> bool"
| Op_close_reader disk bool nat
| Op_abort_request nat owner
| Op_release_stopped disk nat owner
| Op_abort_stage disk string
| Op_output nat owner output_limits
| Op_begin_output string "bool \<times> bool \<times> bool" go_ctx nat string string
| Op_finish nat bool bool string "string \<times> string \<times> int \<times> string"
| Op_retain int nat "(nat option \<times> string \<times> string \<times> int \<times> string) list"
| Op_open_output nat go_ctx bool int owner string
| Op_sweep disk int "nat \<Rightarrow> bool"
| Op_revoke disk string
| Op_new_scratch string "bool \<times> bool \<times> bool" go_ctx string string int
| Op_begin_scratch string "bool \<times> bool \<times> bool" go_ctx string string
| Op_close disk "nat \<Rightarrow> bool" bool

fun allocates :: "store \<Rightarrow> store_op \<Rightarrow> bool" where
  "allocates s (Op_reserve k _) = (map_of (lease_objs s) k = None)"
| "allocates s (Op_begin_input k _ _ _ _ _ _) = (map_of (req_objs s) k = None)"
| "allocates s (Op_new_file i _ _ _ _ _ _ _ _) = (the_stage s i = None)"
| "allocates s (Op_open rd _ _ _ _ _) = (map_of (reader_objs s) rd = None)"
| "allocates s (Op_output k _ _) = (map_of (scope_objs s) k = None)"
| "allocates s (Op_begin_output i _ _ _ _ _) = (the_stage s i = None)"
| "allocates s (Op_finish rd _ _ _ _) = (map_of (reader_objs s) rd = None)"
| "allocates s (Op_open_output rd _ _ _ _ _) = (map_of (reader_objs s) rd = None)"
| "allocates s (Op_new_scratch i _ _ _ _ _) = (the_stage s i = None)"
| "allocates s (Op_begin_scratch i _ _ _ _) = (the_stage s i = None)"
| "allocates s _ = True"

fun perform :: "stdlib \<Rightarrow> (string \<Rightarrow> string) \<Rightarrow> store \<Rightarrow> store_op \<Rightarrow> store" where
  "perform L sha s (Op_reserve k n) = fst (Reserve k n s)"
| "perform L sha s (Op_release k) = Release k s"
| "perform L sha s (Op_begin_input k ctx cd o' cap d now) = fst (BeginInput k ctx cd o' cap d now s)"
| "perform L sha s (Op_new_file i io ctxErr late k o' p name media) = fst (NewFile i io ctxErr late k o' p name media s)"
| "perform L sha s (Op_write i p ctxErr w) = fst (Stage_Write i p ctxErr w s)"
| "perform L sha s (Op_seal i ctxErr diskErr) = fst (Stage_Close i ctxErr diskErr s)"
| "perform L sha s (Op_complete ctxErr k o' i sz digest) = fst (Complete sha ctxErr k o' i sz digest s)"
| "perform L sha s (Op_commit ctxErr k o' params) = fst (Commit L sha ctxErr k o' params s)"
| "perform L sha s (Op_start ctxErr k o' ex) = fst (Start ctxErr k o' ex s)"
| "perform L sha s (Op_open rd ex opened k o' v) = fst (Request_Open sha rd ex opened k o' v s)"
| "perform L sha s (Op_read rd n ctxErr got) = fst (Reader_Read rd n ctxErr got s)"
| "perform L sha s (Op_close_reader io closedOk rd) = fst (Reader_Close io closedOk rd s)"
| "perform L sha s (Op_abort_request k o') = fst (Request_Abort k o' s)"
| "perform L sha s (Op_release_stopped io k o') = fst (ReleaseStopped io k o' s)"
| "perform L sha s (Op_abort_stage io i) = fst (Stage_Abort io i s)"
| "perform L sha s (Op_output k o' l) = fst (Store_Output k o' l s)"
| "perform L sha s (Op_begin_output i io ctx k name media) = fst (Scope_Begin i io ctx k name media s)"
| "perform L sha s (Op_finish rd ctxErr opened i m) = fst (Finish sha rd ctxErr opened i m s)"
| "perform L sha s (Op_retain now k files) = fst (Retain sha now k files s)"
| "perform L sha s (Op_open_output rd ctx opened now o' i) = fst (OpenOutput rd ctx opened now o' i s)"
| "perform L sha s (Op_sweep io now ended) = fst (Sweep io now ended s)"
| "perform L sha s (Op_revoke io g) = fst (RevokeGeneration io g s)"
| "perform L sha s (Op_new_scratch i io ctx name media b) = fst (NewScratch i io ctx name media b s)"
| "perform L sha s (Op_begin_scratch i io ctx name media) = fst (Scratch_Begin i io ctx name media s)"
| "perform L sha s (Op_close io closedOk handlesOk) = fst (Store_Close io closedOk handlesOk s)"

definition store_step :: "stdlib \<Rightarrow> (string \<Rightarrow> string) \<Rightarrow> store \<Rightarrow> store_op \<Rightarrow> store" where
  "store_step L sha s op = (if allocates s op then perform L sha s op else s)"

definition new_store :: "int \<Rightarrow> int \<Rightarrow> int \<Rightarrow> int \<Rightarrow> store" where
  "new_store quota pending objects timeout =
     \<lparr>QuotaBytes = quota, MaxPending = pending, MaxObjects = objects, TransferTimeout = timeout, used = 0, n_readers = 0,
      s_closed = False, closeErr = None, poisoned = False, stage_objs = [], req_objs = [], req_table = [], scope_objs = [],
      reader_objs = [], lease_objs = []\<rparr>"

text \<open>The settings \<^verbatim>\<open>Open\<close> admits.\<close>

definition opened_store :: "store \<Rightarrow> bool" where
  "opened_store s \<longleftrightarrow> (\<exists>quota pending objects timeout. s = new_store quota pending objects timeout \<and> 1 \<le> quota
     \<and> 1 \<le> pending \<and> pending \<le> (max_int64 - 3) div 2 \<and> 1 \<le> objects \<and> objects < max_int64 \<and> 0 < timeout \<and> timeout \<le> 300000000000)"

lemmas operation_ok = Reserve_ok Release_ok BeginInput_ok NewFile_ok Stage_Write_ok sealLocked_ok Complete_ok Commit_ok Start_ok
  Request_Open_ok Reader_Read_ok closeLocked_ok Stage_Abort_ok Store_Output_ok Scope_Begin_ok Finish_ok Retain_ok OpenOutput_ok
  Sweep_ok RevokeGeneration_ok NewScratch_ok Store_Close_ok

lemma Scratch_Begin_ok:
  assumes ok: "store_ok s" and new: "the_stage s i = None"
  shows "store_ok (fst (Scratch_Begin i io ctx name media s))"
proof -
  obtain s1 res where n: "Scratch_Begin i io ctx name media s = (s1, res)" by force
  show ?thesis using newStage_cases [OF n [unfolded Scratch_Begin_def] new] ok new_stage_ok [OF ok] n by auto
qed

lemma Request_Abort_ok: "store_ok s \<Longrightarrow> store_ok (fst (Request_Abort k o' s))"
  by (simp add: Request_Abort_def abortLocked_ok split: option.split)

lemma ReleaseStopped_ok: "store_ok s \<Longrightarrow> store_ok (fst (ReleaseStopped io k o' s))"
  by (simp add: ReleaseStopped_def releaseStoppedLocked_ok split: option.split)

lemma store_step_ok: "store_ok s \<Longrightarrow> store_ok (store_step L sha s op)"
  by (cases op) (simp_all add: store_step_def operation_ok Scratch_Begin_ok Request_Abort_ok ReleaseStopped_ok Stage_Close_def Reader_Close_def)

lemma opened_store_ok: "opened_store s \<Longrightarrow> store_ok s"
  by (auto simp: opened_store_def new_store_def store_ok_def store_parts the_stage_def)

interpretation artifacts: component opened_store "store_step L sha" store_ok for L sha
  by unfold_locales (simp_all add: opened_store_ok store_step_ok)

section \<open>What an execution leaves as it was\<close>

definition options :: "store \<Rightarrow> int \<times> int \<times> int \<times> int" where
  "options s = (QuotaBytes s, MaxPending s, MaxObjects s, TransferTimeout s)"

definition later :: "stage \<Rightarrow> stage \<Rightarrow> bool" where
  "later st st' \<longleftrightarrow> st_owner st' = st_owner st \<and> st_kind st' = st_kind st \<and> st_name st' = st_name st \<and> st_mime st' = st_mime st
     \<and> st_request st' = st_request st \<and> st_scope st' = st_scope st
     \<and> (st_sealed st \<longrightarrow> st_sealed st' \<and> st_bytes st' = st_bytes st) \<and> (st_ready st \<longrightarrow> st_ready st')
     \<and> (st_retired st \<longrightarrow> st_retired st') \<and> (st_live st' \<longrightarrow> st_live st)"

definition ext :: "store \<Rightarrow> store \<Rightarrow> bool" where
  "ext s s' \<longleftrightarrow> options s' = options s \<and> (\<forall>i st. the_stage s i = Some st \<longrightarrow> (\<exists>st'. the_stage s' i = Some st' \<and> later st st'))"

lemma ext_refl: "ext s s"
  by (auto simp: ext_def later_def)

lemma later_trans: "later a b \<Longrightarrow> later b c \<Longrightarrow> later a c"
  by (simp add: later_def)

lemma ext_trans: "ext s t \<Longrightarrow> ext t u \<Longrightarrow> ext s u"
  unfolding ext_def by (metis later_trans)

lemma ext_cong: "ext s t \<Longrightarrow> stage_objs u = stage_objs t \<Longrightarrow> options u = options t \<Longrightarrow> ext s u"
  by (simp add: ext_def the_stage_def)

lemma ext_same: "stage_objs u = stage_objs s \<Longrightarrow> options u = options s \<Longrightarrow> ext s u"
  by (rule ext_cong [OF ext_refl])

lemma ext_set1: "the_stage t i = Some st \<Longrightarrow> later st st' \<Longrightarrow> ext t (set_stage i st' t)"
  by (auto simp: ext_def later_def options_def set_stage_def the_stage_def map_of_update)

lemma ext_set: "ext s t \<Longrightarrow> the_stage t i = Some st \<Longrightarrow> later st st' \<Longrightarrow> ext s (set_stage i st' t)"
  by (rule ext_trans [OF _ ext_set1])

lemma ext_new: "the_stage t i = None \<Longrightarrow> ext t (set_stage i st' t)"
  by (auto simp: ext_def later_def options_def set_stage_def the_stage_def map_of_update)

lemma same_options [simp]:
  "options (s\<lparr>used := x1\<rparr>) = options s" "options (s\<lparr>poisoned := x2\<rparr>) = options s" "options (s\<lparr>n_readers := x3\<rparr>) = options s"
  "options (s\<lparr>reader_objs := x4\<rparr>) = options s" "options (s\<lparr>scope_objs := x5\<rparr>) = options s" "options (s\<lparr>req_table := x6\<rparr>) = options s"
  "options (s\<lparr>lease_objs := x7\<rparr>) = options s" "options (s\<lparr>s_closed := x8\<rparr>) = options s" "options (s\<lparr>closeErr := x9\<rparr>) = options s"
  by (simp_all add: options_def)

lemma same_request [simp]: "stage_objs (set_request k r s) = stage_objs s" "options (set_request k r s) = options s"
  by (simp_all add: set_request_def options_def)

lemma same_slot [simp]: "stage_objs (releaseSlotLocked k s) = stage_objs s" "options (releaseSlotLocked k s) = options s"
  by (simp_all add: releaseSlotLocked_def split: option.split)

lemma same_bytes [simp]:
  "stage_objs (add_request_bytes p n s) = stage_objs s" "options (add_request_bytes p n s) = options s"
  "stage_objs (add_scope_bytes p n s) = stage_objs s" "options (add_scope_bytes p n s) = options s"
  by (simp_all add: add_request_bytes_def add_scope_bytes_def split: option.split)

lemma ext_slot: "ext s t \<Longrightarrow> ext s (releaseSlotLocked k t)"
  by (rule ext_cong) simp_all

lemma ext_flags: "ext s t \<Longrightarrow> ext s (t\<lparr>poisoned := b\<rparr>)" "ext s t \<Longrightarrow> ext s (t\<lparr>closeErr := e\<rparr>)" "ext s t \<Longrightarrow> ext s (t\<lparr>scope_objs := m\<rparr>)"
  by (rule ext_cong; simp)+

lemma the_stage_same: "stage_objs u = stage_objs s \<Longrightarrow> the_stage u i = the_stage s i"
  by (simp add: the_stage_def)

lemma retire_stage_ext: "ext s (retire_stage i s)"
  by (auto simp: retire_stage_def later_def intro: ext_refl ext_set [OF ext_refl] split: option.split)

lemma cleanupLocked_ext: "ext s (fst (cleanupLocked io i s))"
proof (cases "the_stage s i")
  case (Some st)
  let ?s1 = "set_stage i (st\<lparr>st_file := False\<rparr>) s"
  have 1: "ext s ?s1" using Some by (intro ext_set [OF ext_refl Some]) (simp add: later_def)
  have 2: "ext s (set_stage i (st\<lparr>st_file := False, st_reserved := 0, st_live := False\<rparr>) (?s1\<lparr>used := u\<rparr>))" for u
    by (rule ext_set [OF ext_cong [OF 1], of _ i "st\<lparr>st_file := False\<rparr>"]) (simp_all add: later_def the_stage_def set_stage_def map_of_update)
  show ?thesis using Some ext_refl [of s] 1 2
    by (auto simp: cleanupLocked_def Let_def ext_slot ext_flags split: option.split)
qed (simp add: cleanupLocked_def ext_refl)

lemma retire_all_ext: "ext s (fst (retire_all io is s))"
proof (induction "is" arbitrary: s)
  case (Cons i "is")
  show ?case using Cons.IH by (auto simp: split_beta intro: ext_trans [OF ext_trans [OF retire_stage_ext cleanupLocked_ext]])
qed (simp add: ext_refl)

lemma newStage_ext:
  assumes new: "the_stage s i = None" and n: "newStage i io ctx o' kind name media req sc s = (s1, res)"
  shows "ext s s1"
  using newStage_cases [OF n new] ext_new [OF new] by (auto intro: ext_same)

lemma same_open:
  "stage_objs (fst (openLocked rd i ctxErr opened s)) = stage_objs s" "options (fst (openLocked rd i ctxErr opened s)) = options s"
  by (simp_all add: openLocked_def split: option.split)

lemma same_reserve:
  "reserveLocked n s = (s1, e) \<Longrightarrow> stage_objs s1 = stage_objs s \<and> options s1 = options s"
  by (auto dest: reserveLocked_cases)

lemma closeLocked_ext: "ext s (fst (closeLocked io closedOk rd s))"
  by (auto simp: closeLocked_def ext_refl ext_same intro: ext_trans [OF _ cleanupLocked_ext] split: option.split)

lemma close_readers_ext: "ext s (fst (close_readers io closedOk rds s))"
proof (induction rds arbitrary: s)
  case (Cons rd rds)
  then show ?case by (auto simp: split_beta intro: ext_trans [OF closeLocked_ext])
qed (simp add: ext_refl)

lemma shut_stages_ext: "ext s (fst (shut_stages io closedOk is s))"
proof (induction "is" arbitrary: s)
  case (Cons i "is")
  then show ?case
    by (auto simp: split_beta intro: ext_trans [OF ext_trans [OF ext_trans [OF close_readers_ext retire_stage_ext] cleanupLocked_ext]])
qed (simp add: ext_refl)

lemma same_folds:
  "stage_objs (fold (revoke_request g) ks s) = stage_objs s" "options (fold (revoke_request g) ks s) = options s"
  "stage_objs (fold shut_request ks s) = stage_objs s" "options (fold shut_request ks s) = options s"
  by (induction ks arbitrary: s) (simp_all add: revoke_request_def shut_request_def split: option.split)

lemma retain_stage_ext: "ext s (fold (retain_stage t) is s)"
proof (induction "is" arbitrary: s)
  case (Cons i "is")
  have "ext s (retain_stage t i s)"
    by (auto simp: retain_stage_def later_def intro: ext_refl ext_set1 split: option.split)
  then show ?case using Cons.IH by (auto intro: ext_trans)
qed (simp add: ext_refl)

lemma same_abort [simp]: "stage_objs (abortLocked k s) = stage_objs s" "options (abortLocked k s) = options s"
  by (simp_all add: abortLocked_def split: option.split)

lemma releaseStoppedLocked_ext: "ext s (fst (releaseStoppedLocked io k s))"
  by (auto simp: releaseStoppedLocked_def split_beta ext_refl ext_same
      intro!: ext_slot intro: ext_trans [OF _ retire_all_ext] split: option.split)

lemma Stage_Abort_ext: "ext s (fst (Stage_Abort io i s))"
  by (auto simp: Stage_Abort_def Let_def split_beta ext_refl ext_same
      intro: ext_trans [OF _ releaseStoppedLocked_ext] ext_trans [OF retire_stage_ext cleanupLocked_ext] split: option.split)

lemma sweep_requests_ext: "ext s (fst (sweep_requests io now ended ks s))"
proof (induction ks arbitrary: s)
  case (Cons k ks)
  have "ext s (releaseSlotLocked k (fst (retire_all io is (set_request k r s))))" for r "is"
    by (rule ext_cong [OF ext_trans [OF ext_same retire_all_ext]]) simp_all
  then show ?case using Cons.IH by (auto simp: split_beta intro: ext_trans split: option.split)
qed (simp add: ext_refl)

lemma Stage_Write_ext: "ext s (fst (Stage_Write i p ctxErr w s))"
proof (cases "the_stage s i")
  case (Some st)
  define m pre where "m = int (length p)" and "pre = min m (st_reserved st)"
  obtain s1 e where r: "reserveLocked (m - pre) s = (s1, e)" by force
  have s1: "ext s s1" "the_stage s1 i = Some st" using same_reserve [OF r] Some by (auto intro: ext_same simp: the_stage_def)
  have "ext s (set_stage i st' (s1\<lparr>used := u\<rparr>))" if "later st st'" for st' u
    using that s1 by (intro ext_set [OF ext_cong [OF s1(1)], where st = st]) (auto simp: the_stage_def)
  then have *: "later st st' \<Longrightarrow> ext s (add_scope_bytes q n (add_request_bytes q' n (set_stage i st' (s1\<lparr>used := u\<rparr>))))" for st' u n q q'
    by (rule ext_cong) simp_all
  from * this [where u = "used s1"] show ?thesis using Some s1(1) r ext_refl
    by (simp add: Stage_Write_def m_def [symmetric] pre_def [symmetric] Let_def later_def split: option.split)
qed (simp add: Stage_Write_def ext_refl)

lemma with_request_ext:
  assumes "\<And>r. ext s (fst (f r s))"
  shows "ext s (fst (with_request k o' x ctxErr f s))"
  using assms by (auto simp: with_request_def ext_refl split: option.split)

lemma NewFile_ext:
  assumes new: "the_stage s i = None"
  shows "ext s (fst (NewFile i io ctxErr late k o' p name media s))"
  unfolding NewFile_def
proof (rule with_request_ext)
  fix r
  obtain s1 res where n: "newStage i io (if late then Done_ctx else Live_ctx) o' ''i'' name media (Some k) None s = (s1, res)" by force
  show "ext s (fst (if file_node r p = None then (s, Inl ''VALIDATION_FAILED'')
       else if map_of (r_files r) p \<noteq> None then (s, Inl ''CONFLICT'')
       else if int (length (r_files r)) \<ge> MaxFiles (r_limits r) then (s, Inl ''LIMIT_EXCEEDED'')
       else case newStage i io (if late then Done_ctx else Live_ctx) o' ''i'' name media (Some k) None s of
         (s1, Inl e) \<Rightarrow> (s1, Inl e)
       | (s1, Inr st) \<Rightarrow> (set_request k (r\<lparr>r_files := AList.update p i (r_files r)\<rparr>) s1, Inr st)))"
    using newStage_ext [OF new n] n ext_refl by (auto intro: ext_cong split: sum.split)
qed

lemma Scope_Begin_ext:
  assumes new: "the_stage s i = None"
  shows "ext s (fst (Scope_Begin i io ctx k name media s))"
proof (cases "map_of (scope_objs s) k")
  case (Some v)
  obtain s1 res where n: "newStage i io ctx (v_owner v) ''o'' name media None (Some k) s = (s1, res)" by force
  show ?thesis using newStage_ext [OF new n] n Some ext_refl by (auto simp: Scope_Begin_def ext_flags split: sum.split)
qed (simp add: Scope_Begin_def ext_refl)

lemma NewScratch_ext:
  assumes new: "the_stage s i = None"
  shows "ext s (fst (NewScratch i io ctx name media b s))"
proof -
  obtain s1 e where r: "reserveLocked b s = (s1, e)" by force
  obtain s2 res where n: "newStage i io ctx scratch_owner ''o'' name media None None s1 = (s2, res)" by force
  have s1: "ext s s1" "the_stage s1 i = None" using same_reserve [OF r] new by (auto intro: ext_same simp: the_stage_def)
  have s2: "ext s s2" by (rule ext_trans [OF s1(1) newStage_ext [OF s1(2) n]])
  then have "ext s (s2\<lparr>used := u\<rparr>)" for u by (rule ext_cong) simp_all
  moreover have "ext s (set_stage i (st\<lparr>st_reserved := b\<rparr>) s2)" if "the_stage s2 i = Some st" for st
    by (rule ext_set [OF s2 that]) (simp add: later_def)
  ultimately show ?thesis using r n s1 s2 ext_refl by (auto simp: NewScratch_def split: option.split sum.split)
qed

lemma sealLocked_ext: "ext s (fst (sealLocked i ctxErr diskErr s))"
proof (cases "the_stage s i")
  case (Some st)
  have "ext s (set_stage i st' (s\<lparr>used := u\<rparr>))" if "later st st'" for st' u
    using Some that by (intro ext_set [OF ext_same, where st = st]) (auto simp: the_stage_def)
  then show ?thesis using Some ext_refl by (simp add: sealLocked_def Let_def later_def)
qed (simp add: sealLocked_def ext_refl)

lemma ready_ext: "the_stage s i = Some st \<Longrightarrow> ext s (set_stage i (st\<lparr>st_ready := True\<rparr>) s)"
  by (erule ext_set1) (simp add: later_def)

lemma Finish_ext: "ext s (fst (Finish sha rd ctxErr opened i m s))"
  by (auto simp: Finish_def ext_refl same_open intro: ext_cong [OF ready_ext] split: option.split)

lemma perform_ext: "allocates s op \<Longrightarrow> ext s (perform L sha s op)"
proof (cases op)
  case (Op_retain now k files)
  then show ?thesis
    by (auto simp: Retain_def Let_def ext_refl ext_flags retain_stage_ext split: option.split)
next
  case (Op_sweep io now ended)
  then show ?thesis by (auto simp: Sweep_def split_beta intro: ext_trans [OF sweep_requests_ext retire_all_ext])
next
  case (Op_revoke io g)
  then show ?thesis
    by (auto simp: RevokeGeneration_def Let_def split_beta cancel_readers_def same_folds intro!: ext_trans [OF ext_same retire_all_ext])
next
  case (Op_close io closedOk handlesOk)
  then show ?thesis
    by (auto simp: Store_Close_def Let_def split_beta ext_refl same_folds intro!: ext_flags ext_trans [OF ext_same shut_stages_ext])
next
  case (Op_reserve k n)
  then show ?thesis using same_reserve [of n s] ext_refl
    by (auto simp: Reserve_def split: prod.split option.split intro!: ext_same)
next
  case (Op_commit ctxErr k o' params)
  then show ?thesis by (auto simp: Commit_def ext_refl ext_same split: sum.split intro!: with_request_ext)
next
  case (Op_complete ctxErr k o' i sz digest)
  then show ?thesis by (auto simp: Complete_def Let_def ext_refl ready_ext split: option.split sum.split intro!: with_request_ext)
next
  case (Op_open rd ex opened k o' v)
  then show ?thesis by (auto simp: Request_Open_def ext_refl same_open split: option.split intro!: with_request_ext ext_same)
next
  case (Op_new_scratch i io ctx name media b)
  then show "allocates s op \<Longrightarrow> ?thesis" by (simp add: NewScratch_ext)
next
  case (Op_begin_scratch i io ctx name media)
  then show "allocates s op \<Longrightarrow> ?thesis"
    using newStage_ext [of s i io ctx scratch_owner "''o''" name media None None] by (auto simp: Scratch_Begin_def intro: prod.exhaust_sel)
qed (auto simp: Release_def BeginInput_def Start_def Reader_Read_def Request_Abort_def ReleaseStopped_def Store_Output_def OpenOutput_def Let_def
    NewFile_ext Stage_Write_ext Stage_Close_def sealLocked_ext Reader_Close_def closeLocked_ext releaseStoppedLocked_ext Stage_Abort_ext
    Scope_Begin_ext Finish_ext same_open ext_refl ext_same split: option.split prod.split intro!: with_request_ext)

lemma store_step_ext: "ext s (store_step L sha s op)"
  by (simp add: store_step_def perform_ext ext_refl)

lemma run_ext: "ext s (run (store_step L sha) s ops)"
  by (induction ops arbitrary: s) (auto intro: ext_refl ext_trans [OF store_step_ext])

section \<open>Properties\<close>

text \<open>
  C1: Whatever sequence of its input, output, scratch and lease calls the artifact store answers, and whatever the disk, the clock and the contexts do in
  between, its settings stay as they were, the bytes it counts as used are exactly those of the stages still on disk, of
  what is reserved for them and of the leases not released, they never exceed the quota, the stages and leases together
  never exceed the object limit, open readers and pending requests stay within their limits, and every reader not closed
  still has its stage on disk.
\<close>

theorem quota_is_kept:
  assumes "opened_store s" and "t = run (store_step L sha) s ops"
  shows "options t = options s \<and> 0 \<le> used t \<and> used t \<le> QuotaBytes s
    \<and> used t = total_of charge (stage_objs t) + total_of lease_charge (lease_objs t)
    \<and> int (length (live t)) + n_leases t \<le> MaxObjects s
    \<and> 0 \<le> n_readers t \<and> n_readers t \<le> MaxObjects s \<and> int (length (req_table t)) \<le> MaxPending s
    \<and> (\<forall>rd r. map_of (reader_objs t) rd = Some r \<longrightarrow> \<not> rd_closed r \<longrightarrow> is_live t (rd_stage r))"
proof -
  have ok: "store_ok t" using artifacts.reachable_inv [OF assms(1)] assms(2) by simp
  have opt: "options t = options s" using run_ext assms(2) by (simp add: ext_def)
  have "0 \<le> total_of charge (stage_objs t)" "0 \<le> total_of lease_charge (lease_objs t)"
    using ok by (auto simp: store_ok_def intro: total_stages_nonneg total_leases_nonneg)
  moreover have "0 \<le> n_readers t"
    using ok by (auto simp: store_ok_def readers_ok_def intro!: total_nonneg)
  moreover have "is_live t (rd_stage r)" if "map_of (reader_objs t) rd = Some r" "\<not> rd_closed r" for rd r
  proof -
    from ok that(1) have "\<exists>st. the_stage t (rd_stage r) = Some st \<and> st_ready st \<and> (rd_closed r \<or> st_live st)"
      unfolding store_ok_def readers_ok_def by blast
    with that(2) show ?thesis by (auto simp: is_live_def)
  qed
  ultimately show ?thesis using ok opt
    by (auto simp: store_ok_def accounts_def places_def readers_ok_def table_ok_def n_live n_leases_total options_def)
qed

definition sample_ops :: "store_op list" where
  "sample_ops =
     [Op_reserve 0 60, Op_new_scratch ''a'' (True, True, True) Live_ctx ''b.txt'' ''text/plain'' 30,
      Op_write ''a'' ''hello'' False (3, False), Op_reserve 1 20]"

lemmas store_eval = store_step_def Reserve_def reserveLocked_def available_def n_leases_def live_def NewScratch_def newStage_def the_stage_def
  set_stage_def Stage_Write_def request_refuses_def scope_refuses_def stage_ctx_done_def add_request_bytes_def add_scope_bytes_def
  st_size_def new_store_def sample_ops_def

lemma spool_names: "owner_valid scratch_owner" "ValidateBasename ''b.txt''" "validMIME ''text/plain''"
  by code_simp+

theorem quota_is_kept_witness:
  "let t = run (store_step sample_lib (\<lambda>b. b)) (new_store 100 1 2 1) sample_ops in
   used t = 88 \<and> live t = [''a''] \<and> used t = total_of charge (stage_objs t) + total_of lease_charge (lease_objs t)
   \<and> int (length (live t)) + n_leases t \<le> 2"
proof -
  define t where "t = run (store_step sample_lib (\<lambda>b. b)) (new_store 100 1 2 1) sample_ops"
  have "opened_store (new_store 100 1 2 1)"
    unfolding opened_store_def by (intro exI [of _ 100] exI [of _ 1] exI [of _ 2]) (simp add: max_int64_def)
  note q = quota_is_kept [OF this t_def]
  have "used t = 88 \<and> live t = [''a'']" unfolding t_def by (simp add: store_eval spool_names Let_def)
  moreover have "MaxObjects (new_store 100 1 2 1) = 2" by (simp add: new_store_def)
  ultimately show ?thesis using q unfolding t_def [symmetric] Let_def by auto
qed

lemma take_of_length: "p = take m xs \<Longrightarrow> p = take (length p) xs"
  by (cases "m \<le> length xs") auto

lemma sealed_snapshot:
  assumes "the_stage s i = Some st" "st_sealed st" "u = run (store_step L sha) s ops"
    and "map_of (reader_objs u) rd = Some r" "rd_stage r = i" "Reader_Read rd n c got u = (u', Inr p)"
  shows "p = take (length p) (drop (rd_pos r) (st_bytes st))"
proof -
  obtain st' where st': "the_stage u i = Some st'" "st_bytes st' = st_bytes st"
    using run_ext [of s L sha ops] assms(1-3) by (auto simp: ext_def later_def)
  then have "\<exists>m. p = take m (drop (rd_pos r) (st_bytes st))"
    using assms(4-6) by (auto simp: Reader_Read_def Let_def split: if_splits)
  then show ?thesis by (auto intro: take_of_length)
qed

text \<open>
  C34: A file completed for a request never changes afterwards: whatever calls the store answers in between, whoever reads
  it gets, piece by piece, the bytes whose length and digest were checked when it was completed.
\<close>

theorem a_completed_file_never_changes:
  assumes "Complete sha ctxErr k o' i sz digest s = (t, Inr v)" and "u = run (store_step L sha) t ops"
    and "map_of (reader_objs u) rd = Some r" "rd_stage r = file_ID v" "Reader_Read rd n c got u = (u', Inr p)"
  shows "\<exists>bytes. sha bytes = digest \<and> int (length bytes) = sz \<and> file_SHA256 v = digest \<and> file_SizeBytes v = sz
    \<and> p = take (length p) (drop (rd_pos r) bytes)"
proof -
  obtain st where st: "the_stage s i = Some st" "st_sealed st" "st_size st = sz" "sha (st_bytes st) = digest"
      "t = set_stage i (st\<lparr>st_ready := True\<rparr>) s" "\<exists>q. v = file_value_of sha q i o' st"
    using assms(1) by (auto simp: Complete_def with_request_def Let_def split: option.splits if_splits sum.splits)
  have v: "file_ID v = i" "file_SHA256 v = digest" "file_SizeBytes v = sz" using st(3,4,6) by (auto simp: file_value_of_def)
  have "the_stage t i = Some (st\<lparr>st_ready := True\<rparr>)" "st_sealed (st\<lparr>st_ready := True\<rparr>)" using st(2,5) by simp_all
  from sealed_snapshot [OF this assms(2,3) _ assms(5)] v(1) assms(4) have "p = take (length p) (drop (rd_pos r) (st_bytes st))" by simp
  with st(3,4) v show ?thesis by (intro exI [of _ "st_bytes st"]) (simp add: st_size_def)
qed

lemma commit_leaf_ok:
  assumes "commit_leaf sha s r o' f seen = Inr seen'"
  shows "\<exists>i st. map_of (r_files r) (leaf_Pointer f) = Some i \<and> the_stage s i = Some st \<and> st_ready st \<and> \<not> st_retired st
    \<and> i \<notin> set seen \<and> leaf_Value f = file_value_of sha (leaf_Pointer f) i o' st \<and> seen' = i # seen"
  using assms by (auto simp: commit_leaf_def same_metadata_def file_value_of_def split: option.splits if_splits)

lemma commit_leaves:
  assumes "each (commit_leaf sha s r o') leaves seen = Inr out"
  shows "distinct (map leaf_Pointer leaves) \<and> (\<forall>f \<in> set leaves. the (map_of (r_files r) (leaf_Pointer f)) \<notin> set seen)
    \<and> (\<forall>f \<in> set leaves. \<exists>i st. map_of (r_files r) (leaf_Pointer f) = Some i \<and> the_stage s i = Some st \<and> st_ready st \<and> \<not> st_retired st
         \<and> leaf_Value f = file_value_of sha (leaf_Pointer f) i o' st)"
  using assms
proof (induction leaves arbitrary: seen)
  case (Cons f leaves)
  from Cons.prems obtain i st where f: "map_of (r_files r) (leaf_Pointer f) = Some i" "the_stage s i = Some st" "st_ready st" "\<not> st_retired st"
      "i \<notin> set seen" "leaf_Value f = file_value_of sha (leaf_Pointer f) i o' st" "each (commit_leaf sha s r o') leaves (i # seen) = Inr out"
    using commit_leaf_ok [of sha s r o' f seen] by (cases "commit_leaf sha s r o' f seen") auto
  from Cons.IH [OF f(7)] f(1-6) show ?case by (auto simp: image_iff)
qed simp

text \<open>
  C14: Committing a request accepts its parameters only as the common validation does, only from the owner of a request
  still receiving, and only when they name exactly the files the request has received: each file once, at the position it
  was received for, completed, and with the name, type, size and digest of the bytes on disk.
\<close>

theorem commit_takes_exactly_the_received_files:
  assumes "Commit L sha ctxErr k o' params s = (s', Inr normal)"
  shows "\<exists>r leaves. map_of (req_objs s) k = Some r \<and> r_owner r = o' \<and> r_state r = Receiving
    \<and> s' = set_request k (r\<lparr>r_state := Ready\<rparr>) s
    \<and> ValidateInput L (r_input r) params (r_limits r) = Inr (normal, leaves)
    \<and> distinct (map leaf_Pointer leaves) \<and> leaf_Pointer ` set leaves = fst ` set (r_files r)
    \<and> (\<forall>f \<in> set leaves. \<exists>i st. map_of (r_files r) (leaf_Pointer f) = Some i \<and> the_stage s i = Some st \<and> st_ready st \<and> \<not> st_retired st
         \<and> leaf_Value f = file_value_of sha (leaf_Pointer f) i o' st)"
proof -
  obtain r leaves out where r: "map_of (req_objs s) k = Some r" "r_owner r = o'" "r_state r = Receiving"
      "ValidateInput L (r_input r) params (r_limits r) = Inr (normal, leaves)" "length leaves = length (r_files r)"
      "each (commit_leaf sha s r o') leaves [] = Inr out" "s' = set_request k (r\<lparr>r_state := Ready\<rparr>) s"
    using assms by (auto simp: Commit_def with_request_def check_request_def split: option.splits if_splits sum.splits prod.splits)
  note c = commit_leaves [OF r(6)]
  have sub: "leaf_Pointer ` set leaves \<subseteq> fst ` set (r_files r)" using c by (force dest: map_of_SomeD)
  have "card (leaf_Pointer ` set leaves) = length leaves" using c distinct_card [of "map leaf_Pointer leaves"] by simp
  moreover have "card (fst ` set (r_files r)) \<le> length (r_files r)" using card_length [of "map fst (r_files r)"] by simp
  ultimately have "leaf_Pointer ` set leaves = fst ` set (r_files r)" using r(5) sub by (intro card_seteq) auto
  with r c show ?thesis by blast
qed

section \<open>A run of one request\<close>

definition sample_owner :: owner where
  "sample_owner = \<lparr>RequestID = ''r'', CallerBinding = ''b'', Capability = ''c'', DefinitionHash = ''d'', AuthGeneration = ''g''\<rparr>"

definition file_schema :: schema where
  "file_schema = Schema [''file''] [] [] False None False None [] VNull False False []
     (Some \<lparr>fc_Extensions = [], fc_MIMETypes = [], fc_MaxBytes = 10, fc_AllowEmpty = False\<rparr>) None [] [] False"

definition upload_schema :: schema where
  "upload_schema = Schema [''object''] [(''f'', file_schema)] [''f''] True None False None [''f''] VNull False False [] None None [] [] False"

definition upload_limits :: limits where
  "upload_limits = sample_limits\<lparr>MaxBytes := 200\<rparr>"

definition sample_sha :: "string \<Rightarrow> string" where
  "sample_sha b = replicate 64 CHR ''0''"

definition received_store :: store where
  "received_store = run (store_step sample_lib sample_sha) (new_store 100 1 2 1)
     [Op_begin_input 0 Live_ctx None sample_owner (Some (''c'', upload_schema, upload_limits)) None 0,
      Op_new_file ''a'' (True, True, True) False False 0 sample_owner ''/f'' ''b.txt'' ''text/plain'',
      Op_write ''a'' ''hi'' False (2, False), Op_seal ''a'' False False]"

definition sample_stage :: stage where
  "sample_stage = \<lparr>st_owner = sample_owner, st_kind = ''i'', st_name = ''b.txt'', st_mime = ''text/plain'', st_bytes = ''hi'', st_reserved = 0,
     st_file = False, st_sealed = True, st_ready = False, st_retained = False, st_retired = False, st_live = True, st_failed = False,
     st_request = Some 0, st_scope = None, st_expires = 0\<rparr>"

definition sample_request :: request where
  "sample_request = \<lparr>r_owner = sample_owner, r_input = upload_schema, r_limits = upload_limits, r_deadline = 1, r_cancelled = False,
     r_stopped = False, r_state = Receiving, r_files = [(''/f'', ''a'')], r_bytes = 2, r_started = False\<rparr>"

definition sample_file :: file_value where
  "sample_file = file_value_of sample_sha ''/f'' ''a'' sample_owner sample_stage"

lemmas request_eval = BeginInput_def NewFile_def with_request_def check_request_def file_node_def schemaAt_def set_request_def sealLocked_def
  Stage_Close_def leaf_max_def pointer_of_def upload_schema_def file_schema_def sample_limits_def upload_limits_def sample_request_def sample_stage_def

lemma sample_schema_eval: "schema_tokens upload_schema (Split CHR ''/'' ''f'') = Some file_schema" "hasFile upload_schema" "owner_valid sample_owner"
  by code_simp+

lemma received_store_eval:
  "received_store = (new_store 100 1 2 1)\<lparr>used := 2, stage_objs := [(''a'', sample_stage)], req_objs := [(0, sample_request)], req_table := [(''r'', 0)]\<rparr>"
  using sample_schema_eval
  by (simp add: received_store_def store_eval spool_names request_eval Let_def sample_owner_def)

lemma sample_file_valid: "FileConstraints_Validate \<lparr>fc_Extensions = [], fc_MIMETypes = [], fc_MaxBytes = 10, fc_AllowEmpty = False\<rparr> sample_file = Inr ()"
  by code_simp

lemma sample_json: "checkJSONLimits (floats sample_lib) (VObj [(''f'', VFile sample_file)]) upload_limits = None"
proof -
  have "jsonStringBytes (replicate 64 CHR ''0'') = Some 66" using plain_ascii(2) [of "replicate 64 CHR ''0''"] by (simp add: byte_def)
  moreover have "jsonStringBytes ''b.txt'' = Some 7" "jsonStringBytes ''text/plain'' = Some 12" "jsonStringBytes ''f'' = Some 3"
    by (subst plain_ascii, auto simp: byte_def)+
  moreover have "length (format_int 2) = 1" by code_simp
  ultimately show ?thesis
    by (simp add: checkJSONLimits_def visit.simps sample_file_def file_value_of_def sample_stage_def sample_sha_def st_size_def add_file_def
        spool_names file_key_bytes addBytes_def upload_limits_def sample_limits_def Let_def)
qed

lemma sample_input_valid:
  "\<exists>f. ValidateInput sample_lib upload_schema (Some [(''f'', VFile sample_file)]) upload_limits = Inr ([(''f'', VFile sample_file)], [f])
     \<and> leaf_Pointer f = ''/f'' \<and> leaf_Value f = sample_file"
proof -
  have "case validate sample_lib (Some 10) True upload_schema (VObj [(''f'', VFile sample_file)]) [] of
      Inl _ \<Rightarrow> False | Inr (v, leaves) \<Rightarrow> v = VObj [(''f'', VFile sample_file)] \<and> map (\<lambda>f. (leaf_Pointer f, leaf_Value f)) leaves = [(''/f'', sample_file)]"
    by code_simp
  then obtain f where "validate sample_lib (Some 10) True upload_schema (VObj [(''f'', VFile sample_file)]) [] = Inr (VObj [(''f'', VFile sample_file)], [f])"
      "leaf_Pointer f = ''/f''" "leaf_Value f = sample_file"
    by (auto split: sum.splits)
  moreover have "MaxFileBytes upload_limits = 10" "MaxTotalFileBytes upload_limits = 10" "MaxFiles upload_limits = 1" "file_SizeBytes sample_file = 2" "wrap64 2 = 2"
    by (simp_all add: upload_limits_def sample_limits_def sample_file_def file_value_of_def st_size_def sample_stage_def wrap64_def)
  ultimately show ?thesis using sample_json by (simp add: ValidateInput_def add_leaf_def Let_def max_int64_def)
qed

definition completed_store :: store where
  "completed_store = set_stage ''a'' (sample_stage\<lparr>st_ready := True\<rparr>) received_store"

lemma sample_complete:
  "Complete sample_sha False 0 sample_owner ''a'' 2 (sample_sha ''hi'') received_store = (completed_store, Inr sample_file)"
proof -
  have "file_node sample_request ''/f'' = SFile file_schema"
    using sample_schema_eval by (simp add: file_node_def schemaAt_def sample_request_def)
  moreover have "pointer_of sample_request ''a'' = Some ''/f''" "r_owner sample_request = sample_owner" "r_state sample_request = Receiving"
      "\<not> r_cancelled sample_request"
    by (simp_all add: pointer_of_def sample_request_def)
  moreover have "map_of (req_objs received_store) 0 = Some sample_request" "the_stage received_store ''a'' = Some sample_stage" "available received_store = None"
    by (simp_all add: received_store_eval the_stage_def available_def new_store_def)
  moreover have "st_request sample_stage = Some 0" "st_owner sample_stage = sample_owner" "\<not> st_retired sample_stage" "st_sealed sample_stage"
      "\<not> st_ready sample_stage" "\<not> st_failed sample_stage" "st_size sample_stage = 2" "st_bytes sample_stage = ''hi''"
    by (simp_all add: sample_stage_def st_size_def)
  ultimately show ?thesis using sample_file_valid
    by (simp add: Complete_def with_request_def check_request_def completed_store_def file_schema_def sample_file_def [symmetric])
qed

lemma sample_commit:
  "Commit sample_lib sample_sha False 0 sample_owner (Some [(''f'', VFile sample_file)]) completed_store
     = (set_request 0 (sample_request\<lparr>r_state := Ready\<rparr>) completed_store, Inr [(''f'', VFile sample_file)])"
proof -
  obtain f where f: "ValidateInput sample_lib upload_schema (Some [(''f'', VFile sample_file)]) upload_limits = Inr ([(''f'', VFile sample_file)], [f])"
    "leaf_Pointer f = ''/f''" "leaf_Value f = sample_file" using sample_input_valid by auto
  have "commit_leaf sample_sha completed_store sample_request sample_owner f [] = Inr [''a'']"
    using f(2,3) by (simp add: commit_leaf_def sample_request_def completed_store_def sample_file_def file_value_of_def same_metadata_def sample_stage_def st_size_def)
  moreover have "map_of (req_objs completed_store) 0 = Some sample_request" "available completed_store = None"
    by (simp_all add: completed_store_def received_store_eval available_def set_stage_def new_store_def)
  ultimately show ?thesis using f(1)
    by (simp add: Commit_def with_request_def check_request_def) (simp add: sample_request_def)
qed

theorem commit_takes_exactly_the_received_files_witness:
  "\<exists>s'. Commit sample_lib sample_sha False 0 sample_owner (Some [(''f'', VFile sample_file)]) completed_store = (s', Inr [(''f'', VFile sample_file)])
   \<and> map_of (req_objs completed_store) 0 = Some sample_request \<and> s' = set_request 0 (sample_request\<lparr>r_state := Ready\<rparr>) completed_store"
proof -
  note c = commit_takes_exactly_the_received_files [OF sample_commit]
  have "map_of (req_objs completed_store) 0 = Some sample_request" by (simp add: completed_store_def received_store_eval)
  with c sample_commit show ?thesis by auto
qed

definition reading_ops :: "store_op list" where
  "reading_ops =
     [Op_commit False 0 sample_owner (Some [(''f'', VFile sample_file)]), Op_start False 0 sample_owner Live_ctx,
      Op_open 7 False True 0 sample_owner sample_file, Op_read 7 1 False (1, False)]"

definition executing_store :: store where
  "executing_store = run (store_step sample_lib sample_sha) completed_store reading_ops"

lemma executing_reader: "map_of (reader_objs executing_store) 7 = Some \<lparr>rd_stage = ''a'', rd_pos = 1, rd_cancelled = False, rd_closed = False\<rparr>"
  "the_stage executing_store ''a'' = Some (sample_stage\<lparr>st_ready := True\<rparr>)"
  unfolding executing_store_def reading_ops_def
  by (simp_all add: store_step_def sample_commit)
    (simp_all add: Start_def Request_Open_def Reader_Read_def openLocked_def with_request_def check_request_def set_request_def set_stage_def
      completed_store_def received_store_eval the_stage_def available_def new_store_def sample_request_def sample_file_def file_value_of_def
      same_metadata_def sample_stage_def st_size_def Let_def)

theorem a_completed_file_never_changes_witness:
  "\<exists>u'. Complete sample_sha False 0 sample_owner ''a'' 2 (sample_sha ''hi'') received_store = (completed_store, Inr sample_file)
   \<and> Reader_Read 7 9 False (9, False) executing_store = (u', Inr ''i'')
   \<and> (\<exists>bytes. sample_sha bytes = sample_sha ''hi'' \<and> int (length bytes) = 2 \<and> ''i'' = take 1 (drop 1 bytes))"
proof -
  obtain u' where r: "Reader_Read 7 9 False (9, False) executing_store = (u', Inr ''i'')"
    using executing_reader by (simp add: Reader_Read_def sample_stage_def Let_def)
  have "rd_stage \<lparr>rd_stage = ''a'', rd_pos = 1, rd_cancelled = False, rd_closed = False\<rparr> = file_ID sample_file"
    by (simp add: sample_file_def file_value_of_def)
  from a_completed_file_never_changes [OF sample_complete executing_store_def executing_reader(1) this r]
  show ?thesis using sample_complete r by auto
qed

section \<open>A released request whose generation is revoked\<close>






section \<open>Shutdown\<close>

lemma cleanup_keeps:
  "reader_objs (fst (cleanupLocked io i s)) = reader_objs s" "lease_objs (fst (cleanupLocked io i s)) = lease_objs s"
  "the_stage (fst (cleanupLocked io i s)) j = None \<longleftrightarrow> the_stage s j = None"
  "fst (io i) \<Longrightarrow> snd (io i) \<Longrightarrow> snd (cleanupLocked io i s) = None"
  by (simp_all add: cleanupLocked_def releaseSlotLocked_def set_stage_def the_stage_def map_of_update Let_def split: option.split)

lemma retire_keeps:
  "reader_objs (retire_stage i s) = reader_objs s" "lease_objs (retire_stage i s) = lease_objs s"
  "the_stage (retire_stage i s) j = None \<longleftrightarrow> the_stage s j = None"
  by (simp_all add: retire_stage_def set_stage_def the_stage_def map_of_update split: option.split)

lemma is_live_slot: "is_live (releaseSlotLocked k s) j = is_live s j"
  by (simp add: is_live_def the_stage_def)

lemma cleanup_removes:
  assumes "fst (io i)" "snd (io i)" "open_readers s i = []"
  shows "\<not> is_live (fst (cleanupLocked io i (retire_stage i s))) i"
proof (cases "the_stage s i")
  case None
  then show ?thesis by (simp add: cleanupLocked_def retire_stage_def is_live_def)
next
  case (Some st)
  then have "the_stage (retire_stage i s) i = Some (st\<lparr>st_retired := True\<rparr>)" by (simp add: retire_stage_def)
  moreover have "open_readers (retire_stage i s) i = []" using assms(3) by (simp add: open_readers_def retire_keeps)
  ultimately show ?thesis using assms(1,2)
    by (simp add: cleanupLocked_def Let_def is_live_slot is_live_def [of "set_stage _ _ _"] split: option.split)
qed

definition shut_reader :: "reader \<Rightarrow> reader" where
  "shut_reader r = (if rd_closed r then r else r\<lparr>rd_cancelled := True, rd_closed := True\<rparr>)"

lemma shut_reader_simps [simp]: "rd_closed (shut_reader r)" "rd_stage (shut_reader r) = rd_stage r" "shut_reader (shut_reader r) = shut_reader r"
  by (simp_all add: shut_reader_def)

lemma close_keeps:
  assumes "\<And>j. fst (io j) \<and> snd (io j)"
  shows "lease_objs (fst (closeLocked io True rd s)) = lease_objs s" "snd (closeLocked io True rd s) = None"
    "the_stage (fst (closeLocked io True rd s)) j = None \<longleftrightarrow> the_stage s j = None"
    "map_of (reader_objs (fst (closeLocked io True rd s))) q = (if q = rd then map_option shut_reader (map_of (reader_objs s) q) else map_of (reader_objs s) q)"
    "distinct_keys (reader_objs s) \<Longrightarrow> distinct_keys (reader_objs (fst (closeLocked io True rd s)))"
  using assms by (simp_all add: closeLocked_def cleanup_keeps map_of_update distinct_keys_update shut_reader_def split: option.split)
    (simp_all add: the_stage_def)

lemma close_all_keeps:
  assumes io: "\<And>j. fst (io j) \<and> snd (io j)"
  shows "lease_objs (fst (close_readers io (\<lambda>_. True) rds s)) = lease_objs s" "snd (close_readers io (\<lambda>_. True) rds s) = []"
    "the_stage (fst (close_readers io (\<lambda>_. True) rds s)) j = None \<longleftrightarrow> the_stage s j = None"
    "distinct_keys (reader_objs s) \<Longrightarrow> distinct_keys (reader_objs (fst (close_readers io (\<lambda>_. True) rds s)))"
    "map_of (reader_objs (fst (close_readers io (\<lambda>_. True) rds s))) q =
       (if q \<in> set rds then map_option shut_reader (map_of (reader_objs s) q) else map_of (reader_objs s) q)"
  by (induction rds arbitrary: s) (simp_all add: split_beta close_keeps [where io = io, OF io] option.map_comp o_def)

lemma no_readers_left:
  assumes io: "\<And>j. fst (io j) \<and> snd (io j)" and d: "distinct_keys (reader_objs s)"
  shows "open_readers (fst (close_readers io (\<lambda>_. True) (open_readers s i) s)) i = []"
proof -
  let ?t = "fst (close_readers io (\<lambda>_. True) (open_readers s i) s)"
  note c = close_all_keeps [where io = io, OF io, where rds = "open_readers s i" and s = s]
  have shut: "rd_closed r" if "(q, r) \<in> set (reader_objs ?t)" "rd_stage r = i" for q r
  proof -
    have "map_of (reader_objs ?t) q = Some r" using that(1) c(4) [OF d] by (simp add: distinct_keys_def)
    then have r: "(if q \<in> set (open_readers s i) then map_option shut_reader (map_of (reader_objs s) q) else map_of (reader_objs s) q) = Some r"
      using c(5) by simp
    show ?thesis
    proof (cases "q \<in> set (open_readers s i)")
      case True
      with r show ?thesis by auto
    next
      case False
      with r that(2) show ?thesis by (force simp: open_readers_def dest: map_of_SomeD)
    qed
  qed
  have "filter (\<lambda>kr. rd_stage (snd kr) = i \<and> \<not> rd_closed (snd kr)) (reader_objs ?t) = []"
    unfolding filter_empty_conv using shut by (metis prod.collapse)
  then show ?thesis by (simp only: open_readers_def [of ?t] list.map)
qed

lemma shut_stages_clears:
  assumes io: "\<And>j. fst (io j) \<and> snd (io j)" and d: "distinct_keys (reader_objs s)"
  shows "lease_objs (fst (shut_stages io (\<lambda>_. True) ids s)) = lease_objs s \<and> snd (shut_stages io (\<lambda>_. True) ids s) = []
    \<and> (\<forall>i \<in> set ids. \<not> is_live (fst (shut_stages io (\<lambda>_. True) ids s)) i)
    \<and> (\<forall>j. the_stage (fst (shut_stages io (\<lambda>_. True) ids s)) j = None \<longleftrightarrow> the_stage s j = None)"
  using d
proof (induction ids arbitrary: s)
  case (Cons i ids)
  let ?t = "fst (close_readers io (\<lambda>_. True) (open_readers s i) s)"
  let ?u = "fst (cleanupLocked io i (retire_stage i ?t))"
  note c = close_all_keeps [where io = io, OF io, where rds = "open_readers s i" and s = s]
  have gone: "\<not> is_live ?u i" using io no_readers_left [where io = io, OF io Cons.prems] by (intro cleanup_removes) auto
  have "distinct_keys (reader_objs ?u)" using c Cons.prems by (simp add: cleanup_keeps retire_keeps)
  note ih = Cons.IH [OF this]
  have "\<not> is_live (fst (shut_stages io (\<lambda>_. True) ids ?u)) i"
  proof
    assume "is_live (fst (shut_stages io (\<lambda>_. True) ids ?u)) i"
    moreover have "ext ?u (fst (shut_stages io (\<lambda>_. True) ids ?u))" by (rule shut_stages_ext)
    moreover have "the_stage (fst (shut_stages io (\<lambda>_. True) ids ?u)) i \<noteq> None \<Longrightarrow> the_stage ?u i \<noteq> None" using ih by simp
    ultimately show False using gone by (fastforce simp: is_live_def ext_def later_def split: option.splits)
  qed
  then show ?case using ih c io by (simp add: split_beta cleanup_keeps retire_keeps)
qed simp

lemma live_iff:
  assumes "stages_ok s"
  shows "i \<in> set (live s) \<longleftrightarrow> is_live s i"
proof -
  have "(i, st) \<in> set (stage_objs s) \<longleftrightarrow> map_of (stage_objs s) i = Some st" for st
    using assms by (simp add: stages_ok_def distinct_keys_def)
  moreover have "i \<in> set (live s) \<longleftrightarrow> (\<exists>st. (i, st) \<in> set (stage_objs s) \<and> st_live st)" by (force simp: live_def)
  ultimately show ?thesis by (auto simp: is_live_def the_stage_def split: option.split)
qed

lemma ext_live:
  assumes "ext s t" "the_stage s i = Some st" "is_live t i"
  shows "is_live s i"
proof -
  obtain st' where "the_stage t i = Some st'" "later st st'" using assms(1,2) by (auto simp: ext_def)
  then show ?thesis using assms(2,3) by (simp add: is_live_def later_def)
qed

lemma shut_down:
  assumes ok: "store_ok s" and io: "\<And>j. fst (io j) \<and> snd (io j)"
  shows "live (fst (shut_stages io (\<lambda>_. True) (live s) s)) = []"
proof -
  let ?u = "fst (shut_stages io (\<lambda>_. True) (live s) s)"
  have d: "distinct_keys (reader_objs s)" and so: "stages_ok s" using ok by (auto simp: store_ok_def readers_ok_def)
  have su: "stages_ok ?u" using shut_stages_ok [OF ok] by (simp add: store_ok_def)
  note c = shut_stages_clears [where io = io, OF io d, where ids = "live s"]
  have "\<not> is_live ?u i" for i
  proof
    assume l: "is_live ?u i"
    then have "the_stage ?u i \<noteq> None" by (auto simp: is_live_def split: option.splits)
    then obtain st where st: "the_stage s i = Some st" using c by (cases "the_stage s i") simp_all
    then have "is_live s i" using ext_live [OF shut_stages_ext st l] by simp
    then show False using c l live_iff [OF so, of i] by blast
  qed
  then show ?thesis using live_iff [OF su] by (cases "live ?u") auto
qed

text \<open>
  C35: Closing a store in whatever state its calls have left it, when the file system does what it is asked, reports
  success and leaves nothing behind: no object on disk, no open file, no open reader, and no byte counted but those of
  leases their owners have not released.
\<close>

theorem closing_the_store_leaves_nothing:
  assumes "opened_store s" and t: "t = run (store_step L sha) s ops" "\<not> s_closed t"
    and io: "\<forall>j. fst (io j) \<and> snd (io j)" and cl: "Store_Close io (\<lambda>_. True) True t = (u, res)"
  shows "res = Inr () \<and> live u = [] \<and> n_readers u = 0 \<and> used u = total_of lease_charge (lease_objs t)
    \<and> (\<forall>i st. the_stage u i = Some st \<longrightarrow> \<not> st_file st)"
proof -
  have io': "\<And>j. fst (io j) \<and> snd (io j)" using io by blast
  have "store_ok t" using artifacts.reachable_inv [OF assms(1)] t(1) by simp
  define s1 where "s1 = fold shut_request (map snd (req_table t)) (t\<lparr>s_closed := True\<rparr>)"
  have ok1: "store_ok s1" unfolding s1_def using \<open>store_ok t\<close> by (intro shut_requests_ok) simp
  have l1: "lease_objs (fold shut_request ks x) = lease_objs x" for ks x
    by (induction ks arbitrary: x) (simp_all add: shut_request_def set_request_def split: option.split)
  let ?v = "fst (shut_stages io (\<lambda>_. True) (live s1) s1)"
  have d: "distinct_keys (reader_objs s1)" using ok1 by (simp add: store_ok_def readers_ok_def)
  note c = shut_stages_clears [where io = io, OF io' d, where ids = "live s1"]
  have u: "u = ?v\<lparr>closeErr := None\<rparr>" "res = Inr ()"
    using cl t(2) c by (auto simp: Store_Close_def s1_def [symmetric] Let_def split_beta joined_def)
  have ok: "store_ok u" using shut_stages_ok [OF ok1] u(1) by simp
  then have so: "stages_ok u" by (simp add: store_ok_def)
  have live: "live u = []" using shut_down [OF ok1, of io] io' u(1) by (simp add: live_def)
  then have dead: "\<not> st_live st" if "the_stage u i = Some st" for i st
    using live_iff [OF so, of i] that by (simp add: is_live_def)
  have "\<not> st_file st" if "the_stage u i = Some st" for i st
    using stage_okD [OF ok that] dead [OF that] by (simp add: stage_ok_def)
  moreover have "total_of charge (stage_objs u) = 0"
    using so dead by (intro total_zero) (auto simp: stages_ok_def charge_def the_stage_def)
  moreover have "n_readers u = 0"
  proof -
    have "rd_closed r" if "map_of (reader_objs u) q = Some r" for q r
      using ok that dead unfolding store_ok_def readers_ok_def by blast
    then show ?thesis using ok by (auto simp: store_ok_def readers_ok_def intro!: total_zero)
  qed
  moreover have "lease_objs u = lease_objs t" using c u(1) by (simp add: s1_def l1)
  ultimately show ?thesis using u(2) live ok by (simp add: store_ok_def accounts_def)
qed

theorem closing_the_store_leaves_nothing_witness:
  "let t = run (store_step sample_lib (\<lambda>b. b)) (new_store 100 1 2 1) sample_ops in
   \<not> s_closed t \<and> live t = [''a''] \<and> used (fst (Store_Close (\<lambda>_. (True, True)) (\<lambda>_. True) True t)) = total_of lease_charge (lease_objs t)
   \<and> live (fst (Store_Close (\<lambda>_. (True, True)) (\<lambda>_. True) True t)) = []"
proof -
  define t where "t = run (store_step sample_lib (\<lambda>b. b)) (new_store 100 1 2 1) sample_ops"
  have "opened_store (new_store 100 1 2 1)"
    unfolding opened_store_def by (intro exI [of _ 100] exI [of _ 1] exI [of _ 2]) (simp add: max_int64_def)
  moreover have t: "\<not> s_closed t" "live t = [''a'']" unfolding t_def by (simp_all add: store_eval spool_names Let_def)
  ultimately have "live (fst (Store_Close (\<lambda>_. (True, True)) (\<lambda>_. True) True t)) = []
      \<and> used (fst (Store_Close (\<lambda>_. (True, True)) (\<lambda>_. True) True t)) = total_of lease_charge (lease_objs t)"
    using closing_the_store_leaves_nothing [OF _ t_def t(1), of "\<lambda>_. (True, True)" "fst (Store_Close (\<lambda>_. (True, True)) (\<lambda>_. True) True t)"
        "snd (Store_Close (\<lambda>_. (True, True)) (\<lambda>_. True) True t)"] by simp
  with t show ?thesis by (simp add: t_def [symmetric] Let_def)
qed

end
