(* ===== verification/Input_Files.thy ===== *)
theory Input_Files
  imports Binding Frames
begin

text \<open>
  The files of a request take their places in its parameters (\<^verbatim>\<open>src/internal/agent/input_commit.go\<close>): each binding names a
  received file and the JSON pointer of a placeholder, a null, that the file replaces.
\<close>

section \<open>Pointers of placeholders\<close>

text \<open>\<^verbatim>\<open>string(b)\<close> for a byte: the encoding of the code point with that number.\<close>

definition string_of_byte :: "char \<Rightarrow> string" where
  "string_of_byte c = (if byte c < 128 then [c] else [char_of (192 + byte c div 64), char_of (128 + byte c mod 64)])"

fun input_token :: "string \<Rightarrow> string option" where
  "input_token [] = Some []"
| "input_token (c # s) =
     (if c \<noteq> CHR ''~'' then map_option (\<lambda>t. string_of_byte c @ t) (input_token s)
      else case s of
        [] \<Rightarrow> None
      | d # t \<Rightarrow>
          if d \<noteq> CHR ''0'' \<and> d \<noteq> CHR ''1'' then None
          else map_option (\<lambda>u. (if d = CHR ''0'' then CHR ''~'' else CHR ''/'') # u) (input_token t))"

definition pointer_tokens :: "string \<Rightarrow> string list" where
  "pointer_tokens p = Split (CHR ''/'') (if HasPrefix p ''/'' then tl p else p)"

text \<open>\<^verbatim>\<open>ParseUint\<close> with 63 bits, and the comparison with the index printed again.\<close>

definition array_index :: "string \<Rightarrow> nat \<Rightarrow> nat option" where
  "array_index token n =
     (if \<not> index_syntax token \<or> index_value token > max_int64 \<or> index_value token \<ge> int n then None else Some (nat (index_value token)))"

section \<open>Replacement\<close>

fun place :: "file_value \<Rightarrow> string list \<Rightarrow> val \<Rightarrow> val result" where
  "place v [] cur = Inr cur"
| "place v (raw # rest) cur =
     (case input_token raw of
        None \<Rightarrow> Inl ''invalid pointer''
      | Some token \<Rightarrow>
          (case cur of
             VObj m \<Rightarrow>
               (case map_of m token of
                  None \<Rightarrow> Inl ''missing placeholder''
                | Some child \<Rightarrow>
                    andThen (if rest \<noteq> [] then place v rest child else if child \<noteq> VNull then Inl ''invalid placeholder'' else Inr (VFile v))
                      (\<lambda>c. Inr (VObj (AList.update token c m))))
           | VArr xs \<Rightarrow>
               (case array_index token (length xs) of
                  None \<Rightarrow> Inl ''invalid index''
                | Some i \<Rightarrow>
                    andThen (if rest \<noteq> [] then place v rest (xs ! i) else if xs ! i \<noteq> VNull then Inl ''invalid placeholder'' else Inr (VFile v))
                      (\<lambda>c. Inr (VArr (xs[i := c]))))
           | _ \<Rightarrow> Inl ''invalid placeholder path''))"

fun replace_loop :: "FileBinding list \<Rightarrow> (string, file_value) go_map \<Rightarrow> string list \<Rightarrow> val \<Rightarrow> (string list \<times> val) result" where
  "replace_loop [] vals seen params = Inr (seen, params)"
| "replace_loop (b # bs) vals seen params =
     (case map_of vals (binding_FileID b) of
        None \<Rightarrow> Inl ''invalid input binding''
      | Some v \<Rightarrow>
          if file_Pointer v \<noteq> binding_Pointer b \<or> binding_FileID b \<in> set seen then Inl ''invalid input binding''
          else if \<not> HasPrefix (binding_Pointer b) ''/'' then Inl ''invalid pointer''
          else andThen (place v (pointer_tokens (binding_Pointer b)) params) (replace_loop bs vals (binding_FileID b # seen)))"

definition replaceInputFiles :: "(string \<times> val) list \<Rightarrow> FileBinding list \<Rightarrow> (string, file_value) go_map \<Rightarrow> val result" where
  "replaceInputFiles params bindings vals =
     andThen (replace_loop bindings vals [] (VObj params)) (\<lambda>(seen, params').
       if length seen \<noteq> length vals then Inl ''unused input'' else Inr params')"

section \<open>Positions\<close>











lemma Split_nonempty [simp]: "Split sep s \<noteq> []"
  by (induction s) (auto split: list.splits)




section \<open>All files\<close>









definition sample_file :: "string \<Rightarrow> string \<Rightarrow> file_value" where
  "sample_file i p = \<lparr>file_Pointer = p, file_ID = i, file_Name = ''n'', file_MIMEType = ''text/plain'', file_SHA256 = [], file_RequestID = ''r'', file_SizeBytes = 0\<rparr>"



section \<open>Names outside ASCII\<close>

lemma unescapePointer_plain: "CHR ''~'' \<notin> set k \<Longrightarrow> unescapePointer k = Inr k"
  by (induction k) auto

lemma input_token_plain: "CHR ''~'' \<notin> set k \<Longrightarrow> input_token k = Some (concat (map string_of_byte k))"
  by (induction k) auto

lemma string_of_byte_length: "length (string_of_byte c) = (if byte c < 128 then 1 else 2)"
  by (simp add: string_of_byte_def)

lemma string_of_bytes_length: "length k \<le> length (concat (map string_of_byte k))"
  by (induction k) (auto simp: string_of_byte_length)

lemma string_of_bytes_longer: "\<exists>c \<in> set k. 128 \<le> byte c \<Longrightarrow> length k < length (concat (map string_of_byte k))"
proof (induction k)
  case (Cons c k)
  then show ?case using string_of_bytes_length [of k] by (cases "128 \<le> byte c") (auto simp: string_of_byte_length)
qed simp

lemma Split_plain: "sep \<notin> set s \<Longrightarrow> Split sep s = [s]"
  by (induction s) auto

text \<open>
  C39: a file parameter whose name has a character outside ASCII can never be delivered. The schema of the capability
  resolves the pointer of such a property, but \<^verbatim>\<open>replaceInputFiles\<close> reads each byte of the name as a code point of its own and
  encodes it again, so it looks for a longer, different name and reports the placeholder as missing.
\<close>

theorem non_ascii_file_parameter_is_refused:
  assumes "\<exists>c \<in> set k. 128 \<le> byte c" "CHR ''~'' \<notin> set k" "CHR ''/'' \<notin> set k" "file_Pointer v = CHR ''/'' # k"
    "contains (Types s) ''object''" "map_of (Properties s) k = Some child"
  shows "(\<exists>g. ResolvePointer s (CHR ''/'' # k) = Inr (child, g))
    \<and> replaceInputFiles [(k, VNull)] [\<lparr>binding_Pointer = CHR ''/'' # k, binding_FileID = i\<rparr>] [(i, v)] = Inl ''missing placeholder''"
proof -
  have "concat (map string_of_byte k) \<noteq> k" using string_of_bytes_longer [OF assms(1)] by auto
  then show ?thesis using assms(2-6)
    by (auto simp: ResolvePointer_def Split_plain unescapePointer_plain Let_def replaceInputFiles_def HasPrefix_def pointer_tokens_def
      input_token_plain)
qed

text \<open>The name is the letter e with an acute accent.\<close>

definition accented :: string where
  "accented = [char_of (195 :: nat), char_of (169 :: nat)]"

definition object_with :: "string \<Rightarrow> schema" where
  "object_with k = Schema [''object''] [(k, any_schema)] [k] True None False None [] VNull False False [] None None [] [] False"

theorem non_ascii_file_parameter_is_refused_witness:
  "replaceInputFiles [(accented, VNull)] [\<lparr>binding_Pointer = CHR ''/'' # accented, binding_FileID = ''f''\<rparr>]
     [(''f'', sample_file ''f'' (CHR ''/'' # accented))] = Inl ''missing placeholder''"
proof -
  have plain: "\<exists>c \<in> set accented. 128 \<le> byte c" "CHR ''~'' \<notin> set accented" "CHR ''/'' \<notin> set accented" by code_simp+
  show ?thesis
    using non_ascii_file_parameter_is_refused [OF plain, of "sample_file ''f'' (CHR ''/'' # accented)" "object_with accented" any_schema "''f''"]
    by (simp add: sample_file_def object_with_def contains_def)
qed

end
