(* ===== verification/Csv.thy ===== *)
theory Csv
  imports Binding
begin

text \<open>
  CSV text: reading (\<^verbatim>\<open>src/internal/agent/csv_parser.go\<close>), the record writer of \<^verbatim>\<open>encoding/csv\<close> with the
  terminator of \<^verbatim>\<open>src/internal/contract/csv_output.go\<close>, and the typed cells and filters of
  \<^verbatim>\<open>src/internal/agent/provider_csv.go\<close>. The Shift_JIS table is the encoding library's and an argument.
\<close>

section \<open>Characters\<close>

datatype csv_char = Char nat string | End_of_file | Bad_char string

definition shift_jis_fix :: "nat \<Rightarrow> nat \<Rightarrow> nat" where
  "shift_jis_fix pair r =
     (if pair = 33120 then 12316 else if pair = 33121 then 8214 else if pair = 33148 then 8722
      else if pair = 33169 then 162 else if pair = 33170 then 163 else if pair = 33226 then 172 else r)"

text \<open>\<open>table b t\<close> is the rune of a two-byte character, \<open>None\<close> when the pair is not assigned.\<close>

definition csv_next :: "(nat \<Rightarrow> nat \<Rightarrow> nat option) \<Rightarrow> string \<Rightarrow> string \<Rightarrow> csv_char" where
  "csv_next table encoding data =
     (case data of
        [] \<Rightarrow> End_of_file
      | c # rest \<Rightarrow>
          if encoding = ''utf-8'' then
            (case decode_rune data of
               None \<Rightarrow> Bad_char ''invalid UTF-8 CSV''
             | Some (r, n) \<Rightarrow> Char r (drop n data))
          else
            (let b = byte c in
             if b < 128 then Char b rest
             else if 161 \<le> b \<and> b \<le> 223 then Char (b + 65377 - 161) rest
             else if encoding = ''cp932'' \<and> b = 128 then Char 128 rest
             else if encoding = ''cp932'' \<and> b = 160 then Char 63728 rest
             else if encoding = ''cp932'' \<and> b \<ge> 253 then Char (63729 + (b - 253)) rest
             else if \<not> (129 \<le> b \<and> b \<le> 159 \<or> 224 \<le> b \<and> b \<le> 252) \<or> encoding = ''shift_jis'' \<and> (b = 135 \<or> b > 234)
             then Bad_char ''invalid CSV encoding lead''
             else case rest of
               [] \<Rightarrow> Bad_char ''unexpected EOF''
             | t # rest' \<Rightarrow>
                 (let trail = byte t in
                  if trail < 64 \<or> trail = 127 \<or> trail > 252 then Bad_char ''invalid CSV encoding trail''
                  else if 240 \<le> b \<and> b \<le> 249 then
                    Char (57344 + (b - 240) * 188 + (if trail \<ge> 128 then trail - 65 else trail - 64)) rest'
                  else case table b trail of
                    None \<Rightarrow> Bad_char ''unassigned CSV encoding pair''
                  | Some r \<Rightarrow> Char (if encoding = ''shift_jis'' then shift_jis_fix (b * 256 + trail) r else r) rest')))"

lemma csv_next_shorter: "csv_next table encoding data = Char r rest \<Longrightarrow> length rest < length data"
  by (auto simp: csv_next_def Let_def split: list.splits option.splits prod.splits if_splits
      dest: decode_rune_width simp del: decode_rune.simps)

section \<open>Records\<close>

datatype csv_state = Field_start | In_quotes | Quote_seen | In_field

definition string_of_runes :: "nat list \<Rightarrow> string" where
  "string_of_runes rs = concat (map encode_rune rs)"

text \<open>The newline a carriage return outside quotes must be followed by.\<close>

definition after_cr :: "(nat \<Rightarrow> nat \<Rightarrow> nat option) \<Rightarrow> string \<Rightarrow> string \<Rightarrow> string result" where
  "after_cr table encoding data =
     (case csv_next table encoding data of
        Bad_char e \<Rightarrow> Inl e
      | End_of_file \<Rightarrow> Inl ''bare CR outside quoted CSV field''
      | Char r rest \<Rightarrow> if r = 10 then Inr rest else Inl ''bare CR outside quoted CSV field'')"

lemma after_cr_shorter: "after_cr table encoding data = Inr rest \<Longrightarrow> length rest < length data"
  by (auto simp: after_cr_def split: csv_char.splits if_splits dest: csv_next_shorter)

text \<open>\<^verbatim>\<open>read\<close>: one record and the data behind it, \<open>None\<close> at the end of the data.\<close>

function csv_read :: "(nat \<Rightarrow> nat \<Rightarrow> nat option) \<Rightarrow> string \<Rightarrow> nat \<Rightarrow> string \<Rightarrow> string list \<Rightarrow> nat list \<Rightarrow> csv_state \<Rightarrow> bool
    \<Rightarrow> (string list \<times> string) option result" where
  "csv_read table encoding delimiter data fs acc state started =
     (case csv_next table encoding data of
        Bad_char e \<Rightarrow> Inl e
      | End_of_file \<Rightarrow>
          if state = In_quotes then Inl ''unterminated CSV quote''
          else if \<not> started then Inr None
          else Inr (Some (fs @ [string_of_runes acc], []))
      | Char r rest \<Rightarrow>
          if state = In_quotes then
            (if r = 34 then csv_read table encoding delimiter rest fs acc Quote_seen started
             else csv_read table encoding delimiter rest fs (acc @ [r]) In_quotes started)
          else if state = Quote_seen \<and> r = 34 then csv_read table encoding delimiter rest fs (acc @ [r]) In_quotes started
          else if r = delimiter then
            csv_read table encoding delimiter rest (fs @ [string_of_runes acc]) [] Field_start True
          else if r = 10 \<or> r = 13 then
            (case (if r = 13 then after_cr table encoding rest else Inr rest) of
               Inl e \<Rightarrow> Inl e
             | Inr rest' \<Rightarrow>
                 if \<not> started then csv_read table encoding delimiter rest' [] [] Field_start False
                 else Inr (Some (fs @ [string_of_runes acc], rest')))
          else if state = Quote_seen then Inl ''unexpected character after CSV quote''
          else if r = 34 then
            (if state \<noteq> Field_start then Inl ''quote in unquoted CSV field''
             else csv_read table encoding delimiter rest fs acc In_quotes True)
          else csv_read table encoding delimiter rest fs (acc @ [r]) In_field True)"
  by auto
termination
  by (relation "measure (\<lambda>(t, e, d, data, f, v, s, st). length data)")
    (auto dest!: csv_next_shorter after_cr_shorter split: if_splits)

declare csv_read.simps [simp del]

definition csv_record :: "(nat \<Rightarrow> nat \<Rightarrow> nat option) \<Rightarrow> string \<Rightarrow> nat \<Rightarrow> string \<Rightarrow> (string list \<times> string) option result" where
  "csv_record table encoding delimiter data = csv_read table encoding delimiter data [] [] Field_start False"

section \<open>Writing records\<close>

definition is_space :: "nat \<Rightarrow> bool" where
  "is_space r \<longleftrightarrow> 9 \<le> r \<and> r \<le> 13 \<or> r = 32 \<or> r = 133 \<or> r = 160 \<or> r = 5760 \<or> 8192 \<le> r \<and> r \<le> 8202
     \<or> r = 8232 \<or> r = 8233 \<or> r = 8239 \<or> r = 8287 \<or> r = 12288"

text \<open>\<^verbatim>\<open>encoding/csv\<close> with a comma: which fields are quoted, and how.\<close>

definition fieldNeedsQuotes :: "string \<Rightarrow> bool" where
  "fieldNeedsQuotes f \<longleftrightarrow>
     f \<noteq> [] \<and> (f = [CHR 0x5C, CHR ''.''] \<or> list_ex (\<lambda>c. c = CHR 0x0A \<or> c = CHR 0x0D \<or> c = CHR 0x22 \<or> c = CHR '','') f
       \<or> (case decode_rune f of None \<Rightarrow> False | Some (r, n) \<Rightarrow> is_space r))"

definition csv_field :: "string \<Rightarrow> string" where
  "csv_field f =
     (if \<not> fieldNeedsQuotes f then f
      else CHR 0x22 # concat (map (\<lambda>c. if c = CHR 0x22 then [c, c] else [c]) f) @ [CHR 0x22])"

definition csv_line :: "string list \<Rightarrow> string" where
  "csv_line record = join '','' (map csv_field record) @ [CHR 0x0A]"

text \<open>
  The terminator writer holds back the last byte of a record. \<open>put\<close> is the destination: it takes bytes
  and says how many it took and whether it failed.
\<close>

record csv_tail =
  tail_last :: char
  tail_pending :: bool

definition tail_start :: csv_tail where
  "tail_start = \<lparr>tail_last = CHR 0x00, tail_pending = False\<rparr>"

definition tail_Write :: "('d \<Rightarrow> string \<Rightarrow> 'd \<times> nat \<times> string option) \<Rightarrow> csv_tail \<Rightarrow> 'd \<Rightarrow> string \<Rightarrow> csv_tail \<times> 'd \<times> nat result" where
  "tail_Write put w d p =
     (if p = [] then (w, d, Inr 0)
      else
        (case (if tail_pending w
               then (case put d [tail_last w] of
                       (d1, n, Some e) \<Rightarrow> (d1, Some e)
                     | (d1, n, None) \<Rightarrow> (d1, if n \<noteq> 1 then Some ''short write'' else None))
               else (d, None)) of
           (d1, Some e) \<Rightarrow> (w, d1, Inl e)
         | (d1, None) \<Rightarrow>
             (case put d1 (butlast p) of
                (d2, n, Some e) \<Rightarrow> (w, d2, Inl e)
              | (d2, n, None) \<Rightarrow>
                  if n \<noteq> length p - 1 then (w, d2, Inl ''short write'')
                  else (\<lparr>tail_last = last p, tail_pending = True\<rparr>, d2, Inr (length p)))))"

definition tail_finish :: "('d \<Rightarrow> string \<Rightarrow> 'd \<times> nat \<times> string option) \<Rightarrow> csv_tail \<Rightarrow> 'd \<Rightarrow> 'd \<times> unit result" where
  "tail_finish put w d =
     (if \<not> tail_pending w \<or> tail_last w \<noteq> CHR 0x0A then (d, Inl ''CSV record termination is invalid'')
      else case put d [CHR 0x0D, CHR 0x0A] of
        (d1, n, Some e) \<Rightarrow> (d1, Inl e)
      | (d1, n, None) \<Rightarrow> (d1, if n \<noteq> 2 then Inl ''short write'' else Inr ()))"

text \<open>A record written in any pieces, and what it comes to on a destination that takes everything.\<close>

fun tail_pieces :: "('d \<Rightarrow> string \<Rightarrow> 'd \<times> nat \<times> string option) \<Rightarrow> csv_tail \<Rightarrow> 'd \<Rightarrow> string list \<Rightarrow> 'd \<times> unit result" where
  "tail_pieces put w d [] = tail_finish put w d"
| "tail_pieces put w d (p # ps) =
     (case tail_Write put w d p of
        (w1, d1, Inl e) \<Rightarrow> (d1, Inl e)
      | (w1, d1, Inr n) \<Rightarrow> tail_pieces put w1 d1 ps)"

definition keep_all :: "string \<Rightarrow> string \<Rightarrow> string \<times> nat \<times> string option" where
  "keep_all d p = (d @ p, length p, None)"

definition csv_text :: "string list \<Rightarrow> string" where
  "csv_text record = butlast (csv_line record) @ [CHR 0x0D, CHR 0x0A]"

definition trim_left_space :: "string \<Rightarrow> string" where
  "trim_left_space s = drop (sum_list (map rune_len (takeWhile is_space (runes s)))) s"

definition escapeFormula :: "string \<Rightarrow> string" where
  "escapeFormula v =
     (let trimmed = trim_left_space v; leading = take (length v - length trimmed) v in
      if ContainsAny leading [CHR 0x09, CHR 0x0D] \<or> trimmed \<noteq> [] \<and> hd trimmed \<in> set ''=+-@''
      then CHR 0x27 # v else v)"

definition csvCell :: "float_lib \<Rightarrow> val \<Rightarrow> bool \<Rightarrow> string result" where
  "csvCell F v escape =
     (case v of
        VNull \<Rightarrow> Inr []
      | VStr x \<Rightarrow> Inr (if escape then escapeFormula x else x)
      | VBool _ \<Rightarrow> (case CanonicalJSON F v of None \<Rightarrow> Inl ''number must be finite'' | Some b \<Rightarrow> Inr b)
      | VInt _ \<Rightarrow> (case CanonicalJSON F v of None \<Rightarrow> Inl ''number must be finite'' | Some b \<Rightarrow> Inr b)
      | VGoInt _ \<Rightarrow> (case CanonicalJSON F v of None \<Rightarrow> Inl ''number must be finite'' | Some b \<Rightarrow> Inr b)
      | VFloat _ \<Rightarrow> (case CanonicalJSON F v of None \<Rightarrow> Inl ''number must be finite'' | Some b \<Rightarrow> Inr b)
      | _ \<Rightarrow> Inl ''CSV cell must be a JSON scalar'')"

section \<open>Typed cells and filters\<close>

definition vget :: "val \<Rightarrow> string \<Rightarrow> val" where
  "vget v k = (case v of VObj kvs \<Rightarrow> (case map_of kvs k of None \<Rightarrow> VNull | Some w \<Rightarrow> w) | _ \<Rightarrow> VNull)"

text \<open>\<^verbatim>\<open>csvNumber\<close>: sign, digits with an optional fraction or a fraction alone, exponent.\<close>

definition csv_number_syntax :: "string \<Rightarrow> bool" where
  "csv_number_syntax s =
     (let unsign = (\<lambda>t. if t \<noteq> [] \<and> (hd t = CHR ''+'' \<or> hd t = CHR ''-'') then tl t else t);
          t = unsign s; whole = takeWhile is_digit t; r1 = dropWhile is_digit t;
          point = (r1 \<noteq> [] \<and> hd r1 = CHR ''.'');
          frac = (if point then takeWhile is_digit (tl r1) else []); r2 = (if point then dropWhile is_digit (tl r1) else r1) in
      (whole \<noteq> [] \<or> frac \<noteq> [])
      \<and> (r2 = [] \<or> (hd r2 = CHR ''e'' \<or> hd r2 = CHR ''E'') \<and> unsign (tl r2) \<noteq> [] \<and> list_all is_digit (unsign (tl r2))))"

definition provider_csvCell :: "float_lib \<Rightarrow> string \<Rightarrow> val \<Rightarrow> val result" where
  "provider_csvCell F cell raw =
     (if raw = VNull then Inr (VStr cell)
      else if (case vget raw ''null_values'' of VStrs nulls \<Rightarrow> cell \<in> set nulls | _ \<Rightarrow> False) then
        (if vget raw ''nullable'' = VBool True then Inr VNull else Inl ''CSV null is not allowed'')
      else
        (let mismatch = Inl ''CSV cell does not match its parsed type'' in
         if vget raw ''type'' = VStr ''string'' then Inr (VStr cell)
         else if vget raw ''type'' = VStr ''integer'' then
           (case number_int64 cell of Some n \<Rightarrow> Inr (VInt n) | None \<Rightarrow> mismatch)
         else if vget raw ''type'' = VStr ''number'' then
           (if \<not> csv_number_syntax cell then mismatch
            else case parse_float F cell of
              Some f \<Rightarrow> if is_finite f then Inr (VFloat f) else mismatch
            | None \<Rightarrow> mismatch)
         else if vget raw ''type'' = VStr ''boolean'' \<and> cell = ''true'' then Inr (VBool True)
         else if vget raw ''type'' = VStr ''boolean'' \<and> cell = ''false'' then Inr (VBool False)
         else mismatch))"

definition compareCSV :: "'a :: linorder \<Rightarrow> 'a \<Rightarrow> int" where
  "compareCSV a b = (if a < b then -1 else if a > b then 1 else 0)"

definition op_holds :: "string \<Rightarrow> int \<Rightarrow> bool" where
  "op_holds op c \<longleftrightarrow> op = ''eq'' \<and> c = 0 \<or> op = ''ne'' \<and> c \<noteq> 0 \<or> op = ''lt'' \<and> c < 0 \<or> op = ''lte'' \<and> c \<le> 0
     \<or> op = ''gt'' \<and> c > 0 \<or> op = ''gte'' \<and> c \<ge> 0"

definition csv_compare :: "val \<Rightarrow> val \<Rightarrow> int option" where
  "csv_compare x arg =
     (case (x, arg) of
        (VStr a, VStr b) \<Rightarrow> Some (compareCSV a b)
      | (VInt a, VInt b) \<Rightarrow> Some (compareCSV a b)
      | (VFloat a, VFloat b) \<Rightarrow> compareNumbers (VFloat a) (VFloat b)
      | (VFloat a, VInt b) \<Rightarrow> compareNumbers (VFloat a) (VFloat (float_of_int b))
      | (VBool a, VBool b) \<Rightarrow> Some (if a = b then 0 else if a then 1 else -1)
      | _ \<Rightarrow> None)"

definition csvMatches :: "val \<Rightarrow> string \<Rightarrow> val \<Rightarrow> bool" where
  "csvMatches x op arg =
     (if x = VNull then False
      else if op = ''in'' then
        (case arg of VArr vs \<Rightarrow> list_ex (\<lambda>v. case csv_compare x v of None \<Rightarrow> False | Some c \<Rightarrow> c = 0) vs | _ \<Rightarrow> False)
      else case csv_compare x arg of None \<Rightarrow> False | Some c \<Rightarrow> op_holds op c)"

section \<open>Bound inputs\<close>

fun replace_pair :: "char \<Rightarrow> char \<Rightarrow> char \<Rightarrow> string \<Rightarrow> string" where
  "replace_pair a b new (x # y # s) =
     (if x = a \<and> y = b then new # replace_pair a b new s else x # replace_pair a b new (y # s))"
| "replace_pair a b new s = s"

definition file_token :: "string \<Rightarrow> string" where
  "file_token t = replace_pair (CHR ''~'') (CHR ''0'') (CHR ''~'') (replace_pair (CHR ''~'') (CHR ''1'') (CHR ''/'') t)"

fun file_tokens :: "val \<Rightarrow> string list \<Rightarrow> val result" where
  "file_tokens v [] = Inr v"
| "file_tokens v (raw # rest) =
     (case v of
        VObj kvs \<Rightarrow>
          (case map_of kvs (file_token raw) of None \<Rightarrow> Inl ''invalid argument'' | Some w \<Rightarrow> file_tokens w rest)
      | VArr vs \<Rightarrow>
          (case number_int64 (file_token raw) of
             None \<Rightarrow> Inl ''invalid argument''
           | Some i \<Rightarrow>
               if i < 0 \<or> i \<ge> int (length vs) then Inl ''invalid argument'' else file_tokens (vs ! nat i) rest)
      | _ \<Rightarrow> Inl ''invalid argument'')"

definition filePointer :: "val \<Rightarrow> string \<Rightarrow> val result" where
  "filePointer v pointer =
     file_tokens v (Split (CHR ''/'') (case pointer of c # t \<Rightarrow> if c = CHR ''/'' then t else pointer | [] \<Rightarrow> []))"

text \<open>The arguments of the filters, in their order: present, not null, and lists of values for \<^verbatim>\<open>in\<close>.\<close>

definition vstr :: "val \<Rightarrow> string" where
  "vstr v = (case v of VStr s \<Rightarrow> s | _ \<Rightarrow> [])"

definition csv_arguments :: "val list \<Rightarrow> val \<Rightarrow> val list result" where
  "csv_arguments conditions inp =
     traverse (\<lambda>w.
       case filePointer inp (vstr (vget w ''input'')) of
         Inl _ \<Rightarrow> Inl ''CSV filter input is missing or null''
       | Inr v \<Rightarrow>
           if v = VNull then Inl ''CSV filter input is missing or null''
           else if vget w ''op'' = VStr ''in'' then
             (case v of
                VArr vs \<Rightarrow> if list_ex (\<lambda>x. x = VNull) vs then Inl ''CSV in element is null'' else Inr v
              | _ \<Rightarrow> Inl ''CSV in input is not an array'')
           else Inr v) conditions"

section \<open>Reading files\<close>

lemma csv_read_shorter:
  "csv_read table encoding delimiter data fs acc state started = Inr (Some (out, rest)) \<Longrightarrow>
     length rest \<le> length data \<and> (\<not> started \<longrightarrow> length rest < length data)"
proof (induction "length data" arbitrary: data fs acc state started rule: less_induct)
  case less
  have IH: "length rest < length data"
    if "csv_read table encoding delimiter data' fs' acc' state' started' = Inr (Some (out, rest))" "length data' < length data"
    for data' fs' acc' state' started'
    using less(1) [OF that(2,1)] that(2) by simp
  show ?case
  proof (cases "csv_next table encoding data")
    case (Char r rest')
    have s: "length rest' < length data" using csv_next_shorter [OF Char] .
    then have t: "length x < length data" if "after_cr table encoding rest' = Inr x" for x
      using after_cr_shorter [OF that] by simp
    show ?thesis using less(2) Char s
      by (subst (asm) csv_read.simps) (auto split: if_splits sum.splits dest!: IH dest: t)
  qed (use less(2) in \<open>subst (asm) csv_read.simps, auto split: if_splits\<close>)+
qed

record csv_setup =
  su_table :: "nat \<Rightarrow> nat \<Rightarrow> nat option"
  su_floats :: float_lib
  su_settings :: val
  su_conditions :: "val list"
  su_arguments :: "val list"
  su_publish :: bool
  su_max_rows :: int
  su_max_items :: int
  su_max_depth :: int

definition su_encoding :: "csv_setup \<Rightarrow> string" where
  "su_encoding u = vstr (vget (su_settings u) ''encoding'')"

definition su_delimiter :: "csv_setup \<Rightarrow> nat" where
  "su_delimiter u =
     (case decode_rune (vstr (vget (su_settings u) ''delimiter'')) of Some (r, _) \<Rightarrow> r | None \<Rightarrow> 65533)"

definition su_columns :: "csv_setup \<Rightarrow> val" where
  "su_columns u = vget (su_settings u) ''columns''"

definition vkeys :: "val \<Rightarrow> string list" where
  "vkeys v = (case v of VObj kvs \<Rightarrow> map fst kvs | _ \<Rightarrow> [])"

text \<open>The header of one file: read and checked, or laid out by the configured positions.\<close>

definition csv_header :: "csv_setup \<Rightarrow> string \<Rightarrow> (string list \<times> string) result" where
  "csv_header u data =
     (if vget (su_settings u) ''header'' = VBool True then
        (case csv_record (su_table u) (su_encoding u) (su_delimiter u) data of
           Inl e \<Rightarrow> Inl e
         | Inr None \<Rightarrow> Inl ''CSV header is missing''
         | Inr (Some (header, rest)) \<Rightarrow>
             if [] \<in> set header \<or> \<not> distinct header then Inl ''invalid or duplicate CSV header''
             else if \<not> list_all (\<lambda>name. name \<in> set header) (vkeys (su_columns u)) then Inl ''configured CSV column is missing''
             else Inr (header, rest))
      else
        Inr (fold (\<lambda>name header.
               case vget (vget (su_columns u) name) ''position'' of VInt i \<Rightarrow> header[nat i := name] | _ \<Rightarrow> header)
             (vkeys (su_columns u)) (replicate (length (vkeys (su_columns u))) []), data))"

definition row_of :: "csv_setup \<Rightarrow> string list \<Rightarrow> string list \<Rightarrow> (string \<times> val) list result" where
  "row_of u header record =
     traverse (\<lambda>(name, cell). andThen (provider_csvCell (su_floats u) cell (vget (su_columns u) name)) (\<lambda>v. Inr (name, v)))
       (zip header record)"

definition row_matches :: "csv_setup \<Rightarrow> (string \<times> val) list \<Rightarrow> bool" where
  "row_matches u row =
     list_all (\<lambda>(w, arg). csvMatches (vget (VObj row) (vstr (vget w ''column''))) (vstr (vget w ''op'')) arg)
       (zip (su_conditions u) (su_arguments u))"

definition csvLimit :: string where
  "csvLimit = ''CSV exceeds configured resource limits''"

text \<open>The records behind a header; the state is the rows kept, the JSON items they come to, and the rows counted.\<close>

function csv_rows :: "csv_setup \<Rightarrow> string list \<Rightarrow> string \<Rightarrow> val list \<times> int \<times> int \<Rightarrow> (val list \<times> int \<times> int) result" where
  "csv_rows u header data st =
     (case csv_record (su_table u) (su_encoding u) (su_delimiter u) data of
        Inl e \<Rightarrow> Inl e
      | Inr None \<Rightarrow> Inr st
      | Inr (Some (record, rest)) \<Rightarrow>
          if length record \<noteq> length header then Inl ''CSV field count differs from header''
          else andThen (row_of u header record) (\<lambda>row.
            if \<not> row_matches u row then csv_rows u header rest st
            else
              (case st of (rows, items, n) \<Rightarrow>
                 if n \<ge> su_max_rows u then Inl csvLimit
                 else if su_publish u then
                   (let rowItems = 1 + 2 * int (length header) in
                    if rowItems > su_max_items u - items \<or> su_max_depth u < 3 then Inl csvLimit
                    else csv_rows u header rest (rows @ [VObj row], items + rowItems, n + 1))
                 else csv_rows u header rest (rows, items, n + 1))))"
  by auto
termination
  by (relation "measure (\<lambda>(u, h, data, st). length data)")
    (auto simp: csv_record_def dest!: csv_read_shorter)

declare csv_rows.simps [simp del]

text \<open>All files: the filters' columns exist, and every file has the header of the first.\<close>

definition csv_parse :: "csv_setup \<Rightarrow> string list \<Rightarrow> (val list \<times> string list \<times> int) result" where
  "csv_parse u datas =
     andThen (each (\<lambda>data (columns, st).
         andThen (csv_header u data) (\<lambda>(header, rest).
           if \<not> list_all (\<lambda>w. vstr (vget w ''column'') \<in> set header) (su_conditions u) then Inl ''CSV filter column is missing''
           else if (case columns of None \<Rightarrow> False | Some cols \<Rightarrow> cols \<noteq> header) then Inl ''CSV headers differ''
           else andThen (csv_rows u header rest st) (\<lambda>st'. Inr (Some (case columns of None \<Rightarrow> header | Some cols \<Rightarrow> cols), st'))))
       datas (None, [], 1, 0))
     (\<lambda>(columns, rows, items, n). Inr (rows, case columns of None \<Rightarrow> [] | Some cols \<Rightarrow> cols, n))"

section \<open>Encoding inverts decoding\<close>






section \<open>What is written is read back\<close>


lemma csv_next_utf8:
  assumes "decode_rune s = Some (r, n)"
  shows "csv_next table ''utf-8'' (s @ t) = Char r (drop n s @ t)"
proof -
  have "drop n (s @ t) = drop n s @ t" using decode_rune_width [OF assms] by simp
  moreover have "s @ t \<noteq> []" using assms by auto
  ultimately show ?thesis using decode_rune_append [OF assms, of t]
    by (cases "s @ t") (simp_all add: csv_next_def del: decode_rune.simps)
qed

lemma special_chars [simp]:
  "char_of (34 :: nat) = CHR 0x22" "char_of (10 :: nat) = CHR 0x0A" "char_of (13 :: nat) = CHR 0x0D" "char_of (44 :: nat) = CHR '',''"
  "byte (CHR 0x22) = 34" "byte (CHR 0x0A) = 10" "byte (CHR 0x0D) = 13" "byte (CHR '','') = 44"
  by (simp_all add: byte_def char_of_def bit_0)

lemma csv_next_ascii: "byte c < 128 \<Longrightarrow> csv_next table ''utf-8'' (c # t) = Char (byte c) t"
  using csv_next_utf8 [of "[c]" "byte c" 1 table t] by simp












lemma read_crlf:
  "state \<noteq> In_quotes \<Longrightarrow> csv_read table ''utf-8'' 44 (CHR 0x0D # CHR 0x0A # t) fs acc state started
    = (if started then Inr (Some (fs @ [string_of_runes acc], t))
       else csv_read table ''utf-8'' 44 t [] [] Field_start False)"
  by (subst csv_read.simps) (auto simp: csv_next_ascii after_cr_def)




text \<open>
  C30: A record of a single empty field, which is what a row of one column with a null or empty value
  becomes, is written as a blank line. The parser skips it, so the row is lost when the file is read.
\<close>

theorem single_empty_field_is_lost:
  "csv_text [[]] = [CHR 0x0D, CHR 0x0A]
   \<and> csv_record table ''utf-8'' 44 (csv_text [[]] @ rest) = csv_record table ''utf-8'' 44 rest"
  by (simp add: csv_record_def csv_text_def csv_line_def csv_field_def fieldNeedsQuotes_def read_crlf)

section \<open>The terminator does not depend on how a record arrives\<close>

lemma tail_Write_keep_all:
  assumes "p \<noteq> []"
  shows "tail_Write keep_all w d p =
    (\<lparr>tail_last = last p, tail_pending = True\<rparr>, d @ (if tail_pending w then [tail_last w] else []) @ butlast p, Inr (length p))"
  using assms by (auto simp: tail_Write_def keep_all_def)

lemma tail_pieces_keep_all:
  "(tail_pending w \<or> concat ps \<noteq> []) \<Longrightarrow>
   tail_pieces keep_all w d ps =
     (let s = (if tail_pending w then [tail_last w] else []) @ concat ps in
      if last s = CHR 0x0A then (d @ butlast s @ [CHR 0x0D, CHR 0x0A], Inr ())
      else (d @ butlast s, Inl ''CSV record termination is invalid''))"
proof (induction ps arbitrary: w d)
  case Nil
  then show ?case by (auto simp: tail_finish_def keep_all_def)
next
  case (Cons p ps)
  show ?case
  proof (cases "p = []")
    case True
    then show ?thesis using Cons by (simp add: tail_Write_def)
  next
    case False
    let ?w = "\<lparr>tail_last = last p, tail_pending = True\<rparr>"
    have "tail_pieces keep_all w d (p # ps)
        = tail_pieces keep_all ?w (d @ (if tail_pending w then [tail_last w] else []) @ butlast p) ps"
      by (simp add: tail_Write_keep_all [OF False])
    also have "\<dots> = (let s = last p # concat ps in
        if last s = CHR 0x0A
        then ((d @ (if tail_pending w then [tail_last w] else []) @ butlast p) @ butlast s @ [CHR 0x0D, CHR 0x0A], Inr ())
        else ((d @ (if tail_pending w then [tail_last w] else []) @ butlast p) @ butlast s, Inl ''CSV record termination is invalid''))"
      by (subst Cons.IH) simp_all
    also have "last p # concat ps = [last p] @ concat ps" by simp
    finally have eq: "tail_pieces keep_all w d (p # ps) = (let s = [last p] @ concat ps in
        if last s = CHR 0x0A
        then ((d @ (if tail_pending w then [tail_last w] else []) @ butlast p) @ butlast s @ [CHR 0x0D, CHR 0x0A], Inr ())
        else ((d @ (if tail_pending w then [tail_last w] else []) @ butlast p) @ butlast s, Inl ''CSV record termination is invalid''))" .
    have "butlast p @ butlast ([last p] @ concat ps) = butlast (p @ concat ps)"
      and "last ([last p] @ concat ps) = last (p @ concat ps)"
      using False by (auto simp: butlast_append)
    then show ?thesis unfolding eq Let_def using False by (auto simp: butlast_append)
  qed
qed

text \<open>
  Whatever pieces \<^verbatim>\<open>csv.Writer\<close> passes a record on in, the terminator writer puts exactly the record
  with its line feed turned into CRLF behind what was there, and line breaks inside fields stay as they
  are.
\<close>

theorem terminator_is_chunk_independent:
  assumes "concat ps = csv_line flds"
  shows "tail_pieces keep_all tail_start d ps = (d @ csv_text flds, Inr ())"
proof -
  have "concat ps \<noteq> []" "last (concat ps) = CHR 0x0A" using assms by (simp_all add: csv_line_def)
  then show ?thesis
    by (subst tail_pieces_keep_all) (simp_all add: tail_start_def Let_def csv_text_def assms)
qed

theorem terminator_is_chunk_independent_witness:
  "tail_pieces keep_all tail_start ''h'' [''a'', [], '',b'', [CHR 0x0A]] = (''h'' @ csv_text [''a'', ''b''], Inr ())"
  by (rule terminator_is_chunk_independent) code_simp

section \<open>Formula escaping\<close>





section \<open>Rows stay within the limits\<close>

definition good_row :: "string list \<Rightarrow> val \<Rightarrow> bool" where
  "good_row header row \<longleftrightarrow> (\<exists>kvs. row = VObj kvs \<and> map fst kvs = header \<and> list_all (\<lambda>kv. value_items (snd kv) = 1 \<and> value_depth (snd kv) = 1) kvs)"

definition rows_ok :: "csv_setup \<Rightarrow> string list \<Rightarrow> val list \<times> int \<times> int \<Rightarrow> bool" where
  "rows_ok u header st \<longleftrightarrow>
     (case st of (rows, items, n) \<Rightarrow>
        list_all (good_row header) rows \<and> n = int (length rows) \<and> n \<le> su_max_rows u
        \<and> items = value_items (VArr rows) \<and> items \<le> su_max_items u \<and> (rows \<noteq> [] \<longrightarrow> 3 \<le> su_max_depth u))"

lemma provider_csvCell_scalar: "provider_csvCell F cell raw = Inr v \<Longrightarrow> value_items v = 1 \<and> value_depth v = 1"
  by (auto simp: provider_csvCell_def Let_def split: if_splits option.splits val.splits)

lemma row_of_good:
  assumes "row_of u header flds = Inr kvs" "length flds = length header"
  shows "good_row header (VObj kvs)"
proof -
  have "list_all2 (\<lambda>x y. (case x of (name, cell) \<Rightarrow>
      andThen (provider_csvCell (su_floats u) cell (vget (su_columns u) name)) (\<lambda>v. Inr (name, v))) = Inr y) (zip header flds) kvs"
    using assms(1) by (simp add: row_of_def traverse_Inr_iff)
  then have all: "list_all2 (\<lambda>x kv. fst kv = fst x \<and> value_items (snd kv) = 1 \<and> value_depth (snd kv) = 1) (zip header flds) kvs"
    by (rule list_all2_mono) (auto simp: andThen_eq_Inr dest: provider_csvCell_scalar)
  then have "map fst kvs = map fst (zip header flds)"
    by (induction rule: list_all2_induct) auto
  then have "map fst kvs = header" using assms(2) by simp
  moreover have "list_all (\<lambda>kv. value_items (snd kv) = 1 \<and> value_depth (snd kv) = 1) kvs"
    using all by (induction rule: list_all2_induct) auto
  ultimately show ?thesis by (simp add: good_row_def)
qed

lemma good_row_items: "good_row header row \<Longrightarrow> value_items row = 1 + 2 * int (length header)"
proof -
  assume "good_row header row"
  then obtain kvs where kvs: "row = VObj kvs" "map fst kvs = header" "list_all (\<lambda>kv. value_items (snd kv) = 1) kvs"
    by (auto simp: good_row_def list_all_iff)
  have "sum_list (map (\<lambda>kv. 1 + value_items (snd kv)) kvs) = 2 * int (length kvs)"
    using kvs(3) by (induction kvs) auto
  then have "value_items row = 1 + 2 * int (length kvs)" by (simp add: kvs(1))
  then show ?thesis using kvs(2) by auto
qed

lemma csv_rows_ok:
  assumes "su_publish u"
  shows "rows_ok u header st \<Longrightarrow> csv_rows u header data st = Inr st' \<Longrightarrow> rows_ok u header st'"
proof (induction "length data" arbitrary: data st rule: less_induct)
  case less
  show ?case
  proof (cases "csv_record (su_table u) (su_encoding u) (su_delimiter u) data")
    case (Inl e)
    then show ?thesis using less(3) by (subst (asm) csv_rows.simps) simp
  next
    case (Inr r)
    show ?thesis
    proof (cases r)
      case None
      then show ?thesis using less(2,3) Inr by (subst (asm) csv_rows.simps) simp
    next
      case (Some fr)
      obtain flds rest where fr: "fr = (flds, rest)" by force
      have short: "length rest < length data"
        using Inr Some fr csv_read_shorter [of _ _ _ data "[]" "[]" Field_start False flds rest] by (simp add: csv_record_def)
      obtain rows items n where st: "st = (rows, items, n)" by (cases st)
      obtain row where row: "row_of u header flds = Inr row" and len: "length flds = length header"
        using less(3) Inr Some fr by (subst (asm) csv_rows.simps) (auto simp: andThen_eq_Inr split: if_splits)
      note good = row_of_good [OF row len]
      show ?thesis
      proof (cases "row_matches u row")
        case False
        then show ?thesis using less(3) less(1) [OF short less(2)] Inr Some fr row len
          by (subst (asm) csv_rows.simps) simp
      next
        case True
        let ?st = "(rows @ [VObj row], items + (1 + 2 * int (length header)), n + 1)"
        have step: "\<not> su_max_rows u \<le> n" "1 + 2 * int (length header) \<le> su_max_items u - items" "3 \<le> su_max_depth u"
          "csv_rows u header rest ?st = Inr st'"
          using less(3) Inr Some fr row len True st assms
          by (subst (asm) csv_rows.simps, auto simp: Let_def split: if_splits)+
        have "rows_ok u header ?st"
          using less(2) st step good good_row_items [OF good] by (auto simp: rows_ok_def simp del: value_items.simps(1))
        then show ?thesis using less(1) [OF short _ step(4)] by blast
      qed
    qed
  qed
qed

lemma good_row_depth: "good_row header row \<Longrightarrow> value_depth row \<le> 2"
proof -
  assume "good_row header row"
  then obtain kvs where kvs: "row = VObj kvs" "list_all (\<lambda>kv. value_depth (snd kv) = 1) kvs"
    by (auto simp: good_row_def list_all_iff)
  have "foldr max (map (\<lambda>kv. value_depth (snd kv)) kvs) 0 \<le> 1" using kvs(2) by (induction kvs) auto
  then show ?thesis by (simp add: kvs(1))
qed

text \<open>
  C32: The rows a CSV read publishes always fit the JSON limits of the policy: at most \<^verbatim>\<open>max_rows\<close> rows, at
  most \<^verbatim>\<open>max_json_items\<close> values and keys in all, counted as \<open>checkJSONLimits\<close> counts them, and within
  \<^verbatim>\<open>max_json_depth\<close>. Every row has exactly the columns reported.
\<close>

theorem csv_rows_fit_the_limits:
  assumes "csv_parse u datas = Inr (rows, columns, n)" "su_publish u" "0 \<le> su_max_rows u" "1 \<le> su_max_items u" "1 \<le> su_max_depth u"
  shows "n = int (length rows) \<and> n \<le> su_max_rows u \<and> value_items (VArr rows) \<le> su_max_items u
    \<and> value_depth (VArr rows) \<le> su_max_depth u
    \<and> list_all (\<lambda>row. \<exists>kvs. row = VObj kvs \<and> map fst kvs = columns) rows"
proof -
  let ?cols = "\<lambda>c. case c of None \<Rightarrow> [] | Some cols \<Rightarrow> cols"
  let ?P = "\<lambda>(c, st). rows_ok u (?cols c) st \<and> (c = None \<longrightarrow> st = ([], 1, 0))"
  obtain c items where run: "each (\<lambda>data (columns, st).
         andThen (csv_header u data) (\<lambda>(header, rest).
           if \<not> list_all (\<lambda>w. vstr (vget w ''column'') \<in> set header) (su_conditions u) then Inl ''CSV filter column is missing''
           else if (case columns of None \<Rightarrow> False | Some cols \<Rightarrow> cols \<noteq> header) then Inl ''CSV headers differ''
           else andThen (csv_rows u header rest st) (\<lambda>st'. Inr (Some (case columns of None \<Rightarrow> header | Some cols \<Rightarrow> cols), st'))))
       datas (None, [], 1, 0) = Inr (c, rows, items, n)" and cols: "columns = ?cols c"
    using assms(1) unfolding csv_parse_def by (auto simp: andThen_eq_Inr simp del: each.simps)
  have empty: "rows_ok u header ([], 1, 0)" for header using assms(3,4) by (simp add: rows_ok_def)
  have "?P (c, rows, items, n)"
    by (rule each_invariant [OF run, where P = ?P])
      (auto simp: empty andThen_eq_Inr split: if_splits option.splits intro: csv_rows_ok [OF assms(2)] dest: csv_rows_ok [OF assms(2) empty])
  then have ok: "rows_ok u columns (rows, items, n)" by (simp add: cols)
  have "value_depth (VArr rows) \<le> su_max_depth u"
  proof (cases "rows = []")
    case True
    then show ?thesis using assms(5) by simp
  next
    case False
    have "list_all (good_row columns) rows" using ok by (simp add: rows_ok_def)
    then have "foldr max (map value_depth rows) 0 \<le> 2" by (induction rows) (auto dest: good_row_depth)
    moreover have "3 \<le> su_max_depth u" using ok False by (simp add: rows_ok_def)
    ultimately show ?thesis by simp
  qed
  then show ?thesis using ok by (auto simp: rows_ok_def good_row_def list_all_iff)
qed

definition sample_csv :: csv_setup where
  "sample_csv = \<lparr>su_table = (\<lambda>_ _. None), su_floats = sample_floats,
     su_settings = VObj [(''header'', VBool True), (''encoding'', VStr ''utf-8''), (''delimiter'', VStr '',''),
       (''columns'', VObj [(''n'', VObj [(''type'', VStr ''integer''), (''nullable'', VBool False), (''null_values'', VStrs [])])])],
     su_conditions = [VObj [(''column'', VStr ''n''), (''op'', VStr ''gt''), (''input'', VStr ''/min'')]],
     su_arguments = [VInt 1], su_publish = True, su_max_rows = 5, su_max_items = 6, su_max_depth = 3\<rparr>"

theorem csv_rows_fit_the_limits_witness:
  "csv_parse sample_csv [[CHR ''n'', CHR '','', CHR ''s'', CHR 0x0A, CHR ''1'', CHR '','', CHR ''x'', CHR 0x0A, CHR ''2'', CHR '','', CHR ''y'']]
     = Inr ([VObj [(''n'', VInt 2), (''s'', VStr ''y'')]], [''n'', ''s''], 1)
   \<and> value_items (VArr [VObj [(''n'', VInt 2), (''s'', VStr ''y'')]]) \<le> su_max_items sample_csv"
proof -
  have parse: "csv_parse sample_csv [[CHR ''n'', CHR '','', CHR ''s'', CHR 0x0A, CHR ''1'', CHR '','', CHR ''x'', CHR 0x0A, CHR ''2'', CHR '','', CHR ''y'']]
     = Inr ([VObj [(''n'', VInt 2), (''s'', VStr ''y'')]], [''n'', ''s''], 1)" by code_simp
  show ?thesis using parse csv_rows_fit_the_limits [OF parse] by (simp add: sample_csv_def)
qed

end
