(* ===== verification/Output.thy ===== *)
theory Output
  imports Csv
begin

text \<open>
  Publication of results (\<^verbatim>\<open>src/internal/contract/output.go\<close>, \<^verbatim>\<open>csv_output.go\<close> and \<^verbatim>\<open>types.go\<close>): projection
  to the declared schema, generated CSV, bounded artifact streams, and the life of private stages and
  source readers in \<open>processOutput\<close>.
\<close>

section \<open>Capabilities\<close>

record output_def =
  o_Schema :: schema
  o_Data :: bool
  o_Files :: "(string \<times> val) list option"
  o_Mode :: string

record executor =
  x_Type :: string
  x_Source :: string
  x_Operation :: string
  x_Settings :: "(string \<times> val) list"

record capability =
  c_Name :: string
  c_Description :: string
  c_Input :: schema
  c_Output :: output_def
  c_Executor :: executor
  c_Policy :: "(string \<times> val) list"
  c_Annotations :: "(string \<times> val) list option"
  c_Examples :: "val list"

definition policyInt :: "capability \<Rightarrow> string \<Rightarrow> int" where
  "policyInt c key = (case map_of (c_Policy c) key of Some (VInt n) \<Rightarrow> n | _ \<Rightarrow> 0)"

definition Limits :: "capability \<Rightarrow> limits" where
  "Limits c = \<lparr>MaxBytes = policyInt c ''max_input_bytes'', MaxDepth = policyInt c ''max_json_depth'',
     MaxItems = policyInt c ''max_json_items'', MaxFileBytes = policyInt c ''max_input_file_bytes'',
     MaxTotalFileBytes = policyInt c ''max_total_input_file_bytes'', MaxFiles = policyInt c ''max_input_files''\<rparr>"

definition outputLimits :: "capability \<Rightarrow> limits" where
  "outputLimits c = \<lparr>MaxBytes = policyInt c ''max_output_bytes'', MaxDepth = policyInt c ''max_json_depth'',
     MaxItems = policyInt c ''max_json_items'', MaxFileBytes = 0, MaxTotalFileBytes = 0, MaxFiles = 0\<rparr>"

definition files_setting :: "capability \<Rightarrow> string \<Rightarrow> val option" where
  "files_setting c k = (case o_Files (c_Output c) of None \<Rightarrow> None | Some m \<Rightarrow> map_of m k)"

definition generates_csv :: "capability \<Rightarrow> bool" where
  "generates_csv c \<longleftrightarrow> files_setting c ''format'' = Some (VStr ''csv'')"

definition rowProvider :: "capability \<Rightarrow> bool" where
  "rowProvider c \<longleftrightarrow> x_Type (c_Executor c) = ''csv'' \<or> x_Type (c_Executor c) = ''db'' \<and> x_Operation (c_Executor c) = ''select''"

definition dmlProvider :: "capability \<Rightarrow> bool" where
  "dmlProvider c \<longleftrightarrow> x_Type (c_Executor c) = ''db'' \<and> x_Operation (c_Executor c) \<noteq> ''select''"

section \<open>Projection\<close>

text \<open>The public category of a failed publication; a cancelled context is passed on as it is.\<close>

datatype output_error = Output_invalid | Limit_exceeded | Cancelled

text \<open>The error texts \<^verbatim>\<open>checkOutputJSON\<close> tells the limits by.\<close>

fun json_error_is_limit :: "json_error \<Rightarrow> bool" where
  "json_error_is_limit Byte_limit_exceeded = True"
| "json_error_is_limit Structural_limit_exceeded = True"
| "json_error_is_limit Item_limit_exceeded = True"
| "json_error_is_limit _ = False"

fun no_files :: "val \<Rightarrow> bool" where
  "no_files (VFile f) = False"
| "no_files (VObj kvs) = list_all (\<lambda>kv. no_files (snd kv)) kvs"
| "no_files (VArr vs) = list_all no_files vs"
| "no_files v = True"

definition checkOutputJSON :: "float_lib \<Rightarrow> val \<Rightarrow> limits \<Rightarrow> output_error option" where
  "checkOutputJSON F v l =
     (case checkJSONLimits F v l of
        Some e \<Rightarrow> Some (if json_error_is_limit e then Limit_exceeded else Output_invalid)
      | None \<Rightarrow> if no_files v then None else Some Output_invalid)"

function projectValue :: "schema \<Rightarrow> val \<Rightarrow> val" where
  "projectValue s v =
     (case v of
        VObj kvs \<Rightarrow>
          VObj (concat (map (\<lambda>kv.
            case map_of (Properties s) (fst kv) of
              Some child \<Rightarrow> [(fst kv, projectValue child (snd kv))]
            | None \<Rightarrow>
                if \<not> contains (Types s) ''object'' \<or> AdditionalAllowed s then
                  [(fst kv, case Additional s of Some a \<Rightarrow> projectValue a (snd kv) | None \<Rightarrow> snd kv)]
                else []) kvs))
      | VArr vs \<Rightarrow> (case Items s of None \<Rightarrow> v | Some items \<Rightarrow> VArr (map (projectValue items) vs))
      | _ \<Rightarrow> v)"
  by auto
termination
proof (relation "measure (\<lambda>(s, v). size v)", goal_cases)
  case (2 s v kvs kv child)
  then show ?case using val_entry_size [of kv kvs] by simp
next
  case (3 s v kvs kv a)
  then show ?case using val_entry_size [of kv kvs] by simp
next
  case (4 s v vs items w)
  then show ?case using val_items_size [of w vs] by simp
qed simp

declare projectValue.simps [simp del]

definition validateColumns :: "string list \<Rightarrow> bool" where
  "validateColumns columns \<longleftrightarrow> list_all (\<lambda>c. c \<noteq> [] \<and> utf8_valid c) columns \<and> distinct columns"

definition declared_columns :: "capability \<Rightarrow> string list" where
  "declared_columns c =
     (if o_Mode (c_Output c) \<noteq> ''passthrough''
      then (case Items (o_Schema (c_Output c)) of None \<Rightarrow> [] | Some i \<Rightarrow> PropertyOrder i) else [])"

definition check_rows :: "capability \<Rightarrow> val \<Rightarrow> string list \<Rightarrow> output_error + val" where
  "check_rows c data columns =
     (if int (length columns) > MaxItems (outputLimits c) then Inl Limit_exceeded
      else case data of
        VArr rows \<Rightarrow>
          if \<not> validateColumns columns then Inl Output_invalid
          else if \<not> list_all (\<lambda>k. contains columns k) (declared_columns c) then Inl Output_invalid
          else if \<not> list_all (\<lambda>v. case v of
              VObj row \<Rightarrow> list_all (\<lambda>k. map_of row k \<noteq> None) (declared_columns c) | _ \<Rightarrow> False) rows then Inl Output_invalid
          else Inr data
      | _ \<Rightarrow> Inl Output_invalid)"

definition check_count :: "val \<Rightarrow> output_error + val" where
  "check_count data =
     (case data of
        VObj [(k, v)] \<Rightarrow>
          (case (if k = ''count'' then exactInteger v else None) of
             Some n \<Rightarrow> if n < 0 then Inl Output_invalid else Inr (VObj [(''count'', VInt n)])
           | None \<Rightarrow> Inl Output_invalid)
      | _ \<Rightarrow> Inl Output_invalid)"

definition ProjectOutput :: "stdlib \<Rightarrow> capability \<Rightarrow> val \<Rightarrow> string list \<Rightarrow> output_error + val" where
  "ProjectOutput L c data columns =
     (case checkOutputJSON (floats L) data ((outputLimits c)\<lparr>MaxBytes := max_int64\<rparr>) of
        Some e \<Rightarrow> Inl e
      | None \<Rightarrow>
          andThen (if rowProvider c then check_rows c data columns else if dmlProvider c then check_count data else Inr data) (\<lambda>data'.
            (let s = o_Schema (c_Output c);
                 projected = (if o_Mode (c_Output c) = ''passthrough'' then data' else projectValue s data') in
             case validate L None False s projected [] of
               Inl _ \<Rightarrow> Inl Output_invalid
             | Inr (w, _) \<Rightarrow>
                 (case checkOutputJSON (floats L) w (outputLimits c) of Some e \<Rightarrow> Inl e | None \<Rightarrow> Inr w))))"

section \<open>Errors of a publication\<close>

text \<open>
  \<^verbatim>\<open>invalidOutput\<close> keeps the two kinds of error it recognises and classifies every other text as invalid
  output; \<open>error_text\<close> is the \<^verbatim>\<open>Error\<close> method.
\<close>

fun error_text :: "output_error \<Rightarrow> string" where
  "error_text Limit_exceeded = ''output exceeds the configured limit''"
| "error_text Output_invalid = ''output does not satisfy the configured contract''"
| "error_text Cancelled = ''context canceled''"

definition invalidOutput :: "string \<Rightarrow> output_error" where
  "invalidOutput e =
     (if e = ''context canceled'' \<or> e = ''context deadline exceeded'' then Cancelled
      else if e = error_text Limit_exceeded then Limit_exceeded else Output_invalid)"

lemma invalidOutput_error_text [simp]: "invalidOutput (error_text e) = e"
  by (cases e) (simp_all add: invalidOutput_def)

section \<open>Generated CSV\<close>

definition csv_from :: "capability \<Rightarrow> string" where
  "csv_from c = (case files_setting c ''from'' of Some (VStr p) \<Rightarrow> p | _ \<Rightarrow> [])"

definition csv_columns :: "capability \<Rightarrow> string list \<Rightarrow> string list result" where
  "csv_columns c metadata =
     (case files_setting c ''columns'' of
        Some (VStrs cols) \<Rightarrow> Inr cols
      | _ \<Rightarrow>
          andThen (if csv_from c \<noteq> [] then resolveOutputPointer (o_Schema (c_Output c)) (csv_from c)
                   else Inr (o_Schema (c_Output c))) (\<lambda>s.
            Inr (case Items s of
                   Some i \<Rightarrow>
                     if contains (Types i) ''object'' \<and> \<not> AdditionalAllowed i
                     then filter (\<lambda>name. map_of (Properties i) name \<noteq> None) metadata else metadata
                 | None \<Rightarrow> metadata)))"

definition csv_row :: "float_lib \<Rightarrow> string list \<Rightarrow> bool \<Rightarrow> val \<Rightarrow> string list result" where
  "csv_row F columns escape v =
     (case v of
        VObj row \<Rightarrow> traverse (\<lambda>name. csvCell F (case map_of row name of None \<Rightarrow> VNull | Some w \<Rightarrow> w) escape) columns
      | _ \<Rightarrow> Inl ''CSV elements must be nonnull objects'')"

text \<open>The buffer of \<^verbatim>\<open>csv.Writer\<close> passes a record on in blocks.\<close>

function blocks :: "nat \<Rightarrow> string \<Rightarrow> string list" where
  "blocks n s = (if s = [] \<or> n = 0 then [] else take n s # blocks n (drop n s))"
  by auto
termination by (relation "measure (\<lambda>(n, s). length s)") auto

declare blocks.simps [simp del]

definition writeRecord :: "('d \<Rightarrow> string \<Rightarrow> 'd \<times> nat \<times> string option) \<Rightarrow> 'd \<Rightarrow> string list \<Rightarrow> 'd \<times> output_error option" where
  "writeRecord put d flds =
     (case tail_pieces put tail_start d (blocks 4096 (csv_line flds)) of
        (d', Inl e) \<Rightarrow> (d', Some (invalidOutput e))
      | (d', Inr _) \<Rightarrow> (d', None))"

fun write_rows :: "float_lib \<Rightarrow> string list \<Rightarrow> bool \<Rightarrow> ('d \<Rightarrow> string \<Rightarrow> 'd \<times> nat \<times> string option) \<Rightarrow> 'd \<Rightarrow> val list
    \<Rightarrow> 'd \<times> output_error option" where
  "write_rows F columns escape put d [] = (d, None)"
| "write_rows F columns escape put d (v # vs) =
     (case csv_row F columns escape v of
        Inl e \<Rightarrow> (d, Some (invalidOutput e))
      | Inr flds \<Rightarrow>
          (case writeRecord put d flds of
             (d', Some e) \<Rightarrow> (d', Some e)
           | (d', None) \<Rightarrow> write_rows F columns escape put d' vs))"

text \<open>What is fixed before the first byte is written: columns, escaping and rows.\<close>

definition csv_plan :: "capability \<Rightarrow> val \<Rightarrow> string list \<Rightarrow> (string list \<times> bool \<times> val list) result" where
  "csv_plan c projected metadata =
     andThen (outputPointer projected (csv_from c)) (\<lambda>v.
       case v of
         VArr rows \<Rightarrow>
           andThen (csv_columns c metadata) (\<lambda>columns.
             if columns = [] then Inl ''CSV requires at least one published column''
             else if \<not> validateColumns columns then Inl ''invalid or duplicate provider column metadata''
             else if rowProvider c \<and> \<not> list_all (contains metadata) columns then Inl ''CSV column is absent from provider metadata''
             else Inr (columns, files_setting c ''formula_escape'' = Some (VBool True), rows))
       | _ \<Rightarrow> Inl ''CSV from must select a nonnull object array'')"

definition WriteCSV :: "float_lib \<Rightarrow> capability \<Rightarrow> val \<Rightarrow> string list \<Rightarrow> ('d \<Rightarrow> string \<Rightarrow> 'd \<times> nat \<times> string option) \<Rightarrow> 'd
    \<Rightarrow> 'd \<times> output_error option" where
  "WriteCSV F c projected metadata put d =
     (case csv_plan c projected metadata of
        Inl e \<Rightarrow> (d, Some (invalidOutput e))
      | Inr (columns, escape, rows) \<Rightarrow>
          (case writeRecord put d (if escape then map escapeFormula columns else columns) of
             (d', Some e) \<Rightarrow> (d', Some e)
           | (d', None) \<Rightarrow> write_rows F columns escape put d' rows))"

section \<open>Bounded artifact streams\<close>

text \<open>
  The outside of a publication, as functions of what has happened so far: the answer to each question
  to the context, and what each stage and source reader returns. \<open>stage_put i stored chunk\<close> is the
  count and error of a write to stage \<open>i\<close> that holds \<open>stored\<close>.
\<close>

record out_env =
  cancelled :: "nat \<Rightarrow> bool"
  stager_missing :: bool
  stage_begin :: "nat \<Rightarrow> bool result"
  stage_put :: "nat \<Rightarrow> string \<Rightarrow> string \<Rightarrow> int \<times> string option"
  stage_close :: "nat \<Rightarrow> string option"
  stage_finish :: "nat \<Rightarrow> bool \<times> string option"
  source_close :: "nat \<Rightarrow> string option"

record artifact_writer =
  aw_checks :: nat
  aw_stored :: string
  aw_hashed :: string
  aw_remaining :: int
  aw_size :: int

definition aw_cancelled :: "out_env \<Rightarrow> artifact_writer \<Rightarrow> bool \<times> artifact_writer" where
  "aw_cancelled E w = (cancelled E (aw_checks w), w\<lparr>aw_checks := aw_checks w + 1\<rparr>)"

definition aw_take :: "artifact_writer \<Rightarrow> string \<Rightarrow> artifact_writer" where
  "aw_take w b = w\<lparr>aw_stored := aw_stored w @ b, aw_hashed := aw_hashed w @ b,
     aw_size := aw_size w + int (length b), aw_remaining := aw_remaining w - int (length b)\<rparr>"

function aw_loop :: "out_env \<Rightarrow> nat \<Rightarrow> artifact_writer \<Rightarrow> string \<Rightarrow> nat \<Rightarrow> artifact_writer \<times> nat \<times> output_error option" where
  "aw_loop E i w p tot =
     (if p = [] then (w, tot, None)
      else case aw_cancelled E w of
        (True, w1) \<Rightarrow> (w1, tot, Some Cancelled)
      | (False, w1) \<Rightarrow>
          (let chunk = take 65536 p in
           case stage_put E i (aw_stored w1) chunk of
             (n, e) \<Rightarrow>
               if n < 0 \<or> n > int (length chunk) then (w1, tot, Some Output_invalid)
               else
                 (let w2 = aw_take w1 (take (nat n) chunk); tot' = tot + nat n in
                  case e of
                    Some t \<Rightarrow> (w2, tot', Some (invalidOutput t))
                  | None \<Rightarrow>
                      if n \<noteq> int (length chunk) then (w2, tot', Some Output_invalid)
                      else aw_loop E i w2 (drop (length chunk) p) tot')))"
  by pat_completeness auto
termination by (relation "measure (\<lambda>(E, i, w, p, tot). length p)") auto

declare aw_loop.simps [simp del]

definition artifactWriter_Write :: "out_env \<Rightarrow> nat \<Rightarrow> artifact_writer \<Rightarrow> string \<Rightarrow> artifact_writer \<times> nat \<times> output_error option" where
  "artifactWriter_Write E i w p =
     (case aw_cancelled E w of
        (True, w1) \<Rightarrow> (w1, 0, Some Cancelled)
      | (False, w1) \<Rightarrow> if int (length p) > aw_remaining w1 then (w1, 0, Some Limit_exceeded) else aw_loop E i w1 p 0)"

text \<open>One read: the bytes it returned with its error (\<open>EOF\<close> at the end), or a count out of range.\<close>

datatype read_result = Bytes string "string option" | Bad_count

text \<open>
  \<^verbatim>\<open>copyArtifact\<close> into the stage and a second hash. A reader is the list of its results; past the last
  one it is at the end of the file.
\<close>

fun copyArtifact :: "out_env \<Rightarrow> nat \<Rightarrow> read_result list \<Rightarrow> artifact_writer \<Rightarrow> string \<Rightarrow> nat \<Rightarrow> int
    \<Rightarrow> artifact_writer \<times> string \<times> int \<times> output_error option" where
  "copyArtifact E i [] w hashed idle tot =
     (case aw_cancelled E w of
        (True, w1) \<Rightarrow> (w1, hashed, tot, Some Cancelled)
      | (False, w1) \<Rightarrow> (w1, hashed, tot, if idle + 1 > 100 then Some Output_invalid else None))"
| "copyArtifact E i (Bad_count # rs) w hashed idle tot =
     (case aw_cancelled E w of
        (True, w1) \<Rightarrow> (w1, hashed, tot, Some Cancelled)
      | (False, w1) \<Rightarrow> (w1, hashed, tot, Some Output_invalid))"
| "copyArtifact E i (Bytes b e # rs) w hashed idle tot =
     (case aw_cancelled E w of
        (True, w1) \<Rightarrow> (w1, hashed, tot, Some Cancelled)
      | (False, w1) \<Rightarrow>
          if length b > 65536 then (w1, hashed, tot, Some Output_invalid)
          else
            (case (if b \<noteq> [] then artifactWriter_Write E i w1 b else (w1, 0, None)) of
               (w2, n, Some we) \<Rightarrow> (w2, hashed, tot + int n, Some we)
             | (w2, n, None) \<Rightarrow>
                 (let idle' = (if b \<noteq> [] then 0 else idle + 1); hashed' = hashed @ b; tot' = tot + int n in
                  if b = [] \<and> idle' > 100 then (w2, hashed', tot', Some Output_invalid)
                  else case e of
                    Some t \<Rightarrow> (w2, hashed', tot', if t = ''EOF'' then None else Some (invalidOutput t))
                  | None \<Rightarrow> copyArtifact E i rs w2 hashed' idle' tot')))"

section \<open>Private stages and source readers\<close>

record provider_file =
  pf_Name :: string
  pf_MIMEType :: string
  pf_Reader :: "read_result list option"
  pf_closes :: bool
  pf_SizeBytes :: "int option"
  pf_SHA256 :: string

record provider_result =
  s_Data :: val
  s_Columns :: "string list"
  s_Files :: "provider_file list"

record artifact =
  a_Name :: string
  a_MIMEType :: string
  a_SizeBytes :: int
  a_SHA256 :: string
  a_Reader :: string

datatype act =
  Close_source nat | Begin_stage nat | Close_stage nat | Finish_stage nat | Abort_stage nat | Close_reader nat

record proc =
  p_checks :: nat
  p_log :: "act list"
  p_stages :: nat
  p_files :: "(nat \<times> artifact) list"
  p_total :: int
  p_closed :: "bool list"

definition does :: "act list \<Rightarrow> proc \<Rightarrow> proc" where
  "does acts p = p\<lparr>p_log := p_log p @ acts\<rparr>"

definition asked :: "out_env \<Rightarrow> proc \<Rightarrow> bool \<times> proc" where
  "asked E p = (cancelled E (p_checks p), p\<lparr>p_checks := p_checks p + 1\<rparr>)"

definition closeSource :: "out_env \<Rightarrow> provider_file list \<Rightarrow> nat \<Rightarrow> proc \<Rightarrow> proc \<times> string option" where
  "closeSource E fs i p =
     (if p_closed p ! i then (p, None)
      else
        (let p1 = p\<lparr>p_closed := (p_closed p)[i := True]\<rparr> in
         if pf_closes (fs ! i) \<and> pf_Reader (fs ! i) \<noteq> None then (does [Close_source i] p1, source_close E i)
         else (p1, None)))"

text \<open>
  \<^verbatim>\<open>makeFile\<close>: \<open>fill\<close> is its argument \<^verbatim>\<open>write\<close>, run on the writer of the new stage. The stage is
  appended before anything is written, the file only once its reader is there.
\<close>

definition new_writer :: "capability \<Rightarrow> proc \<Rightarrow> artifact_writer" where
  "new_writer c p =
     \<lparr>aw_checks = p_checks p, aw_stored = [], aw_hashed = [],
      aw_remaining = min (policyInt c ''max_output_file_bytes'') (policyInt c ''max_total_output_file_bytes'' - p_total p),
      aw_size = 0\<rparr>"

definition finish_file :: "stdlib \<Rightarrow> out_env \<Rightarrow> nat \<Rightarrow> string \<Rightarrow> string \<Rightarrow> artifact_writer \<Rightarrow> proc \<Rightarrow> proc \<times> output_error option" where
  "finish_file L E i name mime w p =
     (case stage_close E i of
        Some e \<Rightarrow> (p, Some (invalidOutput e))
      | None \<Rightarrow>
          (case asked E p of
             (True, p1) \<Rightarrow> (p1, Some Cancelled)
           | (False, p1) \<Rightarrow>
               (let a = \<lparr>a_Name = name, a_MIMEType = mime, a_SizeBytes = aw_size w,
                         a_SHA256 = sha256_hex L (aw_hashed w), a_Reader = aw_stored w\<rparr>;
                    p2 = does [Finish_stage i] p1 in
                case stage_finish E i of
                  (reader, Some e) \<Rightarrow> (if reader then does [Close_reader i] p2 else p2, Some (invalidOutput e))
                | (False, None) \<Rightarrow> (p2, Some Output_invalid)
                | (True, None) \<Rightarrow> (p2\<lparr>p_files := p_files p2 @ [(i, a)], p_total := p_total p2 + aw_size w\<rparr>, None))))"

definition makeFile :: "stdlib \<Rightarrow> capability \<Rightarrow> out_env \<Rightarrow> string \<Rightarrow> string
    \<Rightarrow> (nat \<Rightarrow> artifact_writer \<Rightarrow> artifact_writer \<times> output_error option) \<Rightarrow> proc \<Rightarrow> proc \<times> output_error option" where
  "makeFile L c E name mime fill p =
     (if \<not> ValidateBasename name then (p, Some Output_invalid)
      else if \<not> validMIME mime then (p, Some Output_invalid)
      else if stager_missing E then (p, Some Output_invalid)
      else
        (let i = p_stages p in
         case stage_begin E i of
           Inl e \<Rightarrow> (p, Some (invalidOutput e))
         | Inr False \<Rightarrow> (p, Some Output_invalid)
         | Inr True \<Rightarrow>
             (let p1 = (does [Begin_stage i] p)\<lparr>p_stages := i + 1\<rparr> in
              case fill i (new_writer c p1) of
                (w, Some e) \<Rightarrow> (does [Close_stage i] (p1\<lparr>p_checks := aw_checks w\<rparr>), Some e)
              | (w, None) \<Rightarrow> finish_file L E i name mime w (does [Close_stage i] (p1\<lparr>p_checks := aw_checks w\<rparr>)))))"

definition aw_put :: "out_env \<Rightarrow> nat \<Rightarrow> artifact_writer \<Rightarrow> string \<Rightarrow> artifact_writer \<times> nat \<times> string option" where
  "aw_put E i w b = (case artifactWriter_Write E i w b of (w', n, e) \<Rightarrow> (w', n, map_option error_text e))"

definition copy_source :: "stdlib \<Rightarrow> out_env \<Rightarrow> provider_file \<Rightarrow> read_result list \<Rightarrow> nat \<Rightarrow> artifact_writer
    \<Rightarrow> artifact_writer \<times> output_error option" where
  "copy_source L E f reads i w =
     (case copyArtifact E i reads w [] 0 0 of
        (w', hashed, n, Some e) \<Rightarrow> (w', Some e)
      | (w', hashed, n, None) \<Rightarrow>
          (w', if (case pf_SizeBytes f of Some k \<Rightarrow> n \<noteq> k | None \<Rightarrow> False) \<or> pf_SHA256 f \<noteq> [] \<and> sha256_hex L hashed \<noteq> pf_SHA256 f
               then Some Output_invalid else None))"

definition publish_source :: "stdlib \<Rightarrow> capability \<Rightarrow> out_env \<Rightarrow> provider_file list \<Rightarrow> nat \<Rightarrow> proc \<Rightarrow> proc \<times> output_error option" where
  "publish_source L c E fs i p =
     (let f = fs ! i; mime = (case files_setting c ''mime_type'' of Some (VStr m) \<Rightarrow> m | _ \<Rightarrow> pf_MIMEType f) in
      case pf_Reader f of
        None \<Rightarrow> (p, Some Output_invalid)
      | Some reads \<Rightarrow>
          if (case pf_SizeBytes f of Some k \<Rightarrow> k < 0 | None \<Rightarrow> False) \<or> pf_SHA256 f \<noteq> [] \<and> \<not> is_digest (pf_SHA256 f)
          then (p, Some Output_invalid)
          else
            (case makeFile L c E (pf_Name f) mime (copy_source L E f reads) p of
               (p1, e) \<Rightarrow>
                 (case closeSource E fs i p1 of
                    (p2, closeErr) \<Rightarrow> (p2, case e of Some x \<Rightarrow> Some x | None \<Rightarrow> map_option invalidOutput closeErr))))"

fun publish_sources :: "stdlib \<Rightarrow> capability \<Rightarrow> out_env \<Rightarrow> provider_file list \<Rightarrow> nat list \<Rightarrow> proc \<Rightarrow> proc \<times> output_error option" where
  "publish_sources L c E fs [] p = (p, None)"
| "publish_sources L c E fs (i # is) p =
     (case publish_source L c E fs i p of
        (p', Some e) \<Rightarrow> (p', Some e)
      | (p', None) \<Rightarrow> publish_sources L c E fs is p')"

definition publish_files :: "stdlib \<Rightarrow> capability \<Rightarrow> out_env \<Rightarrow> provider_result \<Rightarrow> val \<Rightarrow> proc \<Rightarrow> proc \<times> output_error option" where
  "publish_files L c E src projected p =
     (case (if generates_csv c
            then makeFile L c E (case files_setting c ''filename'' of Some (VStr n) \<Rightarrow> n | _ \<Rightarrow> [])
                   (case files_setting c ''mime_type'' of Some (VStr m) \<Rightarrow> m | _ \<Rightarrow> [])
                   (\<lambda>i w. WriteCSV (floats L) c projected (s_Columns src) (aw_put E i) w) p
            else publish_sources L c E (s_Files src) [0..<length (s_Files src)] p) of
        (p1, Some e) \<Rightarrow> (p1, Some e)
      | (p1, None) \<Rightarrow> (case asked E p1 of (b, p2) \<Rightarrow> (p2, if b then Some Cancelled else None)))"

section \<open>The whole publication\<close>

definition ready_data :: "stdlib \<Rightarrow> capability \<Rightarrow> val \<Rightarrow> output_error + val" where
  "ready_data L c projected =
     (if \<not> o_Data (c_Output c) then Inr VNull
      else
        (let d = (if rowProvider c
                  then VObj [(''rows'', projected),
                             (''count'', VInt (case projected of VArr rows \<Rightarrow> int (length rows) | _ \<Rightarrow> 0))]
                  else projected) in
         case checkOutputJSON (floats L) d (outputLimits c) of Some e \<Rightarrow> Inl e | None \<Rightarrow> Inr d))"

definition direct_delivery :: "capability \<Rightarrow> bool" where
  "direct_delivery c \<longleftrightarrow>
     (case files_setting c ''delivery'' of Some (VObj d) \<Rightarrow> map_of d ''rest'' = Some (VStr ''direct'') | _ \<Rightarrow> False)"

definition process_body :: "stdlib \<Rightarrow> capability \<Rightarrow> out_env \<Rightarrow> provider_result \<Rightarrow> bool \<Rightarrow> proc \<Rightarrow> proc \<times> (output_error + val)" where
  "process_body L c E src delivery p0 =
     (case asked E p0 of
        (True, p) \<Rightarrow> (p, Inl Cancelled)
      | (False, p) \<Rightarrow>
          if generates_csv c \<and> s_Files src \<noteq> [] then (p, Inl Output_invalid)
          else
            (case (if o_Data (c_Output c) \<or> generates_csv c then ProjectOutput L c (s_Data src) (s_Columns src) else Inr VNull) of
               Inl e \<Rightarrow> (p, Inl e)
             | Inr projected \<Rightarrow>
                 (case ready_data L c projected of
                    Inl e \<Rightarrow> (p, Inl e)
                  | Inr data \<Rightarrow>
                      (let n = (if generates_csv c then 1 else length (s_Files src)) in
                       if o_Files (c_Output c) = None then (p, Inr data)
                       else if int n > policyInt c ''max_output_files'' then (p, Inl Limit_exceeded)
                       else if delivery \<and> direct_delivery c \<and> n \<noteq> 1 then (p, Inl Output_invalid)
                       else
                         (case publish_files L c E src projected p of
                            (p', Some e) \<Rightarrow> (p', Inl e) | (p', None) \<Rightarrow> (p', Inr data))))))"

text \<open>The deferred function: sources are closed on every path, and a failure releases what was staged.\<close>

fun close_all :: "out_env \<Rightarrow> provider_file list \<Rightarrow> nat list \<Rightarrow> proc \<times> (output_error + val) \<Rightarrow> proc \<times> (output_error + val)" where
  "close_all E fs [] pr = pr"
| "close_all E fs (i # is) (p, r) =
     (case closeSource E fs i p of
        (p', Some e) \<Rightarrow> close_all E fs is (p', case r of Inl x \<Rightarrow> Inl x | Inr _ \<Rightarrow> Inl (invalidOutput e))
      | (p', None) \<Rightarrow> close_all E fs is (p', r))"

definition release :: "proc \<Rightarrow> proc" where
  "release p = does (map (\<lambda>f. Close_reader (fst f)) (p_files p) @ map Abort_stage [0..<p_stages p]) p"

definition deferred :: "out_env \<Rightarrow> provider_file list \<Rightarrow> proc \<times> (output_error + val) \<Rightarrow> proc \<times> (output_error + val)" where
  "deferred E fs pr =
     (case close_all E fs [0..<length fs] pr of
        (p, Inl e) \<Rightarrow> (release p, Inl e)
      | (p, Inr d) \<Rightarrow> (case asked E p of (True, p') \<Rightarrow> (release p', Inl Cancelled) | (False, p') \<Rightarrow> (p', Inr d)))"

definition proc_start :: "provider_file list \<Rightarrow> proc" where
  "proc_start fs = \<lparr>p_checks = 0, p_log = [], p_stages = 0, p_files = [], p_total = 0, p_closed = replicate (length fs) False\<rparr>"

definition processOutput :: "stdlib \<Rightarrow> capability \<Rightarrow> out_env \<Rightarrow> provider_result \<Rightarrow> bool \<Rightarrow> proc \<times> (output_error + val)" where
  "processOutput L c E src delivery =
     deferred E (s_Files src) (process_body L c E src delivery (proc_start (s_Files src)))"

section \<open>What a writer has taken\<close>

definition aw_ok :: "int \<Rightarrow> artifact_writer \<Rightarrow> bool" where
  "aw_ok R w \<longleftrightarrow> aw_hashed w = aw_stored w \<and> aw_size w = int (length (aw_stored w))
     \<and> aw_remaining w = R - aw_size w \<and> (0 \<le> R \<longrightarrow> aw_size w \<le> R)"

lemma aw_ok_checks [simp]: "aw_ok R (w\<lparr>aw_checks := k\<rparr>) = aw_ok R w"
  by (simp add: aw_ok_def)

lemma aw_cancelled_eq [simp]:
  "aw_cancelled E w = (b, w1) \<longleftrightarrow> b = cancelled E (aw_checks w) \<and> w1 = w\<lparr>aw_checks := aw_checks w + 1\<rparr>"
  by (auto simp: aw_cancelled_def)

lemma aw_take_fields [simp]:
  "aw_stored (aw_take w b) = aw_stored w @ b" "aw_remaining (aw_take w b) = aw_remaining w - int (length b)"
  by (simp_all add: aw_take_def)

lemma aw_ok_take: "aw_ok R w \<Longrightarrow> int (length b) \<le> aw_remaining w \<Longrightarrow> aw_ok R (aw_take w b)"
  by (auto simp: aw_ok_def aw_take_def)

lemma aw_loop_ok:
  assumes "aw_loop E i w p tot = (w', n, e)" "aw_ok R w" "int (length p) \<le> aw_remaining w"
  shows "aw_ok R w' \<and> (e = None \<longrightarrow> aw_stored w' = aw_stored w @ p \<and> n = tot + length p)"
  using assms
proof (induction "length p" arbitrary: w p tot rule: less_induct)
  case less
  show ?case
  proof (cases "p = [] \<or> cancelled E (aw_checks w)")
    case True
    then show ?thesis using less.prems by (auto simp: aw_loop.simps [of E i w p] aw_cancelled_def split: if_splits bool.splits)
  next
    case False
    define w1 where "w1 = w\<lparr>aw_checks := Suc (aw_checks w)\<rparr>"
    define chunk where "chunk = take 65536 p"
    obtain k err where put: "stage_put E i (aw_stored w) chunk = (k, err)" by fastforce
    have w1: "aw_ok R w1" "aw_remaining w1 = aw_remaining w" "aw_stored w1 = aw_stored w"
      using less.prems by (simp_all add: w1_def)
    have chunk: "length chunk \<le> length p" "0 < length chunk" "chunk @ drop (length chunk) p = p"
      using False by (auto simp: chunk_def min_def)
    have shorter: "length (drop (length chunk) p) < length p" using chunk(1,2) by (simp only: length_drop)
    have taken: "aw_ok R (aw_take w1 (take (nat k) chunk))"
      using w1 chunk(1) less.prems(3) by (intro aw_ok_take) (auto simp: min_def)
    note step = less.prems(1) [unfolded aw_loop.simps [of E i w p], folded chunk_def]
    show ?thesis
    proof (cases "k = int (length chunk) \<and> err = None")
      case True
      then have "aw_loop E i (aw_take w1 chunk) (drop (length chunk) p) (tot + length chunk) = (w', n, e)"
        using step False put w1(3) by (simp add: aw_cancelled_def Let_def flip: w1_def)
      from less.hyps [OF shorter this] have "aw_ok R w' \<and> (e = None \<longrightarrow>
          aw_stored w' = aw_stored w @ (chunk @ drop (length chunk) p) \<and> n = tot + length p)"
        using taken True chunk(1,2) w1 less.prems(3) by (simp add: of_nat_diff)
      then show ?thesis unfolding chunk(3) .
    next
      case False
      with step \<open>\<not> (p = [] \<or> _)\<close> put w1 taken show ?thesis
        by (auto simp: aw_cancelled_def Let_def simp flip: w1_def split: if_splits option.splits)
    qed
  qed
qed

lemma artifactWriter_Write_ok:
  assumes "artifactWriter_Write E i w p = (w', n, e)" "aw_ok R w"
  shows "aw_ok R w' \<and> (e = None \<longrightarrow> aw_stored w' = aw_stored w @ p \<and> n = length p)"
proof (cases "cancelled E (aw_checks w) \<or> int (length p) > aw_remaining w")
  case True
  then show ?thesis using assms by (auto simp: artifactWriter_Write_def aw_cancelled_def split: if_splits bool.splits)
next
  case False
  then have "aw_loop E i (w\<lparr>aw_checks := aw_checks w + 1\<rparr>) p 0 = (w', n, e)"
    using assms by (simp add: artifactWriter_Write_def aw_cancelled_def)
  from aw_loop_ok [OF this, of R] show ?thesis using assms False by simp
qed

lemma aw_put_ok:
  assumes "aw_put E i w p = (w', n, e)" "aw_ok R w"
  shows "aw_ok R w' \<and> (e = None \<longrightarrow> aw_stored w' = aw_stored w @ p \<and> n = length p)"
  using artifactWriter_Write_ok [OF _ assms(2), of E i p] assms(1) by (auto simp: aw_put_def split: prod.splits)

text \<open>The bytes of a reader up to the first end or error.\<close>

fun source_bytes :: "read_result list \<Rightarrow> string" where
  "source_bytes (Bytes b None # rs) = b @ source_bytes rs"
| "source_bytes (Bytes b (Some e) # rs) = b"
| "source_bytes _ = []"

lemma copyArtifact_ok:
  "copyArtifact E i rs w h idle tot = (w', h', n, e) \<Longrightarrow> aw_ok R w \<Longrightarrow>
   aw_ok R w' \<and> (e = None \<longrightarrow> aw_stored w' = aw_stored w @ source_bytes rs \<and> h' = h @ source_bytes rs
     \<and> n = tot + int (length (source_bytes rs)))"
proof (induction E i rs w h idle tot rule: copyArtifact.induct)
  case (3 E i b err rs w h idle tot)
  show ?case
  proof (cases "cancelled E (aw_checks w) \<or> length b > 65536")
    case True
    then show ?thesis using "3.prems" by (auto simp: aw_cancelled_def split: bool.splits)
  next
    case False
    define w1 where "w1 = w\<lparr>aw_checks := Suc (aw_checks w)\<rparr>"
    obtain w2 k we where put: "(if b \<noteq> [] then artifactWriter_Write E i w1 b else (w1, 0, None)) = (w2, k, we)"
      by (metis prod_cases3)
    have w2: "aw_ok R w2" "we = None \<Longrightarrow> aw_stored w2 = aw_stored w @ b \<and> k = length b"
      using put "3.prems"(2) artifactWriter_Write_ok [of E i w1 b w2 k we R]
      by (auto simp: w1_def split: if_splits)
    have IH: "copyArtifact E i rs w2 (h @ b) (if b \<noteq> [] then 0 else idle + 1) (tot + int k) = (w', h', n, e) \<Longrightarrow>
       aw_ok R w' \<and> (e = None \<longrightarrow> aw_stored w' = aw_stored w2 @ source_bytes rs \<and> h' = (h @ b) @ source_bytes rs
         \<and> n = (tot + int k) + int (length (source_bytes rs)))"
      if "we = None" "err = None" "\<not> (b = [] \<and> idle + 1 > 100)"
      using "3.IH" [of False w1 w2 "(k, we)" k we] False put that w2(1) by (auto simp: aw_cancelled_def w1_def)
    from "3.prems"(1) False put w2 show ?thesis
      using IH by (auto simp: aw_cancelled_def Let_def simp flip: w1_def split: option.splits if_splits)
  qed
qed (auto simp: aw_cancelled_def split: bool.splits)

section \<open>The document a generated CSV file holds\<close>

definition csv_document :: "float_lib \<Rightarrow> capability \<Rightarrow> val \<Rightarrow> string list \<Rightarrow> string result" where
  "csv_document F c projected metadata =
     andThen (csv_plan c projected metadata) (\<lambda>(columns, escape, rows).
       andThen (traverse (csv_row F columns escape) rows) (\<lambda>records.
         Inr (concat (map csv_text ((if escape then map escapeFormula columns else columns) # records)))))"

definition held :: "csv_tail \<Rightarrow> string" where
  "held w = (if tail_pending w then [tail_last w] else [])"

lemma concat_blocks: "0 < n \<Longrightarrow> concat (blocks n s) = s"
proof (induction n s rule: blocks.induct)
  case (1 n s)
  then show ?case by (subst blocks.simps) simp
qed

text \<open>A writer that either fails or appends what it is given, and keeps an invariant of its own.\<close>

locale appending_writer =
  fixes put :: "'d \<Rightarrow> string \<Rightarrow> 'd \<times> nat \<times> string option"
    and stored :: "'d \<Rightarrow> string"
    and keeps :: "'d \<Rightarrow> bool"
  assumes put_keeps: "keeps d \<Longrightarrow> put d p = (d', n, e) \<Longrightarrow> keeps d'"
    and put_appends: "keeps d \<Longrightarrow> put d p = (d', n, None) \<Longrightarrow> n = length p \<Longrightarrow> stored d' = stored d @ p"
begin

lemma tail_Write_step:
  assumes "tail_Write put w d p = (w', d', r)" "keeps d"
  shows "keeps d' \<and> (\<forall>n. r = Inr n \<longrightarrow> stored d' @ held w' = stored d @ held w @ p)"
proof (cases "p = []")
  case True
  then show ?thesis using assms by (auto simp: tail_Write_def held_def)
next
  case False
  obtain d1 n1 e1 where one: "put d [tail_last w] = (d1, n1, e1)" by (metis prod_cases3)
  define d2 where "d2 = (if tail_pending w then d1 else d)"
  obtain d3 n3 e3 where two: "put d2 (butlast p) = (d3, n3, e3)" by (metis prod_cases3)
  have d2: "keeps d2" "tail_pending w \<Longrightarrow> e1 = None \<Longrightarrow> n1 = 1 \<Longrightarrow> stored d2 = stored d @ [tail_last w]"
    using put_keeps [OF assms(2) one] put_appends [OF assms(2), of "[tail_last w]" d1 n1] one assms(2)
    by (auto simp: d2_def)
  have d3: "keeps d3" "e3 = None \<Longrightarrow> n3 = length p - 1 \<Longrightarrow> stored d3 = stored d2 @ butlast p"
    using put_keeps [OF d2(1) two] put_appends [OF d2(1), of "butlast p" d3 n3] two by auto
  have p: "stored d2 @ butlast p @ [last p] = stored d2 @ p" using False by simp
  from assms(1) False one two d2 d3 p show ?thesis
    by (cases "tail_pending w") (auto simp: tail_Write_def held_def d2_def split: option.splits if_splits)
qed

lemma tail_finish_step:
  assumes "tail_finish put w d = (d', r)" "keeps d"
  shows "keeps d' \<and> (r = Inr () \<longrightarrow> held w = [CHR 0x0A] \<and> stored d' = stored d @ [CHR 0x0D, CHR 0x0A])"
proof -
  obtain d1 n e where put: "put d [CHR 0x0D, CHR 0x0A] = (d1, n, e)" by (metis prod_cases3)
  then show ?thesis
    using assms put_keeps [OF assms(2) put] put_appends [OF assms(2), of "[CHR 0x0D, CHR 0x0A]" d1 n]
    by (auto simp: tail_finish_def held_def split: option.splits if_splits)
qed

lemma tail_pieces_step:
  "tail_pieces put w d ps = (d', r) \<Longrightarrow> keeps d \<Longrightarrow> keeps d'
     \<and> (r = Inr () \<longrightarrow> stored d' = butlast (stored d @ held w @ concat ps) @ [CHR 0x0D, CHR 0x0A])"
proof (induction ps arbitrary: w d)
  case Nil
  then show ?case using tail_finish_step [of w d d' r] by (auto simp: butlast_append)
next
  case (Cons p ps)
  obtain w1 d1 r1 where step: "tail_Write put w d p = (w1, d1, r1)" by (metis prod_cases3)
  note s = tail_Write_step [OF step Cons.prems(2)]
  show ?case
  proof (cases r1)
    case (Inl e)
    then show ?thesis using Cons.prems step s by auto
  next
    case (Inr n)
    have all: "stored d1 @ held w1 @ concat ps = stored d @ held w @ p @ concat ps"
      using s Inr by (metis append_assoc)
    have "tail_pieces put w1 d1 ps = (d', r)" using Inr Cons.prems step by simp
    from Cons.IH [OF this] s show ?thesis unfolding all by simp
  qed
qed

lemma writeRecord_step:
  assumes "writeRecord put d flds = (d', e)" "keeps d"
  shows "keeps d' \<and> (e = None \<longrightarrow> stored d' = stored d @ csv_text flds)"
proof -
  obtain d1 r where run: "tail_pieces put tail_start d (blocks 4096 (csv_line flds)) = (d1, r)" by fastforce
  have "butlast (stored d @ csv_line flds) = stored d @ butlast (csv_line flds)"
    by (simp add: butlast_append csv_line_def)
  with tail_pieces_step [OF run assms(2)] show ?thesis
    using assms(1) run by (auto simp: writeRecord_def concat_blocks tail_start_def held_def csv_text_def split: sum.splits)
qed

lemma write_rows_step:
  "write_rows F columns escape put d vs = (d', e) \<Longrightarrow> keeps d \<Longrightarrow> keeps d'
   \<and> (e = None \<longrightarrow> (\<exists>records. traverse (csv_row F columns escape) vs = Inr records
        \<and> stored d' = stored d @ concat (map csv_text records)))"
proof (induction vs arbitrary: d)
  case (Cons v vs)
  show ?case
  proof (cases "csv_row F columns escape v")
    case (Inl x)
    then show ?thesis using Cons.prems by auto
  next
    case (Inr flds)
    obtain d1 e1 where w: "writeRecord put d flds = (d1, e1)" by fastforce
    note s = writeRecord_step [OF w Cons.prems(2)]
    show ?thesis
    proof (cases e1)
      case None
      with Inr w Cons.prems have "write_rows F columns escape put d1 vs = (d', e)" by simp
      from Cons.IH [OF this] s None Inr show ?thesis by auto
    next
      case (Some x)
      then show ?thesis using Inr w s Cons.prems by auto
    qed
  qed
qed simp

lemma WriteCSV_step:
  assumes "WriteCSV F c projected metadata put d = (d', e)" "keeps d"
  shows "keeps d' \<and> (e = None \<longrightarrow> (\<exists>t. csv_document F c projected metadata = Inr t \<and> stored d' = stored d @ t))"
proof (cases "csv_plan c projected metadata")
  case (Inl x)
  then show ?thesis using assms by (auto simp: WriteCSV_def)
next
  case (Inr plan)
  obtain columns escape rows where plan: "plan = (columns, escape, rows)" by (metis prod_cases3)
  define header where "header = (if escape then map escapeFormula columns else columns)"
  obtain d1 e1 where w: "writeRecord put d header = (d1, e1)" by fastforce
  note s = writeRecord_step [OF w assms(2)]
  show ?thesis
  proof (cases e1)
    case None
    with Inr w plan assms(1) have "write_rows F columns escape put d1 rows = (d', e)"
      by (simp add: WriteCSV_def header_def)
    from write_rows_step [OF this] s None Inr plan show ?thesis
      by (auto simp: csv_document_def header_def)
  next
    case (Some x)
    then show ?thesis using Inr w s plan assms(1) by (auto simp: WriteCSV_def header_def)
  qed
qed

end

interpretation aw: appending_writer "aw_put E i" aw_stored "aw_ok R" for E i R
  by unfold_locales (auto dest: aw_put_ok)

interpretation ka: appending_writer keep_all "\<lambda>d. d" "\<lambda>_. True"
  by unfold_locales (auto simp: keep_all_def)

section \<open>Every stage and reader is accounted for\<close>

definition fills :: "(nat \<Rightarrow> artifact_writer \<Rightarrow> artifact_writer \<times> output_error option) \<Rightarrow> (string \<Rightarrow> bool) \<Rightarrow> bool" where
  "fills fill Q \<longleftrightarrow> (\<forall>i w w' e R. fill i w = (w', e) \<longrightarrow> aw_ok R w \<longrightarrow>
     aw_ok R w' \<and> (aw_stored w = [] \<longrightarrow> e = None \<longrightarrow> Q (aw_stored w')))"

lemma fills_csv: "fills (\<lambda>i. WriteCSV F c projected metadata (aw_put E i)) (\<lambda>t. csv_document F c projected metadata = Inr t)"
  unfolding fills_def using aw.WriteCSV_step by fastforce

definition intact :: "stdlib \<Rightarrow> provider_file \<Rightarrow> string \<Rightarrow> bool" where
  "intact L f t \<longleftrightarrow> (\<forall>k. pf_SizeBytes f = Some k \<longrightarrow> int (length t) = k) \<and> (pf_SHA256 f \<noteq> [] \<longrightarrow> sha256_hex L t = pf_SHA256 f)"

lemma fills_copy: "fills (copy_source L E f reads) (\<lambda>t. t = source_bytes reads \<and> intact L f t)"
proof (unfold fills_def, intro allI impI)
  fix i w w' e R
  assume run: "copy_source L E f reads i w = (w', e)" and ok: "aw_ok R w"
  obtain w1 h n e1 where copy: "copyArtifact E i reads w [] 0 0 = (w1, h, n, e1)" by (metis prod_cases4)
  from copyArtifact_ok [OF copy ok] run copy
  show "aw_ok R w' \<and> (aw_stored w = [] \<longrightarrow> e = None \<longrightarrow> aw_stored w' = source_bytes reads \<and> intact L f (aw_stored w'))"
    by (auto simp: copy_source_def intact_def split: option.splits if_splits)
qed

definition file_ok :: "stdlib \<Rightarrow> capability \<Rightarrow> artifact \<Rightarrow> bool" where
  "file_ok L c a \<longleftrightarrow> ValidateBasename (a_Name a) \<and> validMIME (a_MIMEType a) \<and> a_SizeBytes a = int (length (a_Reader a))
     \<and> a_SHA256 a = sha256_hex L (a_Reader a)"

definition kept_limit :: "capability \<Rightarrow> proc \<Rightarrow> artifact \<Rightarrow> bool" where
  "kept_limit c p a \<longleftrightarrow>
     (let R = min (policyInt c ''max_output_file_bytes'') (policyInt c ''max_total_output_file_bytes'' - p_total p) in
      0 \<le> R \<longrightarrow> a_SizeBytes a \<le> R)"

lemma makeFile_shape:
  assumes "makeFile L c E name mime fill p = (p', e)" "fills fill Q"
  defines "i \<equiv> p_stages p"
  shows "p_closed p' = p_closed p \<and> (
      e \<noteq> None \<and> p' = p
    \<or> e \<noteq> None \<and> p_stages p' = i + 1 \<and> p_files p' = p_files p \<and> p_total p' = p_total p
        \<and> (\<exists>acts. p_log p' = p_log p @ [Begin_stage i, Close_stage i] @ acts
             \<and> acts \<in> {[], [Finish_stage i], [Finish_stage i, Close_reader i]})
    \<or> e = None \<and> p_stages p' = i + 1 \<and> p_log p' = p_log p @ [Begin_stage i, Close_stage i, Finish_stage i]
        \<and> (\<exists>a. p_files p' = p_files p @ [(i, a)] \<and> p_total p' = p_total p + a_SizeBytes a
             \<and> file_ok L c a \<and> kept_limit c p a \<and> Q (a_Reader a) \<and> a_Name a = name \<and> a_MIMEType a = mime))"
proof (cases "ValidateBasename name \<and> validMIME mime \<and> \<not> stager_missing E \<and> stage_begin E i = Inr True")
  case False
  then have "e \<noteq> None \<and> p' = p"
    using assms(1) by (auto simp: makeFile_def i_def Let_def split: if_splits sum.splits bool.splits)
  then show ?thesis by blast
next
  case True
  define p1 where "p1 = (does [Begin_stage i] p)\<lparr>p_stages := i + 1\<rparr>"
  define R where "R = min (policyInt c ''max_output_file_bytes'') (policyInt c ''max_total_output_file_bytes'' - p_total p)"
  obtain w e1 where fill: "fill i (new_writer c p1) = (w, e1)" by fastforce
  have "aw_ok R (new_writer c p1)" "aw_stored (new_writer c p1) = []"
    by (simp_all add: aw_ok_def new_writer_def R_def p1_def does_def)
  then have w: "aw_ok R w" "e1 = None \<Longrightarrow> Q (aw_stored w)"
    using assms(2) fill unfolding fills_def by blast+
  define a where "a = \<lparr>a_Name = name, a_MIMEType = mime, a_SizeBytes = aw_size w,
    a_SHA256 = sha256_hex L (aw_hashed w), a_Reader = aw_stored w\<rparr>"
  have a: "file_ok L c a" "kept_limit c p a" "a_Reader a = aw_stored w" "a_Name a = name" "a_MIMEType a = mime" "a_SizeBytes a = aw_size w"
    using w(1) True by (auto simp: a_def file_ok_def kept_limit_def aw_ok_def R_def Let_def)
  obtain reader fe where fin: "stage_finish E i = (reader, fe)" by fastforce
  from assms(1) True fill have run: "(case e1 of Some x \<Rightarrow> (does [Close_stage i] (p1\<lparr>p_checks := aw_checks w\<rparr>), Some x)
      | None \<Rightarrow> finish_file L E i name mime w (does [Close_stage i] (p1\<lparr>p_checks := aw_checks w\<rparr>))) = (p', e)"
    by (cases e1) (auto simp: makeFile_def Let_def p1_def simp flip: i_def)
  show ?thesis
  proof (cases "e1 \<noteq> None \<or> stage_close E i \<noteq> None \<or> cancelled E (aw_checks w)")
    case True
    then show ?thesis
      using run by (auto simp: finish_file_def p1_def does_def asked_def split: option.splits bool.splits)
  next
    case False
    then show ?thesis
      using run fin w(2) a unfolding finish_file_def
      by (cases fe; cases reader) (auto simp: p1_def does_def asked_def Let_def a_def)
  qed
qed

definition closes :: "provider_file list \<Rightarrow> nat \<Rightarrow> bool" where
  "closes fs i \<longleftrightarrow> pf_closes (fs ! i) \<and> pf_Reader (fs ! i) \<noteq> None"

definition sources_ok :: "provider_file list \<Rightarrow> proc \<Rightarrow> bool" where
  "sources_ok fs p \<longleftrightarrow> length (p_closed p) = length fs
     \<and> (\<forall>i<length fs. count_list (p_log p) (Close_source i) = (if p_closed p ! i \<and> closes fs i then 1 else 0))"

definition logged :: "act list \<Rightarrow> nat \<Rightarrow> bool" where
  "logged log n \<longleftrightarrow> (\<forall>i. count_list log (Begin_stage i) = (if i < n then 1 else 0)
     \<and> count_list log (Close_stage i) = (if i < n then 1 else 0)
     \<and> count_list log (Abort_stage i) = 0 \<and> (n \<le> i \<longrightarrow> count_list log (Close_reader i) = 0))"

definition unread :: "act list \<Rightarrow> nat \<Rightarrow> nat list \<Rightarrow> bool" where
  "unread log n ks \<longleftrightarrow> distinct ks \<and> (\<forall>k \<in> set ks. k < n \<and> count_list log (Close_reader k) = 0)"

definition stages_ok :: "proc \<Rightarrow> bool" where
  "stages_ok p \<longleftrightarrow> logged (p_log p) (p_stages p) \<and> unread (p_log p) (p_stages p) (map fst (p_files p))"

lemma logged_stage:
  "logged log n \<Longrightarrow> acts \<in> {[], [Finish_stage n], [Finish_stage n, Close_reader n]} \<Longrightarrow>
   logged (log @ [Begin_stage n, Close_stage n] @ acts) (n + 1)"
  by (auto simp: logged_def less_Suc_eq)

lemma unread_stage:
  assumes "unread log n ks"
  shows "acts \<in> {[], [Finish_stage n], [Finish_stage n, Close_reader n]} \<Longrightarrow>
      unread (log @ [Begin_stage n, Close_stage n] @ acts) (n + 1) ks"
    and "logged log n \<Longrightarrow> unread (log @ [Begin_stage n, Close_stage n, Finish_stage n]) (n + 1) (ks @ [n])"
proof -
  have fresh: "n \<notin> set ks" using assms by (auto simp: unread_def)
  then show "acts \<in> {[], [Finish_stage n], [Finish_stage n, Close_reader n]} \<Longrightarrow>
      unread (log @ [Begin_stage n, Close_stage n] @ acts) (n + 1) ks"
    using assms by (auto simp: unread_def less_Suc_eq)
  show "logged log n \<Longrightarrow> unread (log @ [Begin_stage n, Close_stage n, Finish_stage n]) (n + 1) (ks @ [n])"
    using assms fresh by (auto simp: unread_def logged_def less_Suc_eq)
qed

definition files_ok :: "stdlib \<Rightarrow> capability \<Rightarrow> proc \<Rightarrow> bool" where
  "files_ok L c p \<longleftrightarrow> (\<forall>k a. (k, a) \<in> set (p_files p) \<longrightarrow> file_ok L c a) \<and> p_total p = sum_list (map (\<lambda>f. a_SizeBytes (snd f)) (p_files p))
     \<and> (0 \<le> policyInt c ''max_output_file_bytes'' \<longrightarrow> 0 \<le> policyInt c ''max_total_output_file_bytes'' \<longrightarrow>
          p_total p \<le> policyInt c ''max_total_output_file_bytes''
          \<and> (\<forall>k a. (k, a) \<in> set (p_files p) \<longrightarrow> a_SizeBytes a \<le> policyInt c ''max_output_file_bytes''))"

definition proc_ok :: "stdlib \<Rightarrow> capability \<Rightarrow> provider_file list \<Rightarrow> proc \<Rightarrow> bool" where
  "proc_ok L c fs p \<longleftrightarrow> sources_ok fs p \<and> stages_ok p \<and> files_ok L c p"

lemma proc_ok_start: "proc_ok L c fs (proc_start fs)"
  by (simp add: proc_ok_def proc_start_def sources_ok_def stages_ok_def logged_def unread_def files_ok_def)

lemma proc_ok_checks [simp]: "proc_ok L c fs (p\<lparr>p_checks := k\<rparr>) = proc_ok L c fs p"
  by (simp add: proc_ok_def sources_ok_def stages_ok_def files_ok_def)

lemma asked_eq [simp]: "asked E p = (b, p1) \<longleftrightarrow> b = cancelled E (p_checks p) \<and> p1 = p\<lparr>p_checks := p_checks p + 1\<rparr>"
  by (auto simp: asked_def)

lemma makeFile_ok:
  assumes run: "makeFile L c E name mime fill p = (p', e)" and "fills fill Q" and ok: "proc_ok L c fs p"
  shows "proc_ok L c fs p'"
proof -
  have parts: "sources_ok fs p" "logged (p_log p) (p_stages p)" "unread (p_log p) (p_stages p) (map fst (p_files p))" "files_ok L c p"
    using ok by (simp_all add: proc_ok_def stages_ok_def)
  have closed: "p_closed p' = p_closed p" using makeFile_shape [OF run \<open>fills fill Q\<close>] by blast
  from makeFile_shape [OF run \<open>fills fill Q\<close>]
  consider (same) "p' = p"
    | (failed) acts where "p_stages p' = p_stages p + 1" "p_files p' = p_files p" "p_total p' = p_total p"
        "p_log p' = p_log p @ [Begin_stage (p_stages p), Close_stage (p_stages p)] @ acts"
        "acts \<in> {[], [Finish_stage (p_stages p)], [Finish_stage (p_stages p), Close_reader (p_stages p)]}"
    | (kept) a where "p_stages p' = p_stages p + 1" "p_files p' = p_files p @ [(p_stages p, a)]" "p_total p' = p_total p + a_SizeBytes a"
        "p_log p' = p_log p @ [Begin_stage (p_stages p), Close_stage (p_stages p), Finish_stage (p_stages p)]"
        "file_ok L c a" "kept_limit c p a" by blast
  then show ?thesis
  proof cases
    case same
    then show ?thesis using ok by simp
  next
    case failed
    moreover have "sources_ok fs p'" using parts(1) failed(4,5) closed by (auto simp: sources_ok_def)
    moreover have "files_ok L c p'" using parts(4) failed(2,3) by (auto simp: files_ok_def)
    ultimately show ?thesis
      using logged_stage [OF parts(2)] unread_stage(1) [OF parts(3)] by (simp add: proc_ok_def stages_ok_def)
  next
    case kept
    moreover have "sources_ok fs p'" using parts(1) kept(4) closed by (simp add: sources_ok_def)
    moreover have "files_ok L c p'"
      using parts(4) kept(2,3,5,6) by (auto simp: files_ok_def kept_limit_def Let_def)
    ultimately show ?thesis
      using logged_stage [OF parts(2), of "[Finish_stage (p_stages p)]"] unread_stage(2) [OF parts(3,2)]
      by (simp add: proc_ok_def stages_ok_def)
  qed
qed

lemma logged_source [simp]:
  "logged (log @ [Close_source i]) n = logged log n" "unread (log @ [Close_source i]) n ks = unread log n ks"
  by (simp_all add: logged_def unread_def)

lemma closeSource_ok:
  assumes run: "closeSource E fs i p = (p', e)" and ok: "proc_ok L c fs p" and i: "i < length fs"
  shows "proc_ok L c fs p'" "p_files p' = p_files p" "p_closed p' = (p_closed p)[i := True]" "p_stages p' = p_stages p"
proof -
  have parts: "sources_ok fs p" "stages_ok p" "files_ok L c p" using ok by (simp_all add: proc_ok_def)
  have closed: "p_closed p ! i \<Longrightarrow> (p_closed p)[i := True] = p_closed p" by (metis list_update_id)
  show fields: "p_files p' = p_files p" "p_closed p' = (p_closed p)[i := True]" "p_stages p' = p_stages p"
    using run closed by (auto simp: closeSource_def does_def Let_def split: if_splits)
  have log: "p_log p' = p_log p @ (if closes fs i \<and> \<not> p_closed p ! i then [Close_source i] else [])"
    and tot: "p_total p' = p_total p"
    using run by (auto simp: closeSource_def does_def closes_def Let_def split: if_splits)
  have "sources_ok fs p'" using parts(1) fields(2) log i by (auto simp: sources_ok_def nth_list_update)
  moreover have "stages_ok p'" using parts(2) fields log by (simp add: stages_ok_def)
  moreover have "files_ok L c p'" using parts(3) fields(1) tot by (auto simp: files_ok_def)
  ultimately show "proc_ok L c fs p'" by (simp add: proc_ok_def)
qed

text \<open>An artifact holds exactly the bytes of its source, which met its assertions.\<close>

definition copy_of :: "stdlib \<Rightarrow> provider_file \<Rightarrow> artifact \<Rightarrow> bool" where
  "copy_of L f a \<longleftrightarrow> a_Name a = pf_Name f \<and> intact L f (a_Reader a)
     \<and> (case pf_Reader f of None \<Rightarrow> False | Some reads \<Rightarrow> a_Reader a = source_bytes reads)"

lemma publish_source_ok:
  assumes "publish_source L c E fs i p = (p', e)" "proc_ok L c fs p" "i < length fs"
  shows "proc_ok L c fs p' \<and> (e = None \<longrightarrow> (\<exists>k a. p_files p' = p_files p @ [(k, a)] \<and> copy_of L (fs ! i) a))"
proof (cases "pf_Reader (fs ! i)")
  case None
  then show ?thesis using assms by (auto simp: publish_source_def Let_def)
next
  case (Some reads)
  define mime where "mime = (case files_setting c ''mime_type'' of Some (VStr m) \<Rightarrow> m | _ \<Rightarrow> pf_MIMEType (fs ! i))"
  obtain p1 e1 where mf: "makeFile L c E (pf_Name (fs ! i)) mime (copy_source L E (fs ! i) reads) p = (p1, e1)" by fastforce
  obtain p2 ce where cs: "closeSource E fs i p1 = (p2, ce)" by fastforce
  note p1 = makeFile_ok [OF mf fills_copy assms(2)]
  note p2 = closeSource_ok [OF cs p1 assms(3)]
  show ?thesis
  proof (cases "(case pf_SizeBytes (fs ! i) of Some k \<Rightarrow> k < 0 | None \<Rightarrow> False)
      \<or> pf_SHA256 (fs ! i) \<noteq> [] \<and> \<not> is_digest (pf_SHA256 (fs ! i))")
    case True
    then show ?thesis using assms Some by (auto simp: publish_source_def Let_def)
  next
    case False
    with assms(1) Some mf cs have "p' = p2" "e = (case e1 of Some x \<Rightarrow> Some x | None \<Rightarrow> map_option invalidOutput ce)"
      by (auto simp: publish_source_def Let_def mime_def)
    then show ?thesis
      using p2 makeFile_shape [OF mf fills_copy] Some by (auto simp: copy_of_def split: option.splits)
  qed
qed

lemma publish_sources_ok:
  "publish_sources L c E fs is p = (p', e) \<Longrightarrow> proc_ok L c fs p \<Longrightarrow> \<forall>i \<in> set is. i < length fs \<Longrightarrow>
   proc_ok L c fs p' \<and> (e = None \<longrightarrow> (\<exists>new. p_files p' = p_files p @ new
      \<and> list_all2 (\<lambda>i f. copy_of L (fs ! i) (snd f)) is new))"
proof (induction "is" arbitrary: p)
  case (Cons i "is")
  obtain p1 e1 where step: "publish_source L c E fs i p = (p1, e1)" by fastforce
  note s = publish_source_ok [OF step Cons.prems(2)]
  show ?case
  proof (cases e1)
    case None
    with step Cons.prems have "publish_sources L c E fs is p1 = (p', e)" by simp
    from Cons.IH [OF this] s None Cons.prems(3) show ?thesis by fastforce
  next
    case (Some x)
    then show ?thesis using step s Cons.prems by auto
  qed
qed simp

text \<open>What a completed publication has in its files.\<close>

definition published :: "stdlib \<Rightarrow> capability \<Rightarrow> provider_result \<Rightarrow> val \<Rightarrow> artifact list \<Rightarrow> bool" where
  "published L c src projected arts \<longleftrightarrow>
     (if generates_csv c then (\<exists>a. arts = [a] \<and> csv_document (floats L) c projected (s_Columns src) = Inr (a_Reader a))
      else list_all2 (copy_of L) (s_Files src) arts)"

definition outcome :: "stdlib \<Rightarrow> capability \<Rightarrow> provider_result \<Rightarrow> val \<Rightarrow> artifact list \<Rightarrow> bool" where
  "outcome L c src d arts \<longleftrightarrow>
     (if o_Data (c_Output c) then checkOutputJSON (floats L) d (outputLimits c) = None else d = VNull)
     \<and> (if o_Files (c_Output c) = None then arts = []
        else int (length arts) \<le> policyInt c ''max_output_files''
          \<and> (\<exists>projected. (generates_csv c \<longrightarrow> ProjectOutput L c (s_Data src) (s_Columns src) = Inr projected)
                \<and> published L c src projected arts))"

lemma publish_files_ok:
  assumes run: "publish_files L c E src projected p = (p', e)" and ok: "proc_ok L c (s_Files src) p" and none: "p_files p = []"
  shows "proc_ok L c (s_Files src) p' \<and> (e = None \<longrightarrow> published L c src projected (map snd (p_files p')))"
proof (cases "generates_csv c")
  case True
  define name where "name = (case files_setting c ''filename'' of Some (VStr n) \<Rightarrow> n | _ \<Rightarrow> [])"
  define mime where "mime = (case files_setting c ''mime_type'' of Some (VStr m) \<Rightarrow> m | _ \<Rightarrow> [])"
  obtain p1 e1 where mf: "makeFile L c E name mime (\<lambda>i. WriteCSV (floats L) c projected (s_Columns src) (aw_put E i)) p = (p1, e1)"
    by fastforce
  have "proc_ok L c (s_Files src) p1" by (rule makeFile_ok [OF mf fills_csv ok])
  moreover have "e1 = None \<Longrightarrow> published L c src projected (map snd (p_files p1))"
    using makeFile_shape [OF mf fills_csv] none True by (auto simp: published_def)
  moreover have "(case e1 of Some x \<Rightarrow> (p1, Some x)
      | None \<Rightarrow> (case asked E p1 of (b, p2) \<Rightarrow> (p2, if b then Some Cancelled else None))) = (p', e)"
    using run mf True by (cases e1) (auto simp: publish_files_def name_def mime_def)
  ultimately show ?thesis by (auto simp: asked_def split: option.splits if_splits)
next
  case False
  obtain p1 e1 where ps: "publish_sources L c E (s_Files src) [0..<length (s_Files src)] p = (p1, e1)" by fastforce
  note s = publish_sources_ok [OF ps ok]
  have "e1 = None \<Longrightarrow> published L c src projected (map snd (p_files p1))"
    using s none False by (auto simp: published_def list_all2_conv_all_nth)
  moreover have "(case e1 of Some x \<Rightarrow> (p1, Some x)
      | None \<Rightarrow> (case asked E p1 of (b, p2) \<Rightarrow> (p2, if b then Some Cancelled else None))) = (p', e)"
    using run ps False by (cases e1) (auto simp: publish_files_def)
  ultimately show ?thesis using s by (auto simp: asked_def split: option.splits if_splits)
qed

lemma published_length:
  "published L c src projected arts \<Longrightarrow> length arts = (if generates_csv c then 1 else length (s_Files src))"
  by (auto simp: published_def list_all2_conv_all_nth)

lemma ready_data_ok:
  "ready_data L c projected = Inr d \<Longrightarrow>
   if o_Data (c_Output c) then checkOutputJSON (floats L) d (outputLimits c) = None else d = VNull"
  by (auto simp: ready_data_def Let_def split: if_splits option.splits)

lemma process_body_ok:
  assumes run: "process_body L c E src delivery p0 = (p', r)" and ok: "proc_ok L c (s_Files src) p0" and none: "p_files p0 = []"
  shows "proc_ok L c (s_Files src) p' \<and> (\<forall>d. r = Inr d \<longrightarrow> outcome L c src d (map snd (p_files p')))"
proof -
  define p where "p = p0\<lparr>p_checks := p_checks p0 + 1\<rparr>"
  have p: "proc_ok L c (s_Files src) p" "p_files p = []" using ok none by (simp_all add: p_def)
  define proj where "proj = (if o_Data (c_Output c) \<or> generates_csv c then ProjectOutput L c (s_Data src) (s_Columns src) else Inr VNull)"
  define n where "n = (if generates_csv c then 1 else length (s_Files src))"
  show ?thesis
  proof (cases "\<exists>projected data. \<not> cancelled E (p_checks p0) \<and> \<not> (generates_csv c \<and> s_Files src \<noteq> [])
      \<and> proj = Inr projected \<and> ready_data L c projected = Inr data \<and> o_Files (c_Output c) \<noteq> None
      \<and> \<not> int n > policyInt c ''max_output_files'' \<and> \<not> (delivery \<and> direct_delivery c \<and> n \<noteq> 1)")
    case True
    then obtain projected data where h: "\<not> cancelled E (p_checks p0)" "\<not> (generates_csv c \<and> s_Files src \<noteq> [])"
      "proj = Inr projected" "ready_data L c projected = Inr data" "o_Files (c_Output c) \<noteq> None"
      "\<not> int n > policyInt c ''max_output_files''" "\<not> (delivery \<and> direct_delivery c \<and> n \<noteq> 1)" by blast
    obtain p1 e1 where pf: "publish_files L c E src projected p = (p1, e1)" by fastforce
    have "(case (p1, e1) of (p', Some e) \<Rightarrow> (p', Inl e) | (p', None) \<Rightarrow> (p', Inr data)) = (p', r)"
      using run h pf unfolding process_body_def asked_def proj_def n_def p_def [symmetric]
      by (cases delivery; cases "direct_delivery c") (simp_all add: Let_def)
    moreover note publish_files_ok [OF pf p]
    moreover have "generates_csv c \<longrightarrow> ProjectOutput L c (s_Data src) (s_Columns src) = Inr projected"
      using h(3) by (auto simp: proj_def)
    ultimately show ?thesis
      using published_length [of L c src projected "map snd (p_files p1)"] h ready_data_ok [OF h(4)]
      by (auto simp: outcome_def n_def split: option.splits)
  next
    case False
    then show ?thesis
      using run p ready_data_ok unfolding process_body_def asked_def proj_def n_def p_def [symmetric]
      by (auto simp: Let_def outcome_def split: bool.splits if_splits sum.splits)
  qed
qed

lemma close_all_ok:
  "close_all E fs is (p, r) = (p', r') \<Longrightarrow> proc_ok L c fs p \<Longrightarrow> \<forall>i \<in> set is. i < length fs \<Longrightarrow>
   proc_ok L c fs p' \<and> p_files p' = p_files p \<and> p_stages p' = p_stages p \<and> length (p_closed p') = length (p_closed p)
   \<and> (\<forall>i<length fs. p_closed p ! i \<or> i \<in> set is \<longrightarrow> p_closed p' ! i) \<and> (\<forall>d. r' = Inr d \<longrightarrow> r = Inr d)"
proof (induction "is" arbitrary: p r)
  case (Cons i "is")
  obtain p1 e where cs: "closeSource E fs i p = (p1, e)" by fastforce
  have i: "i < length fs" using Cons.prems(3) by simp
  note s = closeSource_ok [OF cs Cons.prems(2) i]
  have len: "length (p_closed p) = length fs" using Cons.prems(2) by (simp add: proc_ok_def sources_ok_def)
  obtain r1 where r1: "close_all E fs is (p1, r1) = (p', r')" "\<forall>d. r1 = Inr d \<longrightarrow> r = Inr d"
    using Cons.prems(1) cs by (cases e) (auto split: sum.splits)
  from Cons.IH [OF r1(1) s(1)] Cons.prems(3) s(2-4) r1(2) len show ?case by (auto simp: nth_list_update)
qed auto

lemma count_list_distinct: "distinct xs \<Longrightarrow> count_list xs x = (if x \<in> set xs then 1 else 0)"
  by (induction xs) auto

lemma release_counts:
  assumes "stages_ok p"
  shows "i < p_stages p \<Longrightarrow> count_list (p_log (release p)) (Abort_stage i) = 1"
    and "k \<in> fst ` set (p_files p) \<Longrightarrow> count_list (p_log (release p)) (Close_reader k) = 1"
    and "count_list (p_log (release p)) (Close_source j) = count_list (p_log p) (Close_source j)"
    and "count_list (p_log (release p)) (Begin_stage j) = count_list (p_log p) (Begin_stage j)"
    and "count_list (p_log (release p)) (Close_stage j) = count_list (p_log p) (Close_stage j)"
proof -
  have d: "distinct (map (\<lambda>f. Close_reader (fst f)) (p_files p))" "distinct (map Abort_stage [0..<p_stages p])"
    using assms by (auto simp: stages_ok_def unread_def distinct_map inj_on_def)
  note c = count_list_distinct [OF d(1)] count_list_distinct [OF d(2)]
  show "i < p_stages p \<Longrightarrow> count_list (p_log (release p)) (Abort_stage i) = 1"
    using assms by (auto simp: release_def does_def c stages_ok_def logged_def)
  show "k \<in> fst ` set (p_files p) \<Longrightarrow> count_list (p_log (release p)) (Close_reader k) = 1"
    using assms by (auto simp: release_def does_def c stages_ok_def unread_def)
  show "count_list (p_log (release p)) (Close_source j) = count_list (p_log p) (Close_source j)"
    "count_list (p_log (release p)) (Begin_stage j) = count_list (p_log p) (Begin_stage j)"
    "count_list (p_log (release p)) (Close_stage j) = count_list (p_log p) (Close_stage j)"
    by (auto simp: release_def does_def c)
qed

lemma release_fields [simp]:
  "p_files (release p) = p_files p" "p_stages (release p) = p_stages p" "p_total (release p) = p_total p"
  by (simp_all add: release_def does_def)

text \<open>The state in which the deferred function hands over, before a failure releases the stages.\<close>

lemma processOutput_ends:
  assumes "processOutput L c E src delivery = (p, r)"
  obtains q where "proc_ok L c (s_Files src) q" "\<forall>i<length (s_Files src). p_closed q ! i"
    "p = (case r of Inl _ \<Rightarrow> release q | Inr _ \<Rightarrow> q)"
    "\<forall>d. r = Inr d \<longrightarrow> outcome L c src d (map snd (p_files q))"
proof -
  define fs where "fs = s_Files src"
  obtain p1 r1 where body: "process_body L c E src delivery (proc_start fs) = (p1, r1)" by fastforce
  obtain p2 r2 where all: "close_all E fs [0..<length fs] (p1, r1) = (p2, r2)" by fastforce
  have b: "proc_ok L c fs p1 \<and> (\<forall>d. r1 = Inr d \<longrightarrow> outcome L c src d (map snd (p_files p1)))"
    unfolding fs_def by (rule process_body_ok [OF body [unfolded fs_def]])
      (simp_all add: proc_ok_start, simp add: proc_start_def)
  then have p1: "proc_ok L c fs p1" by simp
  note a = close_all_ok [OF all p1]
  have run: "deferred E fs (p1, r1) = (p, r)" using assms body by (simp add: processOutput_def fs_def)
  define q where "q = (case r2 of Inl _ \<Rightarrow> p2 | Inr _ \<Rightarrow> p2\<lparr>p_checks := p_checks p2 + 1\<rparr>)"
  have q: "proc_ok L c fs q" "p_closed q = p_closed p2" "p_files q = p_files p1"
    using a by (auto simp: q_def split: sum.splits)
  have "p = (case r of Inl _ \<Rightarrow> release q | Inr _ \<Rightarrow> q)" "\<forall>d. r = Inr d \<longrightarrow> r2 = Inr d"
    using run all by (auto simp: deferred_def q_def asked_def split: sum.splits bool.splits)
  then show ?thesis using that [of q] q a b by (auto simp: fs_def)
qed

section \<open>Publication\<close>

text \<open>
  C13: A publication accounts for everything it holds, whatever the stages, the readers and the context do.
  Every source reader that can be closed is closed exactly once and every stage that was begun is closed
  exactly once. When it fails, every stage is aborted exactly once and every reader it had opened is
  closed exactly once; when it succeeds, no stage is aborted and no opened reader is closed.
\<close>

theorem publication_releases_everything:
  assumes "processOutput L c E src delivery = (p, r)"
  shows "(\<forall>i<length (s_Files src). count_list (p_log p) (Close_source i) = (if closes (s_Files src) i then 1 else 0))
    \<and> (\<forall>i. count_list (p_log p) (Begin_stage i) = (if i < p_stages p then 1 else 0)
          \<and> count_list (p_log p) (Close_stage i) = (if i < p_stages p then 1 else 0))
    \<and> (case r of
        Inl _ \<Rightarrow> (\<forall>i<p_stages p. count_list (p_log p) (Abort_stage i) = 1)
          \<and> (\<forall>k \<in> fst ` set (p_files p). count_list (p_log p) (Close_reader k) = 1)
      | Inr _ \<Rightarrow> (\<forall>i. count_list (p_log p) (Abort_stage i) = 0)
          \<and> (\<forall>k \<in> fst ` set (p_files p). count_list (p_log p) (Close_reader k) = 0))"
proof -
  obtain q where q: "proc_ok L c (s_Files src) q" "\<forall>i<length (s_Files src). p_closed q ! i"
    "p = (case r of Inl _ \<Rightarrow> release q | Inr _ \<Rightarrow> q)"
    using processOutput_ends [OF assms] by metis
  then have ok: "sources_ok (s_Files src) q" "stages_ok q" by (simp_all add: proc_ok_def)
  note counts = release_counts [OF ok(2)]
  show ?thesis
  proof (cases r)
    case (Inl e)
    then show ?thesis using ok q(2,3) counts by (simp add: sources_ok_def stages_ok_def logged_def)
  next
    case (Inr d)
    then show ?thesis using ok q(2,3) by (auto simp: sources_ok_def stages_ok_def logged_def unread_def)
  qed
qed

text \<open>A capability that publishes the original files, and stages of which the second cannot be finished.\<close>

definition sample_capability :: capability where
  "sample_capability =
     \<lparr>c_Name = ''report'', c_Description = [], c_Input = any_schema,
      c_Output = \<lparr>o_Schema = any_schema, o_Data = False,
        o_Files = Some [(''delivery'', VObj [(''rest'', VStr ''artifact'')])], o_Mode = []\<rparr>,
      c_Executor = \<lparr>x_Type = ''file'', x_Source = [], x_Operation = ''read'', x_Settings = []\<rparr>,
      c_Policy = [(''max_output_files'', VInt 4), (''max_output_file_bytes'', VInt 3), (''max_total_output_file_bytes'', VInt 5)],
      c_Annotations = None, c_Examples = []\<rparr>"

definition sample_source :: "string \<Rightarrow> provider_file" where
  "sample_source n = \<lparr>pf_Name = n, pf_MIMEType = ''text/plain'', pf_Reader = Some [Bytes ''a'' None, Bytes ''b'' (Some ''EOF'')],
     pf_closes = True, pf_SizeBytes = Some 2, pf_SHA256 = []\<rparr>"

definition sample_result :: provider_result where
  "sample_result = \<lparr>s_Data = VNull, s_Columns = [], s_Files = [sample_source ''x'', sample_source ''y'']\<rparr>"

definition sample_env :: "string option \<Rightarrow> out_env" where
  "sample_env e =
     \<lparr>cancelled = (\<lambda>_. False), stager_missing = False, stage_begin = (\<lambda>_. Inr True),
      stage_put = (\<lambda>_ _ b. (int (length b), None)), stage_close = (\<lambda>_. None),
      stage_finish = (\<lambda>i. (True, if i = 1 then e else None)), source_close = (\<lambda>_. None)\<rparr>"

lemmas publication_defs = processOutput_def deferred_def process_body_def publish_files_def publish_source_def makeFile_def
  finish_file_def copy_source_def artifactWriter_Write_def aw_loop.simps aw_cancelled_def aw_take_def new_writer_def asked_def does_def
  closeSource_def release_def ready_data_def direct_delivery_def files_setting_def generates_csv_def policyInt_def proc_start_def

lemmas sample_defs = sample_capability_def sample_result_def sample_source_def sample_env_def

lemma sample_names: "ValidateBasename ''x''" "ValidateBasename ''y''" "validMIME ''text/plain''"
  by code_simp+

theorem publication_releases_everything_witness:
  "\<exists>p. processOutput sample_lib sample_capability (sample_env (Some ''disk full'')) sample_result True = (p, Inl Output_invalid)
    \<and> p_stages p = 2 \<and> count_list (p_log p) (Close_source 1) = 1
    \<and> count_list (p_log p) (Abort_stage 0) = 1 \<and> count_list (p_log p) (Close_reader 0) = 1"
proof -
  obtain p where run: "processOutput sample_lib sample_capability (sample_env (Some ''disk full'')) sample_result True = (p, Inl Output_invalid)"
    and p: "p_stages p = 2" "p_files p \<noteq> [] \<and> fst (hd (p_files p)) = 0"
    by (simp add: publication_defs sample_defs sample_names Let_def invalidOutput_def)
  have "0 \<in> fst ` set (p_files p)" using p(2) by (cases "p_files p") auto
  moreover have "closes (s_Files sample_result) 1" "1 < length (s_Files sample_result)"
    by (simp_all add: closes_def sample_result_def sample_source_def)
  ultimately show ?thesis
    using publication_releases_everything [OF run] run p(1) by auto
qed

text \<open>
  C9: What a successful publication hands over. Its data is null or within the JSON limits. Its files are
  no more than the configured number, each no larger than the file limit and all together no larger than
  the total, and the declared size and digest of each are those of its bytes. An original file holds
  exactly the bytes its source returned, which met the size and digest asserted for it; a generated file
  holds the CSV document of the projected data.
\<close>

theorem published_files_are_complete_and_bounded:
  assumes run: "processOutput L c E src delivery = (p, Inr d)"
    and "0 \<le> policyInt c ''max_output_file_bytes''" "0 \<le> policyInt c ''max_total_output_file_bytes''"
  shows "outcome L c src d (map snd (p_files p))
    \<and> (\<forall>a \<in> set (map snd (p_files p)). a_SizeBytes a = int (length (a_Reader a)) \<and> a_SHA256 a = sha256_hex L (a_Reader a)
         \<and> ValidateBasename (a_Name a) \<and> validMIME (a_MIMEType a) \<and> a_SizeBytes a \<le> policyInt c ''max_output_file_bytes'')
    \<and> sum_list (map a_SizeBytes (map snd (p_files p))) \<le> policyInt c ''max_total_output_file_bytes''"
proof -
  have "files_ok L c p \<and> outcome L c src d (map snd (p_files p))"
    using processOutput_ends [OF run] by (auto simp: proc_ok_def)
  then show ?thesis using assms(2,3) by (auto simp: files_ok_def file_ok_def comp_def)
qed

theorem published_files_are_complete_and_bounded_witness:
  "\<exists>p. processOutput sample_lib sample_capability (sample_env None) sample_result True = (p, Inr VNull)
    \<and> list_all2 (copy_of sample_lib) (s_Files sample_result) (map snd (p_files p))
    \<and> map a_Reader (map snd (p_files p)) = [''ab'', ''ab'']"
proof -
  obtain p where run: "processOutput sample_lib sample_capability (sample_env None) sample_result True = (p, Inr VNull)"
    by (simp add: publication_defs sample_defs sample_names Let_def)
  have "outcome sample_lib sample_capability sample_result VNull (map snd (p_files p))"
    using published_files_are_complete_and_bounded [OF run] by (simp add: policyInt_def sample_capability_def)
  then have copies: "list_all2 (copy_of sample_lib) (s_Files sample_result) (map snd (p_files p))"
    by (simp add: outcome_def published_def generates_csv_def files_setting_def sample_capability_def)
  then have "map a_Reader (map snd (p_files p)) = [''ab'', ''ab'']"
    by (auto simp: sample_result_def sample_source_def copy_of_def list_all2_Cons1 map_eq_Cons_conv simp del: map_map)
  with run copies show ?thesis by (intro exI [of _ p] conjI)
qed

section \<open>Copying always stops\<close>

lemma copyArtifact_stops:
  "aw_ok R w \<Longrightarrow> idle \<le> 100 \<Longrightarrow> nat (aw_remaining w) * 101 + (100 - idle) < length rs \<Longrightarrow>
   copyArtifact E i (rs @ later) w h idle tot = copyArtifact E i rs w h idle tot"
proof (induction rs arbitrary: w h idle tot)
  case (Cons r rs)
  show ?case
  proof (cases r)
    case (Bytes b e)
    define w1 where "w1 = w\<lparr>aw_checks := Suc (aw_checks w)\<rparr>"
    obtain w2 k we where put: "(if b \<noteq> [] then artifactWriter_Write E i w1 b else (w1, 0, None)) = (w2, k, we)"
      by (metis prod_cases3)
    define idle' where "idle' = (if b \<noteq> [] then 0 else idle + 1)"
    have rec: "copyArtifact E i (rs @ later) w2 (h @ b) idle' (tot + int k) = copyArtifact E i rs w2 (h @ b) idle' (tot + int k)"
      if "we = None" "\<not> idle' > 100"
    proof (rule Cons.IH)
      have w2: "aw_ok R w2 \<and> aw_stored w2 = aw_stored w @ b"
        using put \<open>we = None\<close> Cons.prems(1) artifactWriter_Write_ok [of E i w1 b w2 k we R]
        by (auto simp: w1_def split: if_splits)
      then show "aw_ok R w2" "idle' \<le> 100" using that by auto
      have rem: "aw_remaining w2 = aw_remaining w - int (length b)"
        using w2 Cons.prems(1) by (simp add: aw_ok_def)
      have "b \<noteq> [] \<Longrightarrow> int (length b) \<le> aw_remaining w"
        using put \<open>we = None\<close> by (auto simp: artifactWriter_Write_def aw_cancelled_def w1_def split: if_splits bool.splits)
      then show "nat (aw_remaining w2) * 101 + (100 - idle') < length rs"
        using Cons.prems(2,3) that(2) rem by (cases b) (auto simp: idle'_def nat_diff_distrib)
    qed
    show ?thesis using put rec Bytes
      by (auto simp: aw_cancelled_def Let_def idle'_def simp flip: w1_def split: bool.splits option.splits if_splits)
  qed simp
qed simp

text \<open>
  C33: Copying a source ends however the source behaves: with a limit of \<open>R\<close> bytes, what \<open>copyArtifact\<close> does
  is decided by the first \<open>101 * (R + 1)\<close> results of the reader, so a reader that never ends and one that
  keeps returning nothing are both cut off.
\<close>

theorem copying_always_stops:
  assumes "0 \<le> R" "aw_ok R w" "101 * (nat R + 1) \<le> length rs"
  shows "copyArtifact E i (rs @ later) w [] 0 0 = copyArtifact E i rs w [] 0 0"
proof -
  have "nat (aw_remaining w) \<le> nat R" using assms(2) by (simp add: aw_ok_def)
  then have "nat (aw_remaining w) * 101 + (100 - 0) < length rs" using assms(3) by simp
  then show ?thesis by (intro copyArtifact_stops [OF assms(2)]) auto
qed

theorem copying_always_stops_witness:
  "aw_ok 0 \<lparr>aw_checks = 0, aw_stored = [], aw_hashed = [], aw_remaining = 0, aw_size = 0\<rparr>
   \<and> copyArtifact (sample_env None) 0 (replicate 101 (Bytes [] None) @ [Bytes ''x'' None])
        \<lparr>aw_checks = 0, aw_stored = [], aw_hashed = [], aw_remaining = 0, aw_size = 0\<rparr> [] 0 0
     = copyArtifact (sample_env None) 0 (replicate 101 (Bytes [] None))
        \<lparr>aw_checks = 0, aw_stored = [], aw_hashed = [], aw_remaining = 0, aw_size = 0\<rparr> [] 0 0"
proof -
  have ok: "aw_ok 0 \<lparr>aw_checks = 0, aw_stored = [], aw_hashed = [], aw_remaining = 0, aw_size = 0\<rparr>" by (simp add: aw_ok_def)
  then show ?thesis by (intro conjI copying_always_stops [OF _ ok]) auto
qed

end
