(* ===== verification/Lifecycle.thy ===== *)
theory Lifecycle
  imports Output
begin

text \<open>
  Prepared providers and what they report (\<^verbatim>\<open>src/internal/agent/providers/lifecycle.go\<close>, \<^verbatim>\<open>failure.go\<close>, and the public
  error value of \<^verbatim>\<open>src/internal/contract/envelope.go\<close>): the record of business effects, preparation of the
  configured providers with their cleanup, and the leases that keep providers open while requests run on them.
\<close>

section \<open>Effects\<close>

datatype effect_state = Unknown | Committed | Rolled_back | Uncertain

record effects =
  started :: bool
  noChange :: bool
  operations :: "effect_state list"

definition no_effects :: effects where
  "no_effects = \<lparr>started = False, noChange = False, operations = []\<rparr>"

definition Effects_Start :: "effects \<Rightarrow> effects" where
  "Effects_Start e = e\<lparr>started := True\<rparr>"

definition NoChange :: "effects \<Rightarrow> effects" where
  "NoChange e = e\<lparr>noChange := True\<rparr>"

definition NotStarted :: "effects \<Rightarrow> effects" where
  "NotStarted e = (if operations e = [] then e\<lparr>started := False\<rparr> else e)"

text \<open>A handle is the position of its operation.\<close>

definition Effects_Begin :: "effects \<Rightarrow> effects \<times> nat" where
  "Effects_Begin e = (e\<lparr>operations := operations e @ [Unknown]\<rparr>, length (operations e))"

definition finish_effect :: "effect_state \<Rightarrow> nat \<Rightarrow> effects \<Rightarrow> effects" where
  "finish_effect state i e =
     (if i < length (operations e) then
        e\<lparr>operations := (operations e)[i :=
          (if operations e ! i = Unknown then state else if operations e ! i \<noteq> state then Uncertain else operations e ! i)]\<rparr>
      else e)"

definition Outcome :: "effects \<Rightarrow> string" where
  "Outcome e =
     (if \<not> started e then ''not_started''
      else case operations e of
        [] \<Rightarrow> if noChange e then ''no_change'' else ''unknown''
      | state # rest \<Rightarrow>
          if state \<noteq> Committed \<and> state \<noteq> Rolled_back then ''unknown''
          else if \<exists>v \<in> set rest. v \<noteq> state then ''unknown''
          else if state = Committed then ''committed'' else ''rolled_back'')"

text \<open>What a provider may call while it executes.\<close>

datatype effect_call = Call_start | Call_no_change | Call_not_started | Call_begin | Call_committed nat | Call_rolled_back nat

fun note_call :: "effects \<Rightarrow> effect_call \<Rightarrow> effects" where
  "note_call e Call_start = Effects_Start e"
| "note_call e Call_no_change = NoChange e"
| "note_call e Call_not_started = NotStarted e"
| "note_call e Call_begin = fst (Effects_Begin e)"
| "note_call e (Call_committed i) = finish_effect Committed i e"
| "note_call e (Call_rolled_back i) = finish_effect Rolled_back i e"

text \<open>An operation is only begun while the execution counts as started.\<close>

fun announced :: "effects \<Rightarrow> effect_call list \<Rightarrow> bool" where
  "announced e [] = True"
| "announced e (c # cs) = ((c = Call_begin \<longrightarrow> started e) \<and> announced (note_call e c) cs)"

section \<open>Public errors\<close>

record error_value =
  ev_Code :: string
  ev_Message :: string
  ev_Reason :: string
  ev_Outcome :: string

definition systemErrorCodes :: "string list" where
  "systemErrorCodes = [''INVALID_REQUEST'', ''VALIDATION_FAILED'', ''AUTH_FAILED'', ''CAPABILITY_DENIED'', ''PERMISSION_DENIED'',
     ''NOT_FOUND'', ''SOURCE_CHANGED'', ''CONFLICT'', ''LIMIT_EXCEEDED'', ''RATE_LIMITED'', ''BUSY'', ''AGENT_OFFLINE'',
     ''DEPENDENCY_UNAVAILABLE'', ''EXECUTION_TIMEOUT'', ''EXECUTION_FAILED'', ''OUTPUT_INVALID'', ''OUTCOME_UNKNOWN'', ''INTERNAL_ERROR'']"

definition outcomes :: "string list" where
  "outcomes = [''not_started'', ''no_change'', ''rolled_back'', ''committed'', ''unknown'']"

definition upper_letter :: "char \<Rightarrow> bool" where
  "upper_letter c \<longleftrightarrow> 65 \<le> byte c \<and> byte c \<le> 90"

definition code_char :: "char \<Rightarrow> bool" where
  "code_char c \<longleftrightarrow> upper_letter c \<or> (48 \<le> byte c \<and> byte c \<le> 57) \<or> c = CHR ''_''"

definition reasonCodeRE :: "string \<Rightarrow> bool" where
  "reasonCodeRE s \<longleftrightarrow> s \<noteq> [] \<and> upper_letter (hd s) \<and> list_all code_char (tl s)"

definition appCodeRE :: "string \<Rightarrow> bool" where
  "appCodeRE s \<longleftrightarrow> HasPrefix s ''APP_'' \<and> reasonCodeRE (drop 4 s) \<and> length (drop 4 s) \<le> 60"

definition ErrorValue_Validate :: "error_value \<Rightarrow> bool" where
  "ErrorValue_Validate e \<longleftrightarrow>
     (contains systemErrorCodes (ev_Code e) \<or> appCodeRE (ev_Code e))
     \<and> utf8_valid (ev_Message e) \<and> 1 \<le> length (ev_Message e) \<and> length (ev_Message e) \<le> 1024
     \<and> list_all (\<lambda>r. \<not> is_control r) (runes (ev_Message e))
     \<and> (ev_Reason e = [] \<or> reasonCodeRE (ev_Reason e))
     \<and> contains outcomes (ev_Outcome e)
     \<and> \<not> (appCodeRE (ev_Code e) \<and> ev_Reason e \<noteq> [])"

text \<open>What \<^verbatim>\<open>errors.As\<close> finds in a provider's error: a failure, an output error, an explicitly public terminal error.\<close>

record perr =
  er_failure :: "(string \<times> string) option"
  er_output :: "string option"
  er_terminal :: "(string \<times> string) option"

definition NewPublicTerminal :: "string \<Rightarrow> string \<Rightarrow> perr + string \<times> string" where
  "NewPublicTerminal code message =
     (if \<not> HasPrefix code ''APP_'' \<or> \<not> ErrorValue_Validate \<lparr>ev_Code = code, ev_Message = message, ev_Reason = [], ev_Outcome = ''unknown''\<rparr>
      then Inl \<lparr>er_failure = Some (''EXECUTION_FAILED'', []), er_output = None, er_terminal = None\<rparr>
      else Inr (code, message))"

section \<open>Prepared providers\<close>

record snapshot =
  s_cap :: capability
  s_hash :: string

datatype close_phase = Open | Closing | Closed

text \<open>
  A provider is known by its capability's name. \<open>active\<close> is the counter of the wait group, \<open>p_closes\<close> the providers closed
  so far in the order of the calls.
\<close>

record prepared =
  entries :: "(string, snapshot) go_map"
  order :: "string list"
  phase :: close_phase
  active :: int
  leases :: "(nat, string \<times> bool) go_map"
  p_closes :: "string list"
  p_closeErr :: bool

definition empty_prepared :: prepared where
  "empty_prepared = \<lparr>entries = [], order = [], phase = Open, active = 0, leases = [], p_closes = [], p_closeErr = False\<rparr>"

text \<open>The rest of \<^verbatim>\<open>Close\<close> once the wait group has drained; \<open>bad\<close> says which provider fails or panics while it closes.\<close>

definition close_providers :: "(string \<Rightarrow> bool) \<Rightarrow> prepared \<Rightarrow> prepared" where
  "close_providers bad p = p\<lparr>phase := Closed, p_closes := p_closes p @ rev (order p), p_closeErr := list_ex bad (order p)\<rparr>"

text \<open>
  The answers to one name of the configuration: resolving its snapshot, what the factory returned, whether it failed or
  panicked, and whether the context had ended afterwards.
\<close>

record prepare_answer =
  a_resolve :: "snapshot result"
  a_provider :: bool
  a_failed :: bool
  a_ended :: bool

definition prepare_fail :: "(string \<Rightarrow> bool) \<Rightarrow> string \<Rightarrow> prepared \<Rightarrow> prepared \<times> string option" where
  "prepare_fail bad err p =
     (let q = close_providers bad p in (q, Some (if p_closeErr q then ''executor preparation and cleanup failed'' else err)))"

fun prepare_names :: "(string \<Rightarrow> prepare_answer) \<Rightarrow> (string \<Rightarrow> bool) \<Rightarrow> string list \<Rightarrow> prepared \<Rightarrow> prepared \<times> string option" where
  "prepare_names A bad [] p = (p, None)"
| "prepare_names A bad (name # names) p =
     (case a_resolve (A name) of
        Inl e \<Rightarrow> prepare_fail bad e p
      | Inr s \<Rightarrow>
          (let q = (if a_provider (A name) then p\<lparr>entries := AList.update name s (entries p), order := order p @ [name]\<rparr> else p) in
           if a_failed (A name) then prepare_fail bad ''executor preparation failed'' q
           else if \<not> a_provider (A name) then prepare_fail bad ''executor preparation returned no provider'' q
           else if a_ended (A name) then prepare_fail bad ''context ended'' q
           else prepare_names A bad names q))"

text \<open>\<open>kinds\<close> are the registered executor types, \<open>cfg\<close> the configured capabilities with theirs.\<close>

definition Prepare :: "string list \<Rightarrow> (string, string) go_map \<Rightarrow> bool \<Rightarrow> (string \<Rightarrow> prepare_answer) \<Rightarrow> (string \<Rightarrow> bool) \<Rightarrow> prepared \<times> string option" where
  "Prepare kinds cfg ended A bad =
     (let names = sort (map fst cfg) in
      if \<exists>name \<in> set names. case map_of cfg name of None \<Rightarrow> True | Some k \<Rightarrow> k \<notin> set kinds
      then (empty_prepared, Some ''executor provider is not available'')
      else if ended then (empty_prepared, Some ''context ended'')
      else prepare_names A bad names empty_prepared)"

definition NewRegistry :: "(string, bool) go_map \<Rightarrow> string list result" where
  "NewRegistry factories =
     (if \<exists>kf \<in> set factories. \<not> snd kf \<or> fst kf \<notin> {''db'', ''csv'', ''http'', ''file'', ''wasm''}
      then Inl ''invalid provider registration'' else Inr (map fst factories))"

definition Names :: "prepared \<Rightarrow> string list" where
  "Names p = (if phase p \<noteq> Open then [] else order p)"

definition Prepared_Snapshot :: "prepared \<Rightarrow> string \<Rightarrow> snapshot option" where
  "Prepared_Snapshot p name = (if phase p \<noteq> Open then None else map_of (entries p) name)"

definition Acquire :: "nat \<Rightarrow> string \<Rightarrow> prepared \<Rightarrow> prepared \<times> snapshot result" where
  "Acquire l name p =
     (if phase p \<noteq> Open then (p, Inl ''prepared execution is closed'')
      else case map_of (entries p) name of
        None \<Rightarrow> (p, Inl ''capability is not available'')
      | Some s \<Rightarrow> (p\<lparr>active := active p + 1, leases := AList.update l (name, False) (leases p)\<rparr>, Inr s))"

definition Lease_Release :: "nat \<Rightarrow> prepared \<Rightarrow> prepared" where
  "Lease_Release l p =
     (case map_of (leases p) l of
        Some (name, False) \<Rightarrow> p\<lparr>active := active p - 1, leases := AList.update l (name, True) (leases p)\<rparr>
      | _ \<Rightarrow> p)"

text \<open>\<^verbatim>\<open>Close\<close> up to its wait, and its end, which only happens when the wait group has drained.\<close>

definition Close_begin :: "prepared \<Rightarrow> prepared" where
  "Close_begin p = (if phase p = Open then p\<lparr>phase := Closing\<rparr> else p)"

definition Close_end :: "(string \<Rightarrow> bool) \<Rightarrow> prepared \<Rightarrow> prepared" where
  "Close_end bad p = (if phase p = Closing \<and> active p = 0 then close_providers bad p else p)"

section \<open>Outcomes\<close>

lemma Outcome_in [simp]: "Outcome e \<in> set outcomes"
  by (auto simp: outcomes_def Outcome_def split: list.splits)

lemma Outcome_committed: "Outcome e = ''committed'' \<longleftrightarrow> started e \<and> operations e \<noteq> [] \<and> (\<forall>s \<in> set (operations e). s = Committed)"
  by (cases "operations e") (auto simp: Outcome_def)

lemma Outcome_rolled_back: "Outcome e = ''rolled_back'' \<longleftrightarrow> started e \<and> operations e \<noteq> [] \<and> (\<forall>s \<in> set (operations e). s = Rolled_back)"
  by (cases "operations e") (auto simp: Outcome_def)

lemma finish_effect_length [simp]:
  "length (operations (finish_effect s i e)) = length (operations e)" "started (finish_effect s i e) = started e"
  by (simp_all add: finish_effect_def)

text \<open>Once an operation has been begun nothing takes back that the execution started.\<close>

lemma note_call_started:
  assumes "operations e \<noteq> [] \<longrightarrow> started e" "c = Call_begin \<longrightarrow> started e"
  shows "operations (note_call e c) \<noteq> [] \<longrightarrow> started (note_call e c)"
proof (cases c)
  case (Call_committed i)
  then show ?thesis using assms finish_effect_length(1) [of Committed i e] by (auto simp del: finish_effect_length(1))
next
  case (Call_rolled_back i)
  then show ?thesis using assms finish_effect_length(1) [of Rolled_back i e] by (auto simp del: finish_effect_length(1))
qed (use assms in \<open>auto simp: Effects_Start_def NoChange_def NotStarted_def Effects_Begin_def\<close>)

lemma announced_started:
  assumes "announced e cs" "operations e \<noteq> [] \<longrightarrow> started e"
  shows "operations (foldl note_call e cs) \<noteq> [] \<longrightarrow> started (foldl note_call e cs)"
  using assms
proof (induction cs arbitrary: e)
  case (Cons c cs)
  then show ?case using note_call_started [of e c] by simp
qed simp

text \<open>A provider that announces what it does is never said not to have started after it began an operation.\<close>

lemma not_started_no_operation:
  assumes "announced (Effects_Start no_effects) cs"
    "Outcome (foldl note_call (Effects_Start no_effects) cs) \<in> {''not_started'', ''no_change''}"
  shows "operations (foldl note_call (Effects_Start no_effects) cs) = []"
  using announced_started [OF assms(1)] assms(2)
  by (auto simp: Outcome_def Effects_Start_def no_effects_def split: list.splits if_splits)

section \<open>Preparation\<close>

lemma prepare_fail_closes:
  "prepare_fail bad err p = (q, r) \<Longrightarrow> phase q = Closed \<and> p_closes q = p_closes p @ rev (order q) \<and> order q = order p \<and> r \<noteq> None"
  by (auto simp: prepare_fail_def close_providers_def Let_def)

lemma prepare_names_error:
  assumes "prepare_names A bad names p = (q, Some e)" "p_closes p = []"
  shows "phase q = Closed \<and> p_closes q = rev (order q)"
  using assms
proof (induction A bad names p rule: prepare_names.induct)
  case (2 A bad name names p)
  then show ?case by (auto simp: Let_def split: sum.splits if_splits dest: prepare_fail_closes)
qed simp

lemma prepare_names_ok:
  assumes "prepare_names A bad names p = (q, None)"
  shows "order q = order p @ names \<and> fst ` set (entries q) = fst ` set (entries p) \<union> set names
    \<and> phase q = phase p \<and> active q = active p \<and> leases q = leases p \<and> p_closes q = p_closes p"
  using assms
proof (induction A bad names p rule: prepare_names.induct)
  case (2 A bad name names p)
  then show ?case
    by (auto simp: Let_def dom_update split: sum.splits if_splits dest: prepare_fail_closes)
qed simp

lemma Prepare_error: "Prepare kinds cfg ended A bad = (q, Some e) \<Longrightarrow> p_closes q = rev (order q)"
  using prepare_names_error [of A bad "sort (map fst cfg)" empty_prepared]
  by (auto simp: Prepare_def Let_def empty_prepared_def split: if_splits)

lemma Prepare_ok:
  assumes "Prepare kinds cfg ended A bad = (q, None)"
  shows "order q = sort (map fst cfg) \<and> fst ` set (entries q) = set (order q)
    \<and> phase q = Open \<and> active q = 0 \<and> leases q = [] \<and> p_closes q = []"
  using assms prepare_names_ok [of A bad "sort (map fst cfg)" empty_prepared q]
  by (auto simp: Prepare_def Let_def empty_prepared_def split: if_splits)

section \<open>Leases\<close>

definition lease_held :: "string \<times> bool \<Rightarrow> int" where
  "lease_held x = (if snd x then 0 else 1)"

definition prepared_ok :: "prepared \<Rightarrow> bool" where
  "prepared_ok p \<longleftrightarrow> distinct_keys (leases p) \<and> active p = total_of lease_held (leases p) \<and> distinct (order p)
     \<and> p_closes p = (if phase p = Closed then rev (order p) else []) \<and> (phase p = Closed \<longrightarrow> active p = 0)"

datatype lease_event = Ev_acquire nat string | Ev_release nat | Ev_close | Ev_drained "string list"

text \<open>A lease is a new object, so its identity has not been used before.\<close>

fun lease_step :: "prepared \<Rightarrow> lease_event \<Rightarrow> prepared" where
  "lease_step p (Ev_acquire l name) = (if map_of (leases p) l = None then fst (Acquire l name p) else p)"
| "lease_step p (Ev_release l) = Lease_Release l p"
| "lease_step p Ev_close = Close_begin p"
| "lease_step p (Ev_drained bad) = Close_end (\<lambda>name. name \<in> set bad) p"

lemma held_nonneg: "distinct_keys m \<Longrightarrow> 0 \<le> total_of lease_held m"
  by (rule total_nonneg) (auto simp: lease_held_def)

lemma Acquire_ok: "prepared_ok p \<Longrightarrow> map_of (leases p) l = None \<Longrightarrow> prepared_ok (fst (Acquire l name p))"
  by (auto simp: prepared_ok_def Acquire_def total_update_new lease_held_def distinct_keys_def distinct_update split: option.splits)

lemma Lease_Release_ok: "prepared_ok p \<Longrightarrow> prepared_ok (Lease_Release l p)"
  using held_nonneg [of "leases (Lease_Release l p)"]
  by (auto simp: prepared_ok_def Lease_Release_def total_update lease_held_def distinct_keys_def distinct_update split: option.splits bool.splits)

lemma lease_step_ok: "prepared_ok p \<Longrightarrow> prepared_ok (lease_step p e)"
  by (cases e) (auto simp: Acquire_ok Lease_Release_ok, auto simp: prepared_ok_def Close_begin_def Close_end_def close_providers_def)

definition just_prepared :: "prepared \<Rightarrow> bool" where
  "just_prepared p \<longleftrightarrow> phase p = Open \<and> active p = 0 \<and> leases p = [] \<and> p_closes p = [] \<and> distinct (order p)"

lemma Prepare_just_prepared:
  "Prepare kinds cfg ended A bad = (p, None) \<Longrightarrow> distinct_keys cfg \<Longrightarrow> just_prepared p"
  using Prepare_ok [of kinds cfg ended A bad p] by (simp add: just_prepared_def distinct_keys_def)

interpretation provider_leases: component just_prepared lease_step prepared_ok
  by unfold_locales (simp add: just_prepared_def prepared_ok_def distinct_keys_def, rule lease_step_ok)

end
