(* ===== verification/Sql_Syntax.thy ===== *)
theory Sql_Syntax
  imports Go_Lib
begin

text \<open>
  The driver-aware reading of SQL text (\<^verbatim>\<open>src/internal/sqlsyntax/sql.go\<close>) and the replacement of named
  parameters by the driver's placeholders (\<^verbatim>\<open>src/internal/agent/sql.go\<close>). Positions are indices into the
  query, as in the source; every loop is a recursion on the distance to the end of the text.
\<close>

section \<open>Protected regions\<close>

definition isIdent :: "char \<Rightarrow> bool" where
  "isIdent c \<longleftrightarrow> c = CHR ''_'' \<or> (97 \<le> byte c \<and> byte c \<le> 122) \<or> (65 \<le> byte c \<and> byte c \<le> 90)"

definition isDigit :: "char \<Rightarrow> bool" where
  "isDigit c \<longleftrightarrow> 48 \<le> byte c \<and> byte c \<le> 57"

definition word_char :: "char \<Rightarrow> bool" where
  "word_char c \<longleftrightarrow> isIdent c \<or> isDigit c"

definition quote_char :: char where "quote_char = CHR 0x27"
definition backslash :: char where "backslash = CHR 0x5C"
definition newline :: char where "newline = CHR 0x0A"

text \<open>\<^verbatim>\<open>query[i:i+2] == s\<close> where the source has tested that two bytes are left.\<close>

definition pair_at :: "string \<Rightarrow> nat \<Rightarrow> string \<Rightarrow> bool" where
  "pair_at q i s \<longleftrightarrow> i + 1 < length q \<and> [q ! i, q ! (i + 1)] = s"

function quoted_loop :: "string \<Rightarrow> char \<Rightarrow> bool \<Rightarrow> nat \<Rightarrow> nat" where
  "quoted_loop q quote esc i =
     (if i < length q then
        (if esc \<and> q ! i = backslash \<and> i + 1 < length q then quoted_loop q quote esc (i + 2)
         else if q ! i \<noteq> quote then quoted_loop q quote esc (i + 1)
         else if i + 1 < length q \<and> q ! (i + 1) = quote then quoted_loop q quote esc (i + 2)
         else i + 1)
      else length q)"
  by auto
termination by (relation "measure (\<lambda>(q, _, _, i). length q - i)") auto

definition skipSQLQuoted :: "string \<Rightarrow> nat \<Rightarrow> char \<Rightarrow> bool \<Rightarrow> nat" where
  "skipSQLQuoted q start quote esc = quoted_loop q quote esc (start + 1)"

definition isPostgresEscapeStringPrefix :: "string \<Rightarrow> nat \<Rightarrow> bool" where
  "isPostgresEscapeStringPrefix q quote =
     (if quote = 0 \<or> (q ! (quote - 1) \<noteq> CHR ''e'' \<and> q ! (quote - 1) \<noteq> CHR ''E'') then False
      else quote = 1 \<or> \<not> isIdent (q ! (quote - 2)))"

text \<open>The loop over a bracketed identifier is the one over a quoted one, closed by a bracket.\<close>

definition skipSQLBracketIdentifier :: "string \<Rightarrow> nat \<Rightarrow> nat" where
  "skipSQLBracketIdentifier q start = quoted_loop q (CHR '']'') False (start + 1)"

definition isOracleAlternativeQuotePrefix :: "string \<Rightarrow> nat \<Rightarrow> bool" where
  "isOracleAlternativeQuotePrefix q quote =
     (if quote + 2 \<ge> length q \<or> (q ! quote \<noteq> CHR ''q'' \<and> q ! quote \<noteq> CHR ''Q'')
         \<or> q ! (quote + 1) \<noteq> quote_char then False
      else quote = 0 \<or> \<not> isIdent (q ! (quote - 1)))"

function alternative_loop :: "string \<Rightarrow> char \<Rightarrow> nat \<Rightarrow> nat" where
  "alternative_loop q closing i =
     (if i + 1 < length q then
        (if q ! i = closing \<and> q ! (i + 1) = quote_char then i + 2 else alternative_loop q closing (i + 1))
      else length q)"
  by auto
termination by (relation "measure (\<lambda>(q, _, i). length q - i)") auto

definition skipOracleAlternativeQuote :: "string \<Rightarrow> nat \<Rightarrow> nat" where
  "skipOracleAlternativeQuote q start =
     (let opening = q ! (start + 2);
          closing = (if opening = CHR ''['' then CHR '']''
                     else if opening = CHR ''('' then CHR '')''
                     else if opening = CHR ''{'' then CHR ''}''
                     else if opening = CHR ''<'' then CHR ''>'' else opening) in
      alternative_loop q closing (start + 3))"

text \<open>\<^verbatim>\<open>strings.IndexByte\<close> and \<^verbatim>\<open>strings.Index\<close>; \<open>None\<close> is -1.\<close>

fun index_byte :: "char \<Rightarrow> string \<Rightarrow> nat option" where
  "index_byte c [] = None"
| "index_byte c (d # s) = (if d = c then Some 0 else map_option Suc (index_byte c s))"

fun index_of :: "string \<Rightarrow> string \<Rightarrow> nat option" where
  "index_of t [] = (if t = [] then Some 0 else None)"
| "index_of t (c # s) =
     (if take (length t) (c # s) = t then Some 0 else map_option Suc (index_of t s))"

definition skipSQLLineComment :: "string \<Rightarrow> nat \<Rightarrow> nat" where
  "skipSQLLineComment q start =
     (case index_byte newline (drop (start + 2) q) of
        Some e \<Rightarrow> start + 2 + e + 1
      | None \<Rightarrow> length q)"

function block_loop :: "bool \<Rightarrow> string \<Rightarrow> nat \<Rightarrow> nat \<Rightarrow> nat" where
  "block_loop nested q i depth =
     (if i + 1 < length q then
        (if pair_at q i ''/*'' \<and> nested then block_loop nested q (i + 2) (depth + 1)
         else if pair_at q i ''*/'' then
           (if depth - 1 = 0 then i + 2 else block_loop nested q (i + 2) (depth - 1))
         else block_loop nested q (i + 1) depth)
      else length q)"
  by auto
termination by (relation "measure (\<lambda>(_, q, i, _). length q - i)") auto

definition skipSQLBlockComment :: "string \<Rightarrow> string \<Rightarrow> nat \<Rightarrow> nat" where
  "skipSQLBlockComment driver q start =
     block_loop (driver = ''postgres'' \<or> driver = ''sqlserver'') q (start + 2) 1"

definition skipSQLDollarQuote :: "string \<Rightarrow> nat \<Rightarrow> nat option" where
  "skipSQLDollarQuote q start =
     (let endTag = start + 1 + length (takeWhile word_char (drop (start + 1) q)) in
      if endTag \<ge> length q \<or> q ! endTag \<noteq> CHR ''$'' then None
      else
        (let tag = take (endTag + 1 - start) (drop start q) in
         case index_of tag (drop (endTag + 1) q) of
           None \<Rightarrow> Some (length q)
         | Some e \<Rightarrow> Some (endTag + 1 + e + length tag)))"

text \<open>\<^verbatim>\<open>ProtectedRegionEnd\<close>; \<open>None\<close> is its \<open>false\<close>.\<close>

definition ProtectedRegionEnd :: "string \<Rightarrow> string \<Rightarrow> nat \<Rightarrow> nat option" where
  "ProtectedRegionEnd driver q start =
     (if q ! start = quote_char then
        Some (skipSQLQuoted q start quote_char (driver = ''postgres'' \<and> isPostgresEscapeStringPrefix q start))
      else if q ! start = CHR 0x22 then Some (skipSQLQuoted q start (CHR 0x22) False)
      else if driver = ''mysql'' \<and> q ! start = CHR 0x60 then Some (skipSQLQuoted q start (CHR 0x60) False)
      else if driver = ''sqlserver'' \<and> q ! start = CHR ''['' then Some (skipSQLBracketIdentifier q start)
      else if driver = ''oracle'' \<and> isOracleAlternativeQuotePrefix q start then
        Some (skipOracleAlternativeQuote q start)
      else if pair_at q start ''--'' then Some (skipSQLLineComment q start)
      else if pair_at q start ''/*'' then Some (skipSQLBlockComment driver q start)
      else if driver = ''postgres'' \<and> q ! start = CHR ''$'' then skipSQLDollarQuote q start
      else None)"

declare quoted_loop.simps [simp del] alternative_loop.simps [simp del] block_loop.simps [simp del]

section \<open>Regions make progress\<close>

lemma quoted_loop_bounds: "i \<le> length q \<Longrightarrow> i \<le> quoted_loop q c e i \<and> quoted_loop q c e i \<le> length q"
proof (induction q c e i rule: quoted_loop.induct)
  case (1 q c e i)
  then show ?case by (subst (1 2) quoted_loop.simps) (auto simp: Suc_le_eq)
qed

lemma alternative_loop_bounds:
  "i \<le> length q \<Longrightarrow> i \<le> alternative_loop q c i \<and> alternative_loop q c i \<le> length q"
proof (induction q c i rule: alternative_loop.induct)
  case (1 q c i)
  then show ?case by (subst (1 2) alternative_loop.simps) auto
qed

lemma block_loop_bounds: "i \<le> length q \<Longrightarrow> i \<le> block_loop b q i d \<and> block_loop b q i d \<le> length q"
proof (induction b q i d rule: block_loop.induct)
  case (1 b q i d)
  then show ?case by (subst (1 2) block_loop.simps) auto
qed

lemma index_byte_less: "index_byte c s = Some n \<Longrightarrow> n < length s"
  by (induction s arbitrary: n) (auto split: if_splits)

lemma index_of_le: "index_of t s = Some n \<Longrightarrow> n + length t \<le> length s"
proof (induction s arbitrary: n)
  case (Cons c s)
  have "length (take (length t) (c # s)) = min (length t) (Suc (length s))" by simp
  with Cons show ?case by (auto split: if_splits simp: min_def)
qed (simp split: if_splits)

lemma skipSQLDollarQuote_bounds:
  "skipSQLDollarQuote q i = Some n \<Longrightarrow> i < length q \<Longrightarrow> i < n \<and> n \<le> length q"
  by (auto simp: skipSQLDollarQuote_def Let_def split: if_splits option.splits dest!: index_of_le)

lemma region_bounds:
  assumes "ProtectedRegionEnd d q i = Some n" "i < length q"
  shows "i < n" "n \<le> length q"
proof -
  have "i < skipSQLQuoted q i c e \<and> skipSQLQuoted q i c e \<le> length q"
    "i < skipSQLBracketIdentifier q i \<and> skipSQLBracketIdentifier q i \<le> length q" for c e
    using quoted_loop_bounds [of "i + 1" q] assms(2)
    by (auto simp: skipSQLQuoted_def skipSQLBracketIdentifier_def Suc_le_eq)
  moreover have "i < skipOracleAlternativeQuote q i \<and> skipOracleAlternativeQuote q i \<le> length q"
    if "isOracleAlternativeQuotePrefix q i"
  proof -
    have len: "i + 3 \<le> length q" using that by (simp add: isOracleAlternativeQuotePrefix_def split: if_splits)
    obtain c where "skipOracleAlternativeQuote q i = alternative_loop q c (i + 3)"
      by (simp add: skipOracleAlternativeQuote_def Let_def)
    then show ?thesis using alternative_loop_bounds [OF len, of c] by simp
  qed
  moreover have "i < skipSQLLineComment q i \<and> skipSQLLineComment q i \<le> length q" if "pair_at q i p" for p
    using that by (auto simp: skipSQLLineComment_def pair_at_def split: option.split dest: index_byte_less)
  moreover have "i < skipSQLBlockComment d q i \<and> skipSQLBlockComment d q i \<le> length q" if "pair_at q i p" for p
  proof -
    have "i + 2 \<le> length q" using that by (simp add: pair_at_def)
    then show ?thesis using block_loop_bounds [of "i + 2" q "d = ''postgres'' \<or> d = ''sqlserver''" 1]
      by (simp add: skipSQLBlockComment_def)
  qed
  ultimately have "i < n \<and> n \<le> length q"
    using assms skipSQLDollarQuote_bounds [of q i n]
    by (auto simp: ProtectedRegionEnd_def split: if_splits)
  then show "i < n" "n \<le> length q" by auto
qed

section \<open>Parameters, tokens and statements\<close>

definition ParameterName :: "string \<Rightarrow> string \<times> nat" where
  "ParameterName s =
     (case s of
        [] \<Rightarrow> ([], 0)
      | c # t \<Rightarrow> if \<not> isIdent c then ([], 0)
                  else (let i = 1 + length (takeWhile word_char t) in (take i s, i)))"

lemma ParameterName_le: "snd (ParameterName s) \<le> length s"
  by (auto simp: ParameterName_def Let_def length_takeWhile_le split: list.splits)

function params_loop :: "string \<Rightarrow> string \<Rightarrow> nat \<Rightarrow> string list" where
  "params_loop d q i =
     (if i < length q then
        (case ProtectedRegionEnd d q i of
           Some n \<Rightarrow> params_loop d q n
         | None \<Rightarrow>
             if q ! i = CHR '':'' then
               (if i + 1 < length q \<and> q ! (i + 1) = CHR '':'' then params_loop d q (i + 2)
                else (case ParameterName (drop (i + 1) q) of
                  (name, n) \<Rightarrow> if n > 0 then name # params_loop d q (i + n + 1) else params_loop d q (i + 1)))
             else params_loop d q (i + 1))
      else [])"
  by auto
termination
  by (relation "measure (\<lambda>(_, q, i). length q - i)") (auto dest: region_bounds)

definition Parameters :: "string \<Rightarrow> string \<Rightarrow> string list" where
  "Parameters driver q = params_loop driver q 0"

definition blank :: "char \<Rightarrow> bool" where
  "blank c \<longleftrightarrow> c = CHR '' '' \<or> byte c = 9 \<or> byte c = 13 \<or> byte c = 10"

lemma comment_bounds:
  assumes "pair_at q i p"
  shows "i < skipSQLLineComment q i" "i < skipSQLBlockComment d q i"
  using assms block_loop_bounds [of "i + 2" q "d = ''postgres'' \<or> d = ''sqlserver''" 1]
  by (auto simp: pair_at_def skipSQLLineComment_def skipSQLBlockComment_def split: option.split)

function trivia_loop :: "string \<Rightarrow> string \<Rightarrow> nat \<Rightarrow> bool" where
  "trivia_loop d q i =
     (if i < length q then
        (if blank (q ! i) then trivia_loop d q (i + 1)
         else if pair_at q i ''--'' then trivia_loop d q (skipSQLLineComment q i)
         else if pair_at q i ''/*'' then trivia_loop d q (skipSQLBlockComment d q i)
         else False)
      else True)"
  by auto
termination
proof (relation "measure (\<lambda>(_, q, i). length q - i)", goal_cases)
  case (3 d q i)
  then show ?case using comment_bounds(1) [of q i "''--''"] by auto
next
  case (4 d q i)
  then show ?case using comment_bounds(2) [of q i "''/*''" d] by auto
qed auto

definition onlySQLTrivia :: "string \<Rightarrow> string \<Rightarrow> bool" where
  "onlySQLTrivia driver q = trivia_loop driver q 0"

definition to_lower :: "string \<Rightarrow> string" where
  "to_lower s = map (\<lambda>c. if 65 \<le> byte c \<and> byte c \<le> 90 then char_of (byte c + 32) else c) s"

function scan_loop :: "string \<Rightarrow> string \<Rightarrow> nat \<Rightarrow> string list \<times> bool" where
  "scan_loop d q i =
     (if i < length q then
        (case ProtectedRegionEnd d q i of
           Some n \<Rightarrow> scan_loop d q n
         | None \<Rightarrow>
             if q ! i = CHR '';'' then
               (case scan_loop d q (i + 1) of
                  (tokens, single) \<Rightarrow> (tokens, onlySQLTrivia d (drop (i + 1) q) \<and> single))
             else if isIdent (q ! i) then
               (let n = length (takeWhile word_char (drop i q)) in
                case scan_loop d q (i + max 1 n) of
                  (tokens, single) \<Rightarrow> (to_lower (take n (drop i q)) # tokens, single))
             else scan_loop d q (i + 1))
      else ([], True))"
  by auto
termination
  by (relation "measure (\<lambda>(_, q, i). length q - i)") (auto dest: region_bounds)

definition scanSQLTokens :: "string \<Rightarrow> string \<Rightarrow> string list \<times> bool" where
  "scanSQLTokens driver q = scan_loop driver q 0"

datatype Operation = NoOperation | Select | Insert | Update | Delete

definition Mutation :: "Operation \<Rightarrow> bool" where
  "Mutation o' \<longleftrightarrow> o' \<noteq> NoOperation \<and> o' \<noteq> Select"

record Classification =
  Keyword :: string
  Operation :: Operation
  Single :: bool
  ReturnsRows :: bool

definition Classify :: "string \<Rightarrow> string \<Rightarrow> Classification" where
  "Classify driver q =
     (case scanSQLTokens driver q of
        (tokens, single) \<Rightarrow>
          (case tokens of
             [] \<Rightarrow> \<lparr>Keyword = [], Operation = NoOperation, Single = single, ReturnsRows = False\<rparr>
           | k # rest \<Rightarrow>
               (let o' = (if k = ''select'' then Select else if k = ''insert'' then Insert
                          else if k = ''update'' then Update else if k = ''delete'' then Delete
                          else NoOperation) in
                \<lparr>Keyword = k, Operation = o', Single = single,
                 ReturnsRows = (Mutation o' \<and>
                   list_ex (\<lambda>t. t = ''returning'' \<or> driver = ''sqlserver'' \<and> t = ''output'') rest)\<rparr>)))"

function single_loop :: "string \<Rightarrow> string \<Rightarrow> nat \<Rightarrow> bool" where
  "single_loop d q i =
     (if i < length q then
        (case ProtectedRegionEnd d q i of
           Some n \<Rightarrow> single_loop d q n
         | None \<Rightarrow> if q ! i = CHR '';'' then onlySQLTrivia d (drop (i + 1) q) else single_loop d q (i + 1))
      else True)"
  by auto
termination
  by (relation "measure (\<lambda>(_, q, i). length q - i)") (auto dest: region_bounds)

definition hasSingleSQLStatement :: "string \<Rightarrow> string \<Rightarrow> bool" where
  "hasSingleSQLStatement driver q = single_loop driver q 0"

section \<open>Binding parameters\<close>

datatype sql_error = Sql_empty | Missing_param string

fun decimal :: "nat \<Rightarrow> string" where
  "decimal n = (if n < 10 then [char_of (48 + n)] else decimal (n div 10) @ [char_of (48 + n mod 10)])"

declare decimal.simps [simp del]

definition placeholder :: "string \<Rightarrow> nat \<Rightarrow> string" where
  "placeholder driver idx =
     (if driver = ''postgres'' then CHR ''$'' # decimal idx
      else if driver = ''sqlserver'' then ''@p'' @ decimal idx
      else if driver = ''oracle'' then CHR '':'' # decimal idx
      else ''?'')"

text \<open>The loop of \<^verbatim>\<open>buildSQL\<close>: \<open>k\<close> is the number of arguments so far.\<close>

function build_loop :: "string \<Rightarrow> string \<Rightarrow> (string \<rightharpoonup> 'v) \<Rightarrow> nat \<Rightarrow> nat \<Rightarrow> string \<Rightarrow> 'v list
    \<Rightarrow> sql_error + (string \<times> 'v list)" where
  "build_loop d q params p k out args =
     (if p < length q then
        (case ProtectedRegionEnd d q p of
           Some n \<Rightarrow> build_loop d q params n k (out @ take (n - p) (drop p q)) args
         | None \<Rightarrow>
             if q ! p = CHR '':'' \<and> p + 1 < length q \<and> q ! (p + 1) = CHR '':'' then
               build_loop d q params (p + 2) k (out @ ''::'') args
             else if q ! p = CHR '':'' \<and> snd (ParameterName (drop (p + 1) q)) > 0 then
               (case ParameterName (drop (p + 1) q) of
                  (name, n) \<Rightarrow>
                    (case params name of
                       None \<Rightarrow> Inl (Missing_param name)
                     | Some v \<Rightarrow>
                         build_loop d q params (p + 1 + n) (k + 1) (out @ placeholder d (k + 1)) (args @ [v])))
             else build_loop d q params (p + 1) k (out @ [q ! p]) args)
      else Inr (out, args))"
  by auto
termination
  by (relation "measure (\<lambda>(_, q, _, p, _). length q - p)") (auto dest: region_bounds)

definition buildSQL :: "string \<Rightarrow> string \<Rightarrow> (string \<rightharpoonup> 'v) \<Rightarrow> sql_error + (string \<times> 'v list)" where
  "buildSQL driver q params =
     (if q = [] then Inl Sql_empty else build_loop driver q params 0 0 [] [])"

definition buildExplainSQL :: "string \<Rightarrow> string \<Rightarrow> string option" where
  "buildExplainSQL driver q =
     (if driver = ''postgres'' \<or> driver = ''mysql'' then Some (''EXPLAIN '' @ q)
      else if driver = ''oracle'' then Some (''EXPLAIN PLAN FOR '' @ q)
      else None)"

declare params_loop.simps [simp del] trivia_loop.simps [simp del] scan_loop.simps [simp del]
  single_loop.simps [simp del] build_loop.simps [simp del]

section \<open>A query as literal text and bindings\<close>

text \<open>The abstract reading of a query: stretches of text that are kept, and the named bindings.\<close>

datatype segment = Lit string | Bind string

function segments_from :: "string \<Rightarrow> string \<Rightarrow> nat \<Rightarrow> segment list" where
  "segments_from d q i =
     (if i < length q then
        (case ProtectedRegionEnd d q i of
           Some n \<Rightarrow> Lit (take (n - i) (drop i q)) # segments_from d q n
         | None \<Rightarrow>
             if q ! i = CHR '':'' \<and> i + 1 < length q \<and> q ! (i + 1) = CHR '':'' then
               Lit ''::'' # segments_from d q (i + 2)
             else if q ! i = CHR '':'' \<and> snd (ParameterName (drop (i + 1) q)) > 0 then
               Bind (fst (ParameterName (drop (i + 1) q)))
                 # segments_from d q (i + 1 + snd (ParameterName (drop (i + 1) q)))
             else Lit [q ! i] # segments_from d q (i + 1))
      else [])"
  by auto
termination
  by (relation "measure (\<lambda>(_, q, i). length q - i)") (auto dest: region_bounds)

declare segments_from.simps [simp del]

definition sql_segments :: "string \<Rightarrow> string \<Rightarrow> segment list" where
  "sql_segments d q = segments_from d q 0"

fun segment_text :: "segment \<Rightarrow> string" where
  "segment_text (Lit s) = s"
| "segment_text (Bind n) = CHR '':'' # n"

fun bindings :: "segment list \<Rightarrow> string list" where
  "bindings [] = []"
| "bindings (Lit s # xs) = bindings xs"
| "bindings (Bind n # xs) = n # bindings xs"

text \<open>The text sent to the driver: literals verbatim, the \<open>k\<close>-th binding as the \<open>k\<close>-th placeholder.\<close>

fun render :: "string \<Rightarrow> nat \<Rightarrow> segment list \<Rightarrow> string" where
  "render d k [] = []"
| "render d k (Lit s # xs) = s @ render d k xs"
| "render d k (Bind n # xs) = placeholder d (k + 1) @ render d (k + 1) xs"

lemma ParameterName_take: "ParameterName s = (take (snd (ParameterName s)) s, snd (ParameterName s))"
  by (auto simp: ParameterName_def Let_def split: list.splits)

lemma segments_text: "concat (map segment_text (segments_from d q i)) = drop i q"
proof (induction d q i rule: segments_from.induct)
  case (1 d q i)
  show ?case
  proof (cases "i < length q")
    case True
    then have c: "drop i q = q ! i # drop (i + 1) q" by (simp add: Cons_nth_drop_Suc)
    show ?thesis
    proof (cases "ProtectedRegionEnd d q i")
      case (Some n)
      have "drop i q = take (n - i) (drop i q) @ drop n q"
        using region_bounds [OF Some True]
        by (metis append_take_drop_id drop_drop le_add_diff_inverse2 less_imp_le_nat)
      then show ?thesis using 1(4) [OF True Some] True Some by (subst segments_from.simps) simp
    next
      case None
      consider (cast) "q ! i = CHR '':'' \<and> i + 1 < length q \<and> q ! (i + 1) = CHR '':''"
        | (bind) "\<not> (q ! i = CHR '':'' \<and> i + 1 < length q \<and> q ! (i + 1) = CHR '':'')"
            "q ! i = CHR '':'' \<and> snd (ParameterName (drop (i + 1) q)) > 0"
        | (other) "\<not> (q ! i = CHR '':'' \<and> i + 1 < length q \<and> q ! (i + 1) = CHR '':'')"
            "\<not> (q ! i = CHR '':'' \<and> snd (ParameterName (drop (i + 1) q)) > 0)" by blast
      then show ?thesis
      proof cases
        case cast
        then have "drop (i + 1) q = q ! (i + 1) # drop (i + 2) q"
          using Cons_nth_drop_Suc [of "i + 1" q] by simp
        then show ?thesis using c 1(1) [OF True None cast] True None cast
          by (subst segments_from.simps) simp
      next
        case bind
        define n where "n = snd (ParameterName (drop (i + 1) q))"
        have "fst (ParameterName (drop (i + 1) q)) @ drop (i + 1 + n) q = drop (i + 1) q"
          using ParameterName_take [of "drop (i + 1) q"] unfolding n_def
          by (metis add.commute append_take_drop_id drop_drop fst_conv)
        then show ?thesis using c 1(2) [OF True None bind] True None bind
          by (subst segments_from.simps) (auto simp: n_def)
      next
        case other
        show ?thesis using c 1(3) [OF True None other] True None other
          by (subst segments_from.simps) auto
      qed
    qed
  next
    case False
    then show ?thesis by (subst segments_from.simps) simp
  qed
qed

lemma params_are_bindings: "params_loop d q i = bindings (segments_from d q i)"
proof (induction d q i rule: params_loop.induct)
  case (1 d q i)
  show ?case
    using 1 by (subst params_loop.simps, subst segments_from.simps)
      (auto split: option.split prod.split simp: add.commute)
qed

text \<open>The result of the loop, given what is left of the query as segments.\<close>

definition bound_result :: "string \<Rightarrow> (string \<rightharpoonup> 'v) \<Rightarrow> nat \<Rightarrow> string \<Rightarrow> 'v list \<Rightarrow> segment list
    \<Rightarrow> sql_error + (string \<times> 'v list)" where
  "bound_result d params k out args segs =
     (case find (\<lambda>n. params n = None) (bindings segs) of
        Some n \<Rightarrow> Inl (Missing_param n)
      | None \<Rightarrow> Inr (out @ render d k segs, args @ map (\<lambda>n. the (params n)) (bindings segs)))"

lemma bound_result_simps:
  "bound_result d params k out args [] = Inr (out, args)"
  "bound_result d params k out args (Lit s # xs) = bound_result d params k (out @ s) args xs"
  "bound_result d params k out args (Bind n # xs) =
     (case params n of
        None \<Rightarrow> Inl (Missing_param n)
      | Some v \<Rightarrow> bound_result d params (k + 1) (out @ placeholder d (k + 1)) (args @ [v]) xs)"
  by (auto simp: bound_result_def split: option.split)

lemma build_loop_spec:
  "build_loop d q params p k out args = bound_result d params k out args (segments_from d q p)"
proof (induction d q params p k out args rule: build_loop.induct)
  case (1 d q params p k out args)
  obtain name n where pn: "ParameterName (drop (p + 1) q) = (name, n)" by force
  show ?case
    unfolding build_loop.simps [of d q params p k out args] segments_from.simps [of d q p] pn
    using 1 pn by (auto simp: bound_result_simps split: option.split)
qed

section \<open>One statement\<close>

text \<open>
  Outside Oracle no protected region starts inside a word, so scanning word by word and scanning byte
  by byte agree. Oracle's alternative quotes start with a letter, and the test for it looks at one
  byte before only.
\<close>

lemma word_char_plain:
  "word_char c \<Longrightarrow> c \<noteq> quote_char \<and> c \<noteq> CHR 0x22 \<and> c \<noteq> CHR 0x60 \<and> c \<noteq> CHR ''['' \<and> c \<noteq> CHR ''-''
     \<and> c \<noteq> CHR ''/'' \<and> c \<noteq> CHR ''$'' \<and> c \<noteq> CHR '';''"
  by (auto simp: word_char_def isIdent_def isDigit_def quote_char_def byte_def)

lemma no_region_in_word: "d \<noteq> ''oracle'' \<Longrightarrow> word_char (q ! i) \<Longrightarrow> ProtectedRegionEnd d q i = None"
  using word_char_plain [of "q ! i"] by (auto simp: ProtectedRegionEnd_def pair_at_def)

lemma single_loop_word:
  assumes "d \<noteq> ''oracle''" "list_all word_char (take n (drop i q))" "i + n \<le> length q"
  shows "single_loop d q i = single_loop d q (i + n)"
  using assms
proof (induction n arbitrary: i)
  case 0
  then show ?case by simp
next
  case (Suc n)
  have i: "i < length q" using Suc.prems by simp
  then have "drop i q = q ! i # drop (Suc i) q" by (simp add: Cons_nth_drop_Suc)
  then have w: "word_char (q ! i)" "list_all word_char (take n (drop (Suc i) q))" using Suc.prems by simp_all
  have "single_loop d q i = single_loop d q (Suc i)"
    using i no_region_in_word [OF Suc.prems(1) w(1)] word_char_plain [OF w(1)]
    by (subst single_loop.simps) simp
  also have "\<dots> = single_loop d q (Suc i + n)" using Suc w(2) by (intro Suc.IH) auto
  finally show ?case by simp
qed

text \<open>The loops read the text to the right of their position only.\<close>

lemma line_comment_shift:
  "k \<le> length q \<Longrightarrow> skipSQLLineComment (drop k q) i + k = skipSQLLineComment q (i + k)"
  by (auto simp: skipSQLLineComment_def add.commute add.left_commute split: option.split)

lemma pair_at_shift: "pair_at (drop k q) i s = pair_at q (i + k) s"
  by (auto simp: pair_at_def add.commute add.left_commute)

lemma block_loop_shift:
  "k \<le> length q \<Longrightarrow> block_loop b (drop k q) i n + k = block_loop b q (i + k) n"
proof (induction b q "i + k" n arbitrary: i rule: block_loop.induct)
  case (1 b q n)
  have l: "(i + 1 < length (drop k q)) = (i + k + 1 < length q)" using "1.prems" by auto
  show ?case
    unfolding block_loop.simps [of b "drop k q" i n] block_loop.simps [of b q "i + k" n] l pair_at_shift
    using 1 by (auto simp: add.commute add.left_commute)
qed

lemma block_comment_shift:
  "k \<le> length q \<Longrightarrow> skipSQLBlockComment d (drop k q) i + k = skipSQLBlockComment d q (i + k)"
  using block_loop_shift [of k q _ "i + 2"] by (simp add: skipSQLBlockComment_def)

lemma trivia_shift:
  "k \<le> length q \<Longrightarrow> trivia_loop d (drop k q) i = trivia_loop d q (i + k)"
proof (induction d q "i + k" arbitrary: i rule: trivia_loop.induct)
  case (1 d q)
  have l: "(i < length (drop k q)) = (i + k < length q)" using "1.prems" by auto
  show ?case
    unfolding trivia_loop.simps [of d "drop k q" i] trivia_loop.simps [of d q "i + k"] l pair_at_shift
    using 1 line_comment_shift [of k q i] block_comment_shift [of k q d i]
    by (auto simp: add.commute)
qed

text \<open>Trivia holds no statement separator, whatever the driver.\<close>

lemma blank_plain: "blank c \<Longrightarrow> c \<noteq> quote_char \<and> c \<noteq> CHR 0x22 \<and> c \<noteq> CHR 0x60 \<and> c \<noteq> CHR ''['' \<and> c \<noteq> CHR ''-''
     \<and> c \<noteq> CHR ''/'' \<and> c \<noteq> CHR ''$'' \<and> c \<noteq> CHR '';'' \<and> c \<noteq> CHR ''q'' \<and> c \<noteq> CHR ''Q'' \<and> \<not> isIdent c"
  by (auto simp: blank_def isIdent_def quote_char_def byte_def)

lemma region_of_comment:
  "pair_at q i ''--'' \<Longrightarrow> ProtectedRegionEnd d q i = Some (skipSQLLineComment q i)"
  "pair_at q i ''/*'' \<Longrightarrow> ProtectedRegionEnd d q i = Some (skipSQLBlockComment d q i)"
  by (auto simp: ProtectedRegionEnd_def pair_at_def quote_char_def isOracleAlternativeQuotePrefix_def)

lemma trivia_is_single: "trivia_loop d q i \<Longrightarrow> snd (scan_loop d q i)"
proof (induction d q i rule: trivia_loop.induct)
  case (1 d q i)
  show ?case
  proof (cases "i < length q")
    case True
    show ?thesis
    proof (cases "blank (q ! i)")
      case b: True
      have "ProtectedRegionEnd d q i = None"
        using blank_plain [OF b]
        by (auto simp: ProtectedRegionEnd_def pair_at_def isOracleAlternativeQuotePrefix_def)
      moreover have "trivia_loop d q (i + 1)" using "1.prems" True b by (subst (asm) trivia_loop.simps) simp
      ultimately show ?thesis using 1(1) [OF True b] True blank_plain [OF b] by (subst scan_loop.simps) simp
    next
      case False
      then consider "pair_at q i ''--''" "trivia_loop d q (skipSQLLineComment q i)"
        | "\<not> pair_at q i ''--''" "pair_at q i ''/*''" "trivia_loop d q (skipSQLBlockComment d q i)"
        using "1.prems" True by (subst (asm) trivia_loop.simps) (auto split: if_splits)
      then show ?thesis
        using 1(2,3) [OF True False] True region_of_comment [of q i d]
        by cases (subst scan_loop.simps, simp)+
    qed
  next
    case False
    then show ?thesis by (subst scan_loop.simps) simp
  qed
qed

lemma single_iff_scan:
  assumes "d \<noteq> ''oracle''"
  shows "snd (scan_loop d q i) = single_loop d q i"
  using assms
proof (induction d q i rule: scan_loop.induct)
  case (1 d q i)
  show ?case
  proof (cases "i < length q")
    case True
    show ?thesis
    proof (cases "ProtectedRegionEnd d q i")
      case (Some n)
      then show ?thesis using 1 True by (subst scan_loop.simps, subst single_loop.simps) simp
    next
      case None
      consider (sep) "q ! i = CHR '';''" | (word) "q ! i \<noteq> CHR '';''" "isIdent (q ! i)"
        | (other) "q ! i \<noteq> CHR '';''" "\<not> isIdent (q ! i)" by blast
      then show ?thesis
      proof cases
        case sep
        have "onlySQLTrivia d (drop (i + 1) q) \<longrightarrow> snd (scan_loop d q (i + 1))"
          using trivia_shift [of "i + 1" q d 0] trivia_is_single [of d q "i + 1"] True
          by (simp add: onlySQLTrivia_def)
        then show ?thesis using True None sep
          by (subst scan_loop.simps, subst single_loop.simps) (auto split: prod.split)
      next
        case word
        define n where "n = length (takeWhile word_char (drop i q))"
        have "0 < n" using word True by (cases "drop i q") (auto simp: n_def word_char_def hd_drop_conv_nth [symmetric])
        moreover have "take n (drop i q) = takeWhile word_char (drop i q)"
          unfolding n_def by (metis takeWhile_eq_take)
        then have "list_all word_char (take n (drop i q))"
          using set_takeWhileD by (metis (full_types) list_all_iff)
        moreover have "i + n \<le> length q"
          using length_takeWhile_le [of word_char "drop i q"] True by (simp add: n_def)
        ultimately have "single_loop d q i = single_loop d q (i + n)"
          using "1.prems" by (intro single_loop_word)
        then show ?thesis using 1(2) [OF True None word n_def "1.prems"] \<open>0 < n\<close> True None word
          by (subst scan_loop.simps) (auto simp: Let_def max_def split: prod.split simp flip: n_def)
      next
        case other
        then show ?thesis using 1(3) [OF True None other "1.prems"] True None
          by (subst scan_loop.simps, subst single_loop.simps) simp
      qed
    qed
  next
    case False
    then show ?thesis by (subst scan_loop.simps, subst single_loop.simps) simp
  qed
qed

section \<open>Properties\<close>

text \<open>
  C10: binding parameters keeps the query and nothing but the query: the text sent to the driver is the
  text of the query with its named bindings, and only those, replaced by numbered placeholders, the
  arguments are the values of the bindings in order of occurrence, no value ever becomes text, and a
  binding without a value is the only other outcome. Quoted text, comments and casts are kept verbatim.
\<close>

theorem buildSQL_binds_exactly_the_parameters:
  assumes "q \<noteq> []"
  shows "concat (map segment_text (sql_segments driver q)) = q
    \<and> Parameters driver q = bindings (sql_segments driver q)
    \<and> buildSQL driver q params =
        (case find (\<lambda>n. params n = None) (Parameters driver q) of
           Some n \<Rightarrow> Inl (Missing_param n)
         | None \<Rightarrow> Inr (render driver 0 (sql_segments driver q), map (\<lambda>n. the (params n)) (Parameters driver q)))"
  using assms segments_text [of driver q 0] params_are_bindings [of driver q 0]
    build_loop_spec [of driver q params 0 0 "[]" "[]"]
  by (simp add: sql_segments_def Parameters_def buildSQL_def bound_result_def split: option.split)

theorem buildSQL_binds_exactly_the_parameters_witness:
  "buildSQL ''postgres'' ''a=:x::t AND b=:y'' [''x'' \<mapsto> (1::nat), ''y'' \<mapsto> 2]
     = Inr (''a=$1::t AND b=$2'', [1, 2])"
proof -
  have "Parameters ''postgres'' ''a=:x::t AND b=:y'' = [''x'', ''y'']" 
    "render ''postgres'' 0 (sql_segments ''postgres'' ''a=:x::t AND b=:y'') = ''a=$1::t AND b=$2''"
    by (code_simp)+
  then show ?thesis
    using buildSQL_binds_exactly_the_parameters [of "''a=:x::t AND b=:y''" "''postgres''" "[''x'' \<mapsto> (1::nat), ''y'' \<mapsto> 2]"]
    by simp
qed

text \<open>
  C23: for every driver but Oracle the two single-statement tests of the package agree: the scan behind
  \<^verbatim>\<open>Classify\<close>, which looks at every separator, and \<^verbatim>\<open>hasSingleSQLStatement\<close>, which stops at the first.
\<close>

theorem single_statement_tests_agree:
  assumes "driver \<noteq> ''oracle''"
  shows "Single (Classify driver q) = hasSingleSQLStatement driver q"
  using single_iff_scan [OF assms, of q 0]
  by (auto simp: Classify_def scanSQLTokens_def hasSingleSQLStatement_def Let_def split: prod.splits list.splits)

theorem single_statement_tests_agree_witness:
  "Single (Classify ''mysql'' ''SELECT 1; -- x'') = hasSingleSQLStatement ''mysql'' ''SELECT 1; -- x''"
  using single_statement_tests_agree [of "''mysql''" "''SELECT 1; -- x''"] by simp


text \<open>
  A protected region always ends behind its start and within the text, so every scan of a query
  makes progress and never reads beyond it.
\<close>

theorem protected_region_is_within_text:
  assumes "ProtectedRegionEnd driver q i = Some n" "i < length q"
  shows "i < n \<and> n \<le> length q"
  using region_bounds [OF assms] by simp

theorem protected_region_is_within_text_witness:
  "\<exists>n. ProtectedRegionEnd ''postgres'' ''$a$ ; $a$ x'' 0 = Some n \<and> 0 < n \<and> n \<le> 11"
proof -
  obtain n where n: "ProtectedRegionEnd ''postgres'' ''$a$ ; $a$ x'' 0 = Some n"
    by (cases "ProtectedRegionEnd ''postgres'' ''$a$ ; $a$ x'' 0")
      (simp_all add: ProtectedRegionEnd_def skipSQLDollarQuote_def quote_char_def word_char_def isIdent_def
        isDigit_def byte_def pair_at_def)
  from protected_region_is_within_text [OF n] n show ?thesis by simp
qed

end
