(* ===== verification/Mutations.thy ===== *)
theory Mutations
  imports Lifecycle Sql_Syntax
begin

text \<open>
  Statements that change a database (\<^verbatim>\<open>src/internal/agent/executor.go\<close> and \<^verbatim>\<open>provider_db.go\<close>): starting a transaction
  against a deadline that may pass while it starts, running the statement, and ending the transaction so that what
  is reported agrees with what the database holds. The database and its driver are answers in an environment; what
  is relied on of them is the predicate \<open>lawful\<close>.
\<close>

section \<open>The database\<close>

text \<open>An error of the driver: its text and the driver's own error found in its chain, if there is one.\<close>

datatype driver_error = Pg_error string | Mysql_error string int | Mssql_error int | Oracle_error int

record db_error =
  db_text :: string
  db_cause :: "driver_error option"

datatype rollback_state = Rollback_confirmed | Rollback_already_done | Rollback_failed

text \<open>
  \<open>ends\<close> is the point of the run at which the execution context ends, if it does; \<open>watcher\<close> says that the watching
  goroutine gets its turn before the driver has answered. \<open>commit_applied\<close> and \<open>rollback_survives\<close> are what is true in the
  database after a commit or a rollback was attempted, whatever was answered.
\<close>

record db_env =
  conn_answer :: "db_error option"
  begin_answer :: "db_error option"
  exec_answer :: "db_error option"
  rows_answer :: "db_error + int"
  commit_answer :: "db_error option"
  rollback_answer :: rollback_state
  ends :: "nat option"
  watcher :: bool
  commit_applied :: bool
  rollback_survives :: bool

definition ctx_err :: "db_env \<Rightarrow> nat \<Rightarrow> bool" where
  "ctx_err E k = (case ends E of None \<Rightarrow> False | Some t \<Rightarrow> t \<le> k)"

datatype db_act = Take_conn | Begin_tx | Exec_sql | Commit_tx | Rollback_tx | Discard_conn | Close_conn | Close_output

text \<open>The documented meaning of a commit and of a rollback that report success.\<close>

definition lawful :: "db_env \<Rightarrow> bool" where
  "lawful E \<longleftrightarrow> (commit_answer E = None \<longrightarrow> commit_applied E) \<and> (rollback_answer E = Rollback_confirmed \<longrightarrow> \<not> rollback_survives E)"

text \<open>
  Whether the statement's change is in the database after the calls made: it must have been run, and then it is what
  the commit or the rollback left; a transaction that is neither committed nor rolled back holds it open.
\<close>

definition changed :: "db_env \<Rightarrow> db_act list \<Rightarrow> bool" where
  "changed E acts \<longleftrightarrow> Exec_sql \<in> set acts \<and>
     (if Commit_tx \<in> set acts then commit_applied E else Rollback_tx \<in> set acts \<and> rollback_survives E)"

text \<open>Every transaction begun is ended, once, and every connection taken is given back, once.\<close>

definition settled :: "db_act list \<Rightarrow> bool" where
  "settled acts \<longleftrightarrow>
     count_list acts Commit_tx + count_list acts Rollback_tx = count_list acts Begin_tx
     \<and> count_list acts Close_conn = count_list acts Take_conn"

section \<open>Starting a transaction\<close>

datatype begin_state = Begin_not_started | Begin_started | Begin_canceled_with_tx | Begin_outcome_unknown

definition context_error :: db_error where
  "context_error = \<lparr>db_text = ''context deadline exceeded'', db_cause = None\<rparr>"

text \<open>
  The gate goes to the execution context if that has ended before the transaction was asked for, or if it ends while the
  driver works and the watcher is first.
\<close>

definition gate_canceled :: "db_env \<Rightarrow> bool" where
  "gate_canceled E \<longleftrightarrow> ctx_err E 1 \<or> watcher E \<and> ctx_err E 2"

definition beginMutationTx :: "db_env \<Rightarrow> db_act list \<times> begin_state \<times> db_error option" where
  "beginMutationTx E =
     (case conn_answer E of
        Some e \<Rightarrow> ([], Begin_not_started, Some e)
      | None \<Rightarrow>
          (case begin_answer E of
             None \<Rightarrow>
               if gate_canceled E then ([Take_conn, Begin_tx], Begin_canceled_with_tx, if ctx_err E 3 then Some context_error else None)
               else ([Take_conn, Begin_tx], Begin_started, None)
           | Some e \<Rightarrow>
               if gate_canceled E then ([Take_conn, Discard_conn, Close_conn], Begin_outcome_unknown, Some e)
               else ([Take_conn, Close_conn], Begin_not_started, Some e)))"

section \<open>Classification\<close>

text \<open>
  \<^verbatim>\<open>strings.ToLower\<close> as far as it yields ASCII letters: besides the capitals, the dotted capital I and the Kelvin sign.
\<close>

fun ToLower :: "string \<Rightarrow> string" where
  "ToLower [] = []"
| "ToLower (c # s) =
     (if byte c = 196 \<and> s \<noteq> [] \<and> byte (hd s) = 176 then CHR ''i'' # ToLower (tl s)
      else if byte c = 226 \<and> 2 \<le> length s \<and> byte (hd s) = 132 \<and> byte (s ! 1) = 170 then CHR ''k'' # ToLower (drop 2 s)
      else lower_char c # ToLower s)"

fun Contains :: "string \<Rightarrow> string \<Rightarrow> bool" where
  "Contains [] sub = (sub = [])"
| "Contains (c # s) sub = (HasPrefix (c # s) sub \<or> Contains s sub)"

definition isDBUnreachable :: "db_error \<Rightarrow> bool" where
  "isDBUnreachable e =
     list_ex (Contains (ToLower (db_text e)))
       [''connection refused'', ''connection reset'', ''connection timed out'', ''no such host'', ''bad connection'',
        ''server is not accepting'', ''database system is shutting down'', ''terminating connection'', ''connection is closed'',
        ''unexpected eof'']"

section \<open>The runner's mutations\<close>

definition constraint_class :: "driver_error \<Rightarrow> string \<Rightarrow> bool" where
  "constraint_class e driver =
     (case e of
        Pg_error code \<Rightarrow> driver = ''postgres'' \<and> HasPrefix code ''23''
      | Mysql_error st num \<Rightarrow> driver = ''mysql'' \<and> (HasPrefix st ''23'' \<or> num \<in> {1062, 1451, 1452, 1048, 3819})
      | Mssql_error num \<Rightarrow> driver = ''sqlserver'' \<and> num \<in> {2627, 2601, 547, 515}
      | Oracle_error num \<Rightarrow> driver = ''oracle'' \<and> num \<in> {1, 2290, 2291, 2292, 1400})"

definition classifyDBError :: "string \<Rightarrow> db_error \<Rightarrow> string" where
  "classifyDBError driver e =
     (case db_cause e of None \<Rightarrow> [] | Some c \<Rightarrow> if constraint_class c driver then ''CONFLICT'' else [])"

type_synonym mutation_failure = "string \<times> string"

definition errorOutcomeUnknown :: mutation_failure where
  "errorOutcomeUnknown = (''OUTCOME_UNKNOWN'', ''transaction outcome is unknown'')"

definition query_timeout :: mutation_failure where
  "query_timeout = (''EXECUTION_TIMEOUT'', ''query exceeded policy.timeout'')"

definition buildMutationPayload :: "int \<Rightarrow> int \<Rightarrow> string option" where
  "buildMutationPayload n limit =
     (let payload = ''{\"count\":'' @ format_int n @ ''}'' in if int (length payload) > limit then None else Some payload)"

text \<open>\<^verbatim>\<open>rollbackMutationFailure\<close> and \<^verbatim>\<open>mutationFailureForRollback\<close>, with the close of the connection that follows.\<close>

definition roll_back :: "db_env \<Rightarrow> bool \<Rightarrow> mutation_failure \<Rightarrow> db_act list \<times> mutation_failure" where
  "roll_back E discard f =
     (let unsure = (rollback_answer E \<noteq> Rollback_confirmed) in
      (Rollback_tx # (if discard \<or> unsure then [Discard_conn] else []) @ [Close_conn], if unsure then errorOutcomeUnknown else f))"

definition exec_failure :: "string \<Rightarrow> db_env \<Rightarrow> db_error \<Rightarrow> mutation_failure" where
  "exec_failure driver E e =
     (if ctx_err E 5 then query_timeout
      else if classifyDBError driver e = ''CONFLICT'' then (''CONFLICT'', ''database constraint violation'')
      else if isDBUnreachable e then (''DEPENDENCY_UNAVAILABLE'', ''database is unreachable'')
      else (''EXECUTION_FAILED'', ''database query failed''))"

text \<open>
  The statement's run inside a started transaction, up to the decision to commit: a failure, or the payload and the count.
  \<open>maxRows\<close> is the policy's limit on affected rows, \<open>maxBytes\<close> the answer of \<^verbatim>\<open>maxBytes\<close>.
\<close>

definition mutation_body :: "string \<Rightarrow> db_env \<Rightarrow> int option \<Rightarrow> int option \<Rightarrow> mutation_failure + string \<times> int" where
  "mutation_body driver E maxRows maxBytes =
     (case exec_answer E of
        Some e \<Rightarrow> Inl (exec_failure driver E e)
      | None \<Rightarrow>
          (case rows_answer E of
             Inl _ \<Rightarrow> Inl (''EXECUTION_FAILED'', ''database query failed'')
           | Inr n \<Rightarrow>
               if n < 0 then Inl (''EXECUTION_FAILED'', ''database query failed'')
               else if (case maxRows of Some m \<Rightarrow> n > m | None \<Rightarrow> False)
               then Inl (''LIMIT_EXCEEDED'', ''affected rows exceed policy.max_affected_rows'')
               else (case maxBytes of
                   None \<Rightarrow> Inl (''INTERNAL_ERROR'', ''agent internal error'')
                 | Some m \<Rightarrow>
                     (case buildMutationPayload n m of
                        None \<Rightarrow> Inl (''EXECUTION_FAILED'', ''response exceeds policy.max_bytes'')
                      | Some payload \<Rightarrow> if ctx_err E 6 then Inl query_timeout else Inr (payload, n)))))"

definition executeMutation :: "string \<Rightarrow> db_env \<Rightarrow> int option \<Rightarrow> int option \<Rightarrow> db_act list \<times> (mutation_failure + string \<times> int)" where
  "executeMutation driver E maxRows maxBytes =
     (case beginMutationTx E of
        (acts, state, Some e) \<Rightarrow>
          (acts, Inl (if state = Begin_outcome_unknown then errorOutcomeUnknown
             else if ctx_err E 4 then query_timeout
             else if isDBUnreachable e then (''DEPENDENCY_UNAVAILABLE'', ''database is unreachable'')
             else (''EXECUTION_FAILED'', ''database query failed'')))
      | (acts, state, None) \<Rightarrow>
          if state = Begin_canceled_with_tx then
            (case roll_back E (driver = ''oracle'') query_timeout of (acts', f) \<Rightarrow> (acts @ acts', Inl f))
          else
            (case mutation_body driver E maxRows maxBytes of
               Inl f \<Rightarrow> (case roll_back E False f of (acts', f') \<Rightarrow> (acts @ Exec_sql # acts', Inl f'))
             | Inr (payload, n) \<Rightarrow>
                 (case commit_answer E of
                    Some _ \<Rightarrow> (acts @ [Exec_sql, Commit_tx, Discard_conn, Close_conn], Inl errorOutcomeUnknown)
                  | None \<Rightarrow> (acts @ [Exec_sql, Commit_tx, Close_conn], Inr (payload, n)))))"

section \<open>The provider's mutations\<close>

definition failure_err :: "string \<Rightarrow> string \<Rightarrow> perr" where
  "failure_err code reason = \<lparr>er_failure = Some (code, reason), er_output = None, er_terminal = None\<rparr>"

definition provider_failure :: "string \<Rightarrow> bool \<Rightarrow> db_error \<Rightarrow> perr" where
  "provider_failure driver ended e =
     (if ended then failure_err ''EXECUTION_TIMEOUT'' ''DATABASE_TIMEOUT''
      else if classifyDBError driver e \<noteq> [] then failure_err ''CONFLICT'' ''DATABASE_CONSTRAINT''
      else if isDBUnreachable e then failure_err ''DEPENDENCY_UNAVAILABLE'' ''DATABASE_UNAVAILABLE''
      else failure_err ''EXECUTION_FAILED'' ''DATABASE_QUERY_FAILED'')"

text \<open>\<^verbatim>\<open>errors.Join\<close> with the error of an impossible row count, present or not.\<close>

definition invalid_count :: "db_error option \<Rightarrow> db_error" where
  "invalid_count e =
     (case e of None \<Rightarrow> \<lparr>db_text = ''invalid affected count'', db_cause = None\<rparr>
      | Some e \<Rightarrow> e\<lparr>db_text := db_text e @ char_of (10 :: nat) # ''invalid affected count''\<rparr>)"

definition provider_rollback :: "db_env \<Rightarrow> bool \<Rightarrow> nat \<Rightarrow> perr \<Rightarrow> effects \<Rightarrow> effects \<times> db_act list \<times> perr" where
  "provider_rollback E discard i cause eff =
     (if rollback_answer E \<noteq> Rollback_confirmed
      then (eff, [Rollback_tx, Discard_conn, Close_conn], failure_err ''OUTCOME_UNKNOWN'' ''ROLLBACK_UNKNOWN'')
      else (finish_effect Rolled_back i eff, Rollback_tx # (if discard then [Discard_conn] else []) @ [Close_conn], cause))"

definition count_result :: "int \<Rightarrow> provider_result" where
  "count_result n = \<lparr>s_Data = VObj [(''count'', VInt n)], s_Columns = [], s_Files = []\<rparr>"

text \<open>
  What stands between a started transaction and its commit: the output to publish, or why to roll back and whether an
  output that was already prepared is closed first. \<open>publish\<close> is the controller's.
\<close>

definition statement_body :: "string \<Rightarrow> db_env \<Rightarrow> int option \<Rightarrow> (provider_result \<Rightarrow> perr + 'o) \<Rightarrow> (perr \<times> bool) + 'o" where
  "statement_body driver E maxRows publish =
     (case exec_answer E of
        Some e \<Rightarrow> Inl (provider_failure driver (ctx_err E 5) e, False)
      | None \<Rightarrow>
          (case rows_answer E of
             Inl e \<Rightarrow> Inl (provider_failure driver (ctx_err E 6) (invalid_count (Some e)), False)
           | Inr n \<Rightarrow>
               if n < 0 then Inl (provider_failure driver (ctx_err E 6) (invalid_count None), False)
               else if (case maxRows of Some m \<Rightarrow> n > m | None \<Rightarrow> False) then Inl (failure_err ''LIMIT_EXCEEDED'' ''AFFECTED_ROWS_EXCEEDED'', False)
               else (case publish (count_result n) of
                   Inl e \<Rightarrow> Inl (e, False)
                 | Inr out \<Rightarrow> if ctx_err E 7 then Inl (provider_failure driver (ctx_err E 7) context_error, True) else Inr out)))"

text \<open>The transaction once it exists: \<open>i\<close> is the handle of its effect.\<close>

definition run_transaction :: "string \<Rightarrow> db_env \<Rightarrow> int option \<Rightarrow> (provider_result \<Rightarrow> perr + 'o) \<Rightarrow> bool \<Rightarrow> nat \<Rightarrow> effects \<Rightarrow> effects \<times> db_act list \<times> (perr + 'o)" where
  "run_transaction driver E maxRows publish canceled i eff =
     (if canceled then
        (case provider_rollback E (driver = ''oracle'') i (provider_failure driver (ctx_err E 4) context_error) eff of
           (eff', acts, f) \<Rightarrow> (eff', acts, Inl f))
      else
        (case statement_body driver E maxRows publish of
           Inl (cause, closes_output) \<Rightarrow>
             (case provider_rollback E False i cause eff of
                (eff', acts, f) \<Rightarrow> (eff', Exec_sql # (if closes_output then [Close_output] else []) @ acts, Inl f))
         | Inr out \<Rightarrow>
             (case commit_answer E of
                Some _ \<Rightarrow> (eff, [Exec_sql, Commit_tx, Close_output, Discard_conn, Close_conn], Inl (failure_err ''OUTCOME_UNKNOWN'' ''COMMIT_UNKNOWN''))
              | None \<Rightarrow> (finish_effect Committed i eff, [Exec_sql, Commit_tx, Close_conn], Inr out))))"

definition run_mutation :: "string \<Rightarrow> db_env \<Rightarrow> int option \<Rightarrow> (provider_result \<Rightarrow> perr + 'o) \<Rightarrow> effects \<Rightarrow> effects \<times> db_act list \<times> (perr + 'o)" where
  "run_mutation driver E maxRows publish eff0 =
     (case beginMutationTx E of
        (acts, state, e) \<Rightarrow>
          (let (eff1, i) = (if state \<noteq> Begin_not_started then Effects_Begin eff0 else (eff0, 0)) in
           if e \<noteq> None \<and> state \<noteq> Begin_canceled_with_tx then
             (if state = Begin_outcome_unknown then (eff1, acts, Inl (failure_err ''OUTCOME_UNKNOWN'' ''TRANSACTION_START_UNKNOWN''))
              else (NoChange eff1, acts, Inl (provider_failure driver (ctx_err E 4) (the e))))
           else
             (let (eff2, i) = (if state = Begin_not_started then Effects_Begin eff1 else (eff1, i));
                  (eff3, acts', r) = run_transaction driver E maxRows publish (state = Begin_canceled_with_tx) i eff2
              in (eff3, acts @ acts', r))))"

section \<open>The provider's queries\<close>

text \<open>What a driver scans into an \<^verbatim>\<open>any\<close>; a time is known by its printed form.\<close>

datatype dbval = DNull | DBytes string | DStr string | DTime string | DInt64 int | DInt32 int | DGoInt int | DBool bool | DFloat float64 | DOther

definition to_upper_ascii :: "char \<Rightarrow> char" where
  "to_upper_ascii c = (if 97 \<le> byte c \<and> byte c \<le> 122 then char_of (byte c - 32) else c)"

text \<open>\<^verbatim>\<open>strings.ToUpper\<close> as far as it yields ASCII letters: besides the small letters, the dotless i and the long s.\<close>

fun ToUpper :: "string \<Rightarrow> string" where
  "ToUpper [] = []"
| "ToUpper (c # s) =
     (if byte c = 196 \<and> s \<noteq> [] \<and> byte (hd s) = 177 then CHR ''I'' # ToUpper (tl s)
      else if byte c = 197 \<and> s \<noteq> [] \<and> byte (hd s) = 191 then CHR ''S'' # ToUpper (tl s)
      else to_upper_ascii c # ToUpper s)"



definition ParseInt64 :: "string \<Rightarrow> int option" where
  "ParseInt64 s =
     (let digits = (if s \<noteq> [] \<and> hd s \<in> {CHR ''+'', CHR ''-''} then tl s else s) in
      if digits = [] \<or> \<not> decimalDigits digits then None else parse_int (s \<noteq> [] \<and> hd s = CHR ''-'') digits)"

definition binary_kind :: "string \<Rightarrow> bool" where
  "binary_kind kind \<longleftrightarrow>
     kind \<in> {''BYTEA'', ''BINARY'', ''VARBINARY'', ''IMAGE'', ''RAW'', ''LONG RAW''} \<or> Contains kind ''BLOB''"

definition decimal_kind :: "string \<Rightarrow> bool" where
  "decimal_kind kind \<longleftrightarrow> Contains kind ''DECIMAL'' \<or> Contains kind ''NUMERIC'' \<or> kind = ''NUMBER''"

fun exact_integer :: "dbval \<Rightarrow> val option" where
  "exact_integer (DStr s) = map_option VInt (ParseInt64 s)"
| "exact_integer (DBytes s) = map_option VInt (ParseInt64 s)"
| "exact_integer (DInt64 n) = Some (VInt n)"
| "exact_integer _ = None"

fun binary_value :: "dbval \<Rightarrow> val option" where
  "binary_value (DBytes s) = Some (VStr (b64_encode s))"
| "binary_value (DStr s) = Some (VStr (b64_encode s))"
| "binary_value _ = None"

fun decimal_value :: "dbval \<Rightarrow> val option" where
  "decimal_value (DBytes s) = (if utf8_valid s then Some (VStr s) else None)"
| "decimal_value (DStr s) = Some (VStr s)"
| "decimal_value (DInt64 n) = Some (VStr (format_int n))"
| "decimal_value _ = None"

fun text_value :: "dbval \<Rightarrow> val option" where
  "text_value (DBytes s) = (if utf8_valid s then Some (VStr s) else None)"
| "text_value (DStr s) = (if utf8_valid s then Some (VStr s) else None)"
| "text_value (DTime s) = Some (VStr s)"
| "text_value (DInt64 n) = Some (VInt n)"
| "text_value (DBool b) = Some (VBool b)"
| "text_value (DFloat f) = Some (VFloat f)"
| "text_value (DInt32 n) = Some (VInt n)"
| "text_value (DGoInt n) = Some (VInt n)"
| "text_value _ = None"

definition normalizeDBValue :: "dbval \<Rightarrow> string \<Rightarrow> val option" where
  "normalizeDBValue v dbType =
     (let kind = ToUpper dbType in
      if v = DNull then Some VNull
      else if kind = ''ORACLE_INTEGER'' then exact_integer v
      else if binary_kind kind then binary_value v
      else if decimal_kind kind then decimal_value v
      else text_value v)"

text \<open>A column's type name, and its scale where the driver knows it.\<close>

record column_type =
  ct_DatabaseTypeName :: string
  ct_DecimalSize :: "int option"

text \<open>
  The driver's answers to a query in the order they are asked for: a row is what scanning it gave, and
  \<open>qa_rows\<close> ends where \<^verbatim>\<open>rows.Next\<close> says so.
\<close>

record query_answer =
  qa_query :: "db_error option"
  qa_columns :: "db_error + string list"
  qa_types :: "db_error + column_type list"
  qa_rows :: "(db_error + dbval list) list"
  qa_err :: "db_error option"
  qa_close :: "db_error option"

datatype query_error = Query_db db_error | Query_output string

definition column_kind :: "column_type \<Rightarrow> string" where
  "column_kind t =
     (if map lower_char (ct_DatabaseTypeName t) = ''number'' \<and> ct_DecimalSize t = Some 0 then ''ORACLE_INTEGER''
      else ct_DatabaseTypeName t)"

fun row_values :: "string list \<Rightarrow> column_type list \<Rightarrow> dbval list \<Rightarrow> (string, val) go_map option" where
  "row_values (name # names) (t # ts) (v # vs) =
     (case normalizeDBValue v (column_kind t) of
        None \<Rightarrow> None
      | Some x \<Rightarrow> map_option (\<lambda>rest. (name, x) # rest) (row_values names ts vs))"
| "row_values _ _ _ = Some []"

fun read_rows :: "string list \<Rightarrow> column_type list \<Rightarrow> int \<Rightarrow> (db_error + dbval list) list \<Rightarrow> val list \<Rightarrow> query_error + val list" where
  "read_rows cols types maxRows [] result = Inr result"
| "read_rows cols types maxRows (Inl e # _) result = Inl (Query_db e)"
| "read_rows cols types maxRows (Inr vs # rest) result =
     (case row_values cols types vs of
        None \<Rightarrow> Inl (Query_output ''OUTPUT_INVALID'')
      | Some row \<Rightarrow>
          (let result' = result @ [VObj row] in
           if int (length result') \<ge> maxRows then Inr result' else read_rows cols types maxRows rest result'))"

definition queryDBValues :: "query_answer \<Rightarrow> int \<Rightarrow> query_error + val list \<times> string list" where
  "queryDBValues Q maxRows =
     (case (qa_query Q, qa_columns Q, qa_types Q) of
        (Some e, _, _) \<Rightarrow> Inl (Query_db e)
      | (None, Inl e, _) \<Rightarrow> Inl (Query_db e)
      | (None, Inr cols, Inl e) \<Rightarrow> Inl (Query_db e)
      | (None, Inr cols, Inr types) \<Rightarrow>
          if \<not> distinct cols \<or> \<not> list_all utf8_valid cols then Inl (Query_output ''OUTPUT_INVALID'')
          else (case read_rows cols types maxRows (qa_rows Q) [] of
              Inl e \<Rightarrow> Inl e
            | Inr result \<Rightarrow>
                (case (qa_err Q, qa_close Q) of
                   (Some e, _) \<Rightarrow> Inl (Query_db e)
                 | (None, Some e) \<Rightarrow> Inl (Query_db e)
                 | (None, None) \<Rightarrow> Inr (result, cols))))"

section \<open>The database provider\<close>

record db_provider =
  dp_driver :: string
  dp_operation :: string
  dp_sql :: string
  dp_max_rows :: int
  dp_max_affected_rows :: "int option"

definition plain_err :: perr where
  "plain_err = \<lparr>er_failure = None, er_output = None, er_terminal = None\<rparr>"

definition query_failure :: "string \<Rightarrow> bool \<Rightarrow> query_error \<Rightarrow> perr" where
  "query_failure driver ended e =
     (case e of Query_output code \<Rightarrow> plain_err\<lparr>er_output := Some code\<rparr> | Query_db e \<Rightarrow> provider_failure driver ended e)"

text \<open>\<^verbatim>\<open>Execute\<close>; \<open>Q\<close> answers the bound query, \<open>ended\<close> says that the context has ended by then.\<close>

definition db_Execute :: "db_provider \<Rightarrow> (string \<rightharpoonup> val) \<Rightarrow> (string \<Rightarrow> val list \<Rightarrow> query_answer) \<Rightarrow> bool \<Rightarrow> effects \<Rightarrow> effects \<times> (perr + provider_result)" where
  "db_Execute p input Q ended eff =
     (if dp_operation p \<noteq> ''select'' then (eff, Inl plain_err)
      else (NoChange eff,
        case buildSQL (dp_driver p) (dp_sql p) input of
          Inl _ \<Rightarrow> Inl plain_err
        | Inr (q, args) \<Rightarrow>
            (case queryDBValues (Q q args) (dp_max_rows p) of
               Inl e \<Rightarrow> Inl (query_failure (dp_driver p) ended e)
             | Inr (rows, columns) \<Rightarrow> Inr \<lparr>s_Data = VArr rows, s_Columns = columns, s_Files = []\<rparr>)))"

definition ExecutePublication :: "db_provider \<Rightarrow> (string \<rightharpoonup> val) \<Rightarrow> (string \<Rightarrow> val list \<Rightarrow> query_answer) \<Rightarrow> (string \<Rightarrow> val list \<Rightarrow> db_env) \<Rightarrow> bool \<Rightarrow> (provider_result \<Rightarrow> perr + 'o) \<Rightarrow> effects \<Rightarrow> effects \<times> db_act list \<times> (perr + 'o)" where
  "ExecutePublication p input Q D ended publish eff =
     (if dp_operation p = ''select'' then
        (case db_Execute p input Q ended eff of
           (eff', Inl e) \<Rightarrow> (eff', [], Inl e)
         | (eff', Inr r) \<Rightarrow> (eff', [], publish r))
      else case buildSQL (dp_driver p) (dp_sql p) input of
        Inl _ \<Rightarrow> (NoChange eff, [], Inl plain_err)
      | Inr (q, args) \<Rightarrow> run_mutation (dp_driver p) (D q args) (dp_max_affected_rows p) publish eff)"

section \<open>What is reported and what happened\<close>

lemma gate_canceled_ended: "gate_canceled E \<Longrightarrow> 2 \<le> k \<Longrightarrow> ctx_err E k"
  by (auto simp: gate_canceled_def ctx_err_def split: option.splits)

text \<open>The four ways a transaction may start.\<close>

lemma beginMutationTx_cases:
  obtains (no_conn) e where "conn_answer E = Some e" "beginMutationTx E = ([], Begin_not_started, Some e)"
  | (refused) e where "conn_answer E = None" "begin_answer E = Some e" "\<not> gate_canceled E"
      "beginMutationTx E = ([Take_conn, Close_conn], Begin_not_started, Some e)"
  | (unsure) e where "conn_answer E = None" "begin_answer E = Some e" "gate_canceled E"
      "beginMutationTx E = ([Take_conn, Discard_conn, Close_conn], Begin_outcome_unknown, Some e)"
  | (late) "conn_answer E = None" "begin_answer E = None" "gate_canceled E"
      "beginMutationTx E = ([Take_conn, Begin_tx], Begin_canceled_with_tx, Some context_error)"
  | (begun) "conn_answer E = None" "begin_answer E = None" "\<not> gate_canceled E"
      "beginMutationTx E = ([Take_conn, Begin_tx], Begin_started, None)"
  using gate_canceled_ended [of E 3] unfolding beginMutationTx_def
  by (cases "conn_answer E"; cases "begin_answer E"; cases "gate_canceled E") auto

lemmas effect_simps = Effects_Begin_def finish_effect_def NoChange_def Outcome_def Effects_Start_def no_effects_def

text \<open>One begun operation, as the provider's record has it after its handle was used or not.\<close>

definition one_effect :: "effect_state \<Rightarrow> effects" where
  "one_effect s = \<lparr>started = True, noChange = False, operations = [s]\<rparr>"

lemma one_effect_simps:
  "Effects_Begin (Effects_Start no_effects) = (one_effect Unknown, 0)"
  "finish_effect s 0 (one_effect Unknown) = one_effect s"
  "Outcome (one_effect s) = (if s = Committed then ''committed'' else if s = Rolled_back then ''rolled_back'' else ''unknown'')"
  "Outcome (NoChange (Effects_Start no_effects)) = ''no_change''"
  by (auto simp: effect_simps one_effect_def)

lemma provider_rollback_eq:
  "provider_rollback E d 0 cause (one_effect Unknown) =
     (if rollback_answer E = Rollback_confirmed
      then (one_effect Rolled_back, Rollback_tx # (if d then [Discard_conn] else []) @ [Close_conn], cause)
      else (one_effect Unknown, [Rollback_tx, Discard_conn, Close_conn], failure_err ''OUTCOME_UNKNOWN'' ''ROLLBACK_UNKNOWN''))"
  by (simp add: provider_rollback_def one_effect_simps)

text \<open>A statement body that lets the transaction be committed has stayed within the policy and has a valid output.\<close>

lemma statement_body_commits:
  assumes "statement_body driver E maxRows publish = Inr out"
  shows "\<exists>n. rows_answer E = Inr n \<and> 0 \<le> n \<and> (\<forall>m. maxRows = Some m \<longrightarrow> n \<le> m) \<and> publish (count_result n) = Inr out"
  using assms unfolding statement_body_def by (auto split: option.splits sum.splits if_splits)

definition honest :: "db_env \<Rightarrow> effects \<Rightarrow> db_act list \<Rightarrow> perr + 'o \<Rightarrow> bool" where
  "honest E eff acts r \<longleftrightarrow>
     (Outcome eff = ''committed'' \<longleftrightarrow> (\<exists>out. r = Inr out))
     \<and> (Outcome eff = ''committed'' \<longrightarrow> changed E acts)
     \<and> (Outcome eff = ''rolled_back'' \<or> Outcome eff = ''no_change'' \<longrightarrow> \<not> changed E acts)
     \<and> (Outcome eff = ''unknown'' \<longrightarrow> (\<exists>e reason. r = Inl e \<and> er_failure e = Some (''OUTCOME_UNKNOWN'', reason)))
     \<and> Outcome eff \<noteq> ''not_started''"

lemmas honest_simps = honest_def changed_def settled_def one_effect_simps failure_err_def

text \<open>After the transaction was begun: \<open>acts\<close> is what beginning it did.\<close>

lemma run_transaction_honest:
  assumes "lawful E" "run_transaction driver E maxRows publish canceled 0 (one_effect Unknown) = (eff, acts, r)"
  shows "honest E eff ([Take_conn, Begin_tx] @ acts) r \<and> settled ([Take_conn, Begin_tx] @ acts)"
  using assms unfolding run_transaction_def provider_rollback_eq lawful_def
  by (auto simp: honest_simps split: if_splits sum.splits option.splits prod.splits)

lemma run_transaction_commits:
  assumes "run_transaction driver E maxRows publish canceled i eff0 = (eff, acts, Inr out)"
  shows "\<not> canceled \<and> statement_body driver E maxRows publish = Inr out"
  using assms unfolding run_transaction_def by (auto split: if_splits sum.splits option.splits prod.splits)

lemma run_mutation_begun:
  assumes "run_mutation driver E maxRows publish (Effects_Start no_effects) = (eff, acts, r)"
    "conn_answer E = None" "begin_answer E = None"
  obtains acts' where "acts = [Take_conn, Begin_tx] @ acts'"
    "run_transaction driver E maxRows publish (gate_canceled E) 0 (one_effect Unknown) = (eff, acts', r)"
  using assms by (cases E rule: beginMutationTx_cases)
    (auto simp: run_mutation_def one_effect_simps split: prod.splits)

lemma run_mutation_not_begun:
  assumes "run_mutation driver E maxRows publish (Effects_Start no_effects) = (eff, acts, r)"
    "\<not> (conn_answer E = None \<and> begin_answer E = None)"
  shows "honest E eff acts r \<and> settled acts \<and> (\<forall>out. r \<noteq> Inr out)"
  using assms by (cases E rule: beginMutationTx_cases)
    (auto simp: run_mutation_def honest_simps)

lemma run_mutation_honest:
  assumes "lawful E" "run_mutation driver E maxRows publish (Effects_Start no_effects) = (eff, acts, r)"
  shows "honest E eff acts r \<and> settled acts"
proof (cases "conn_answer E = None \<and> begin_answer E = None")
  case True
  then show ?thesis using run_mutation_begun [OF assms(2)] run_transaction_honest [OF assms(1)] by metis
next
  case False
  then show ?thesis using run_mutation_not_begun [OF assms(2)] by blast
qed

text \<open>
  C4: what the database provider reports of a mutation is what the database holds. The output is handed on exactly when the
  recorded outcome is committed, and then the change is in the database, the affected rows are within
  \<^verbatim>\<open>max_affected_rows\<close> and the output is the published form of that very count. With the outcome rolled back or
  unchanged the change is not in the database; with the outcome unknown the error says \<^verbatim>\<open>OUTCOME_UNKNOWN\<close>. In every case
  each transaction begun is committed or rolled back by one call and each connection taken is given back once. Relied on is
  only that a commit or rollback that reports success did happen.
\<close>

theorem mutation_outcome_is_honest:
  assumes "\<And>q args. lawful (D q args)" "dp_operation p \<noteq> ''select''"
    "ExecutePublication p input Q D ended publish (Effects_Start no_effects) = (eff, acts, r)"
    "buildSQL (dp_driver p) (dp_sql p) input = Inr (q, args)"
  shows "honest (D q args) eff acts r \<and> settled acts
    \<and> (\<forall>out. r = Inr out \<longrightarrow> (\<exists>n. rows_answer (D q args) = Inr n \<and> 0 \<le> n
        \<and> (\<forall>m. dp_max_affected_rows p = Some m \<longrightarrow> n \<le> m) \<and> publish (count_result n) = Inr out))"
proof -
  have run: "run_mutation (dp_driver p) (D q args) (dp_max_affected_rows p) publish (Effects_Start no_effects) = (eff, acts, r)"
    using assms(2-4) by (simp add: ExecutePublication_def)
  have "\<exists>n. rows_answer (D q args) = Inr n \<and> 0 \<le> n
      \<and> (\<forall>m. dp_max_affected_rows p = Some m \<longrightarrow> n \<le> m) \<and> publish (count_result n) = Inr out" if "r = Inr out" for out
    using run_mutation_begun [OF run] run_mutation_not_begun [OF run] run_transaction_commits statement_body_commits that
    by metis
  then show ?thesis using run_mutation_honest [OF assms(1) run] by blast
qed

section \<open>What the runner leaves behind\<close>

lemma mutation_body_commits:
  assumes "mutation_body driver E maxRows maxBytes = Inr (payload, n)"
  shows "rows_answer E = Inr n \<and> 0 \<le> n \<and> (\<forall>m. maxRows = Some m \<longrightarrow> n \<le> m)
    \<and> (\<exists>m. maxBytes = Some m \<and> int (length payload) \<le> m)"
  using assms unfolding mutation_body_def buildMutationPayload_def Let_def
  by (auto split: option.splits sum.splits if_splits)

text \<open>
  C37: a mutation of the unversioned runner gives back what it took except in one case. Every transaction begun is ended and
  every connection taken is closed, unless the execution context ends while the driver starts a transaction that then
  succeeds: the error of the context makes \<^verbatim>\<open>executeMutation\<close> return before the branch that would roll back, so no call
  ends that transaction or returns its connection to the pool.
\<close>

theorem late_transaction_is_abandoned:
  "settled (fst (executeMutation driver E maxRows maxBytes))
     \<longleftrightarrow> \<not> (conn_answer E = None \<and> begin_answer E = None \<and> gate_canceled E)"
  by (cases E rule: beginMutationTx_cases)
    (auto simp: executeMutation_def settled_def roll_back_def Let_def split: sum.splits option.splits)

text \<open>Its answers are honest all the same.\<close>

lemma executeMutation_begun:
  assumes "beginMutationTx E = (acts0, Begin_started, None)" "Commit_tx \<notin> set acts0" "lawful E"
    "executeMutation driver E maxRows maxBytes = (acts, r)"
  shows "case r of Inr x \<Rightarrow> changed E acts \<and> mutation_body driver E maxRows maxBytes = Inr x
    | Inl f \<Rightarrow> f \<noteq> errorOutcomeUnknown \<longrightarrow> \<not> changed E acts"
proof (cases "mutation_body driver E maxRows maxBytes")
  case (Inl f)
  then show ?thesis using assms
    by (cases "rollback_answer E") (auto simp: executeMutation_def roll_back_def changed_def lawful_def split: sum.splits)
next
  case (Inr x)
  then show ?thesis using assms
    by (cases "commit_answer E"; cases x) (auto simp: executeMutation_def changed_def lawful_def split: sum.splits)
qed

lemma executeMutation_honest:
  assumes "lawful E" "executeMutation driver E maxRows maxBytes = (acts, r)"
  shows "case r of Inr x \<Rightarrow> changed E acts \<and> mutation_body driver E maxRows maxBytes = Inr x
    | Inl f \<Rightarrow> f \<noteq> errorOutcomeUnknown \<longrightarrow> \<not> changed E acts"
proof (cases E rule: beginMutationTx_cases)
  case begun
  then show ?thesis using executeMutation_begun [OF begun(4) _ assms] by simp
qed (use assms(2) in \<open>auto simp: executeMutation_def changed_def\<close>)

section \<open>The rows of a query\<close>

lemma row_values_keys:
  assumes "row_values cols types vs = Some row" "length types = length cols" "length vs = length cols"
  shows "map fst row = cols"
  using assms by (induction cols types vs arbitrary: row rule: row_values.induct) (auto split: option.splits)

definition rows_of :: "string list \<Rightarrow> val list \<Rightarrow> bool" where
  "rows_of cols rows \<longleftrightarrow> (\<forall>v \<in> set rows. \<exists>row. v = VObj row \<and> map fst row = cols)"

lemma read_rows_bounded:
  assumes "read_rows cols types maxRows qs acc = Inr rows" "int (length acc) < maxRows" "rows_of cols acc"
    "length types = length cols" "\<forall>vs. Inr vs \<in> set qs \<longrightarrow> length vs = length cols"
  shows "int (length rows) \<le> maxRows \<and> rows_of cols rows \<and> length rows \<le> length acc + length qs"
  using assms
proof (induction cols types maxRows qs acc arbitrary: rows rule: read_rows.induct)
  case (3 cols types maxRows vs rest acc)
  obtain row where row: "row_values cols types vs = Some row" using 3(2) by (auto split: option.splits)
  have keys: "map fst row = cols" using row_values_keys [OF row] 3(5,6) by simp
  have acc: "rows_of cols (acc @ [VObj row])" using 3(4) keys by (auto simp: rows_of_def)
  show ?case
  proof (cases "int (length (acc @ [VObj row])) \<ge> maxRows")
    case True
    then show ?thesis using 3(2,3) row acc by (auto simp: Let_def)
  next
    case False
    then show ?thesis using 3(1) [OF row refl False, of rows] 3(2,5,6) row acc by (auto simp: Let_def)
  qed
qed auto

text \<open>
  C38: a query that succeeds returns at most \<^verbatim>\<open>max_rows\<close> rows, no more than the driver had, under distinct and well-formed
  column names, and every row has a value for exactly those columns in their order. The driver's rows and column types are as
  long as its columns, as \<^verbatim>\<open>database/sql\<close> makes them.
\<close>

theorem query_rows_are_bounded:
  assumes "queryDBValues Q maxRows = Inr (rows, cols)" "1 \<le> maxRows"
    "\<forall>types. qa_types Q = Inr types \<longrightarrow> length types = length cols"
    "\<forall>vs. Inr vs \<in> set (qa_rows Q) \<longrightarrow> length vs = length cols"
  shows "int (length rows) \<le> maxRows \<and> length rows \<le> length (qa_rows Q) \<and> distinct cols \<and> list_all utf8_valid cols
    \<and> rows_of cols rows"
proof -
  obtain types where q: "qa_columns Q = Inr cols" "qa_types Q = Inr types" "distinct cols" "list_all utf8_valid cols"
      "read_rows cols types maxRows (qa_rows Q) [] = Inr rows"
    using assms(1) unfolding queryDBValues_def by (auto split: option.splits sum.splits if_splits prod.splits)
  show ?thesis using read_rows_bounded [OF q(5)] assms(2-4) q(2-4) by (auto simp: rows_of_def)
qed

definition sample_query :: query_answer where
  "sample_query = \<lparr>qa_query = None, qa_columns = Inr [''id'', ''body''],
     qa_types = Inr [\<lparr>ct_DatabaseTypeName = ''number'', ct_DecimalSize = Some 0\<rparr>, \<lparr>ct_DatabaseTypeName = ''blob'', ct_DecimalSize = None\<rparr>],
     qa_rows = [Inr [DStr ''7'', DBytes ''a''], Inr [DNull, DNull], Inr [DOther, DOther]], qa_err = None, qa_close = None\<rparr>"

lemma sample_query_rows:
  "queryDBValues sample_query 2 =
     Inr ([VObj [(''id'', VInt 7), (''body'', VStr ''YQ=='')], VObj [(''id'', VNull), (''body'', VNull)]], [''id'', ''body''])"
  by code_simp

theorem query_rows_are_bounded_witness:
  "rows_of [''id'', ''body''] [VObj [(''id'', VInt 7), (''body'', VStr ''YQ=='')], VObj [(''id'', VNull), (''body'', VNull)]]"
  using query_rows_are_bounded [OF sample_query_rows] by (auto simp: sample_query_def)

definition sample_db :: db_env where
  "sample_db = \<lparr>conn_answer = None, begin_answer = None, exec_answer = None, rows_answer = Inr 3, commit_answer = None,
     rollback_answer = Rollback_failed, ends = None, watcher = False, commit_applied = True, rollback_survives = True\<rparr>"

definition sample_provider :: db_provider where
  "sample_provider = \<lparr>dp_driver = ''postgres'', dp_operation = ''update'', dp_sql = ''update t set v = :v'', dp_max_rows = 1, dp_max_affected_rows = Some 5\<rparr>"

lemma sample_mutation:
  "ExecutePublication sample_provider [''v'' \<mapsto> VInt 1] (\<lambda>_ _. sample_query) (\<lambda>_ _. sample_db) False (\<lambda>r. Inr (s_Data r)) (Effects_Start no_effects)
     = (one_effect Committed, [Take_conn, Begin_tx, Exec_sql, Commit_tx, Close_conn], Inr (VObj [(''count'', VInt 3)]))"
  "buildSQL (dp_driver sample_provider) (dp_sql sample_provider) [''v'' \<mapsto> VInt 1] = Inr (''update t set v = $1'', [VInt 1])"
  by code_simp+

theorem mutation_outcome_is_honest_witness:
  "honest sample_db (one_effect Committed) [Take_conn, Begin_tx, Exec_sql, Commit_tx, Close_conn]
     (Inr (VObj [(''count'', VInt 3)]) :: perr + val)"
  using mutation_outcome_is_honest [OF _ _ sample_mutation]
  by (auto simp: sample_provider_def sample_db_def lawful_def)

end
