(* ===== verification/Rate_Limit.thy ===== *)
theory Rate_Limit
  imports Prelude
begin

text \<open>
  The agent's per-capability rate limiter (\<^verbatim>\<open>src/internal/agent/rate_limit.go\<close>): a token bucket
  whose credit is counted in token-nanoseconds on \<^verbatim>\<open>int64\<close>. The arithmetic is kept at 64 bits; the
  lemmas show that it never wraps, that the clamped refill is the exact one, and that the bucket
  admits at most its burst plus its rate over any interval.
\<close>

section \<open>Definitions\<close>

record rate_limit_def =
  Requests :: int
  Per :: string
  Burst :: int

datatype lint_error =
  Requests_not_positive | Per_required | Per_invalid | Per_not_positive
| Burst_not_positive | Burst_and_per_too_large

text \<open>
  \<open>parse\<close> stands for \<^verbatim>\<open>time.ParseDuration\<close>. Go's integer division truncates, which is \<open>div\<close> on the
  positive operands the earlier checks leave.
\<close>

definition lint :: "(string \<Rightarrow> int option) \<Rightarrow> rate_limit_def \<Rightarrow> lint_error option" where
  "lint parse r =
     (if Requests r \<le> 0 then Some Requests_not_positive
      else if Per r = [] then Some Per_required
      else case parse (Per r) of
        None \<Rightarrow> Some Per_invalid
      | Some per \<Rightarrow>
          if per \<le> 0 then Some Per_not_positive
          else if Burst r \<le> 0 then Some Burst_not_positive
          else if Burst r > max_int64 div per then Some Burst_and_per_too_large
          else None)"

record limiter =
  credit :: int
  capacity :: int
  cost :: int
  refill :: int
  last_at :: time
  lastRejectionLog :: time
  rejectionLogged :: bool

text \<open>\<open>None\<close> is the panic of \<^verbatim>\<open>mustRateLimitDuration\<close>.\<close>

definition mustRateLimitDuration :: "(string \<Rightarrow> int option) \<Rightarrow> string \<Rightarrow> int option" where
  "mustRateLimitDuration parse raw =
     (case parse raw of None \<Rightarrow> None | Some d \<Rightarrow> if d \<le> 0 then None else Some d)"

text \<open>The zero \<^verbatim>\<open>time.Time\<close>, midnight of January 1 of the year 1.\<close>

definition zero_time :: time where
  "zero_time = -62135596800000000000"

definition newCapabilityRateLimiter ::
    "(string \<Rightarrow> int option) \<Rightarrow> rate_limit_def \<Rightarrow> time \<Rightarrow> limiter option" where
  "newCapabilityRateLimiter parse r now =
     (case mustRateLimitDuration parse (Per r) of
        None \<Rightarrow> None
      | Some per \<Rightarrow>
          (let cap = wrap64 (Burst r * per) in
           Some \<lparr>credit = cap, capacity = cap, cost = per, refill = Requests r, last_at = now,
                 lastRejectionLog = zero_time, rejectionLogged = False\<rparr>))"

definition rateLimitRejectionLogInterval :: int where
  "rateLimitRejectionLogInterval = minute"

text \<open>The refill half of \<^verbatim>\<open>take\<close>, on wrapping 64-bit operations.\<close>

definition take_refill :: "limiter \<Rightarrow> time \<Rightarrow> limiter" where
  "take_refill b now =
     (let elapsed = time_sub now (last_at b) in
      if elapsed > 0 then
        (let deficit = wrap64 (capacity b - credit b);
             b1 = (if deficit > 0 then
                     (let fillAfter = (if deficit mod refill b \<noteq> 0
                                       then wrap64 (deficit div refill b + 1)
                                       else deficit div refill b) in
                      if elapsed \<ge> fillAfter then b\<lparr>credit := capacity b\<rparr>
                      else b\<lparr>credit := wrap64 (credit b + wrap64 (elapsed * refill b))\<rparr>)
                   else b)
         in b1\<lparr>last_at := now\<rparr>)
      else b)"

definition take_limit :: "limiter \<Rightarrow> time \<Rightarrow> (bool \<times> bool) \<times> limiter" where
  "take_limit b0 now =
     (let b = take_refill b0 now in
      if credit b \<ge> cost b then ((True, False), b\<lparr>credit := wrap64 (credit b - cost b)\<rparr>)
      else if \<not> rejectionLogged b
              \<or> time_sub now (lastRejectionLog b) \<ge> rateLimitRejectionLogInterval
        then ((False, True), b\<lparr>lastRejectionLog := now, rejectionLogged := True\<rparr>)
      else ((False, False), b))"

section \<open>The contract of a token bucket\<close>

text \<open>Running a bucket over a list of request times: how many requests it admits.\<close>

fun admissions :: "('b \<Rightarrow> time \<Rightarrow> bool \<times> 'b) \<Rightarrow> 'b \<Rightarrow> time list \<Rightarrow> nat \<times> 'b" where
  "admissions tk b [] = (0, b)"
| "admissions tk b (t # ts) =
     (let (ok, b1) = tk b t; (n, b2) = admissions tk b1 ts in (if ok then Suc n else n, b2))"

lemma admissions_Cons:
  "admissions tk b (t # ts) =
     ((if fst (tk b t) then Suc (fst (admissions tk (snd (tk b t)) ts))
       else fst (admissions tk (snd (tk b t)) ts)), snd (admissions tk (snd (tk b t)) ts))"
  by (simp add: Let_def split: prod.splits)

declare admissions.simps(2) [simp del]

text \<open>
  What an admission check promises its callers: it charges \<open>price\<close> for each admitted request, its
  level grows by at most \<open>rate\<close> per nanosecond of clock and never passes \<open>limit\<close>, its clock never
  runs backwards, and it does not refuse a request the level covers.
\<close>

locale token_bucket =
  fixes tk :: "'b \<Rightarrow> time \<Rightarrow> bool \<times> 'b"
    and level :: "'b \<Rightarrow> int" and clock :: "'b \<Rightarrow> time"
    and price :: "'b \<Rightarrow> int" and limit :: "'b \<Rightarrow> int" and rate :: "'b \<Rightarrow> int"
    and inv :: "'b \<Rightarrow> bool"
  assumes tk_inv: "inv b \<Longrightarrow> inv (snd (tk b t))"
    and tk_price: "inv b \<Longrightarrow> price (snd (tk b t)) = price b"
    and tk_rate: "inv b \<Longrightarrow> rate (snd (tk b t)) = rate b"
    and tk_limit: "inv b \<Longrightarrow> limit (snd (tk b t)) = limit b"
    and tk_clock: "inv b \<Longrightarrow> clock (snd (tk b t)) = max (clock b) t"
    and rate_nonneg: "inv b \<Longrightarrow> 0 \<le> rate b"
    and level_bounds: "inv b \<Longrightarrow> 0 \<le> level b \<and> level b \<le> limit b"
    and tk_level: "inv b \<Longrightarrow>
      level (snd (tk b t)) + (if fst (tk b t) then price b else 0)
        = min (limit b) (level b + rate b * (max (clock b) t - clock b))"
    and tk_admits: "inv b \<Longrightarrow>
      fst (tk b t) \<longleftrightarrow> price b \<le> min (limit b) (level b + rate b * (max (clock b) t - clock b))"
begin

lemma admissions_inv: "inv b \<Longrightarrow> inv (snd (admissions tk b ts))"
  by (induction ts arbitrary: b) (auto simp: admissions_Cons intro: tk_inv)

lemma admissions_clock_mono: "inv b \<Longrightarrow> clock b \<le> clock (snd (admissions tk b ts))"
proof (induction ts arbitrary: b)
  case Nil
  then show ?case by simp
next
  case (Cons t ts)
  have "clock b \<le> clock (snd (tk b t))" using tk_clock [OF Cons.prems] by simp
  also have "\<dots> \<le> clock (snd (admissions tk (snd (tk b t)) ts))"
    by (rule Cons.IH) (rule tk_inv [OF Cons.prems])
  finally show ?case by (simp add: admissions_Cons)
qed

lemma admissions_clock: "inv b \<Longrightarrow> clock (snd (admissions tk b ts)) = fold max ts (clock b)"
proof (induction ts arbitrary: b)
  case Nil
  then show ?case by simp
next
  case (Cons t ts)
  then show ?case
    using Cons.IH [OF tk_inv [OF Cons.prems]]
    by (simp add: admissions_Cons tk_clock max.commute)
qed

text \<open>
  The bound a caller relies on: the price of everything admitted is covered by what was there at
  the start and what flowed in since.
\<close>

lemma admissions_bound:
  assumes "inv b"
  shows "int (fst (admissions tk b ts)) * price b + level (snd (admissions tk b ts))
    \<le> level b + rate b * (clock (snd (admissions tk b ts)) - clock b)"
  using assms
proof (induction ts arbitrary: b)
  case Nil
  then show ?case by simp
next
  case (Cons t ts)
  define b1 where "b1 = snd (tk b t)"
  have inv1: "inv b1" unfolding b1_def by (rule tk_inv [OF Cons.prems])
  have pr: "price b1 = price b" and rt: "rate b1 = rate b"
    and ck: "clock b1 = max (clock b) t"
    using Cons.prems by (simp_all add: b1_def tk_price tk_rate tk_clock)
  have one: "level b1 + (if fst (tk b t) then price b else 0)
      \<le> level b + rate b * (clock b1 - clock b)"
    unfolding ck using tk_level [OF Cons.prems, of t] by (simp add: b1_def)
  have rest: "int (fst (admissions tk b1 ts)) * price b + level (snd (admissions tk b1 ts))
      \<le> level b1 + rate b * (clock (snd (admissions tk b1 ts)) - clock b1)"
    using Cons.IH [OF inv1] by (simp add: pr rt)
  have adm: "admissions tk b (t # ts) =
      ((if fst (tk b t) then Suc (fst (admissions tk b1 ts)) else fst (admissions tk b1 ts)),
       snd (admissions tk b1 ts))"
    by (simp add: b1_def admissions_Cons)
  show ?case
    using one rest unfolding adm by (auto simp: algebra_simps split: if_splits)
qed

end

section \<open>The limiter keeps the contract\<close>

definition limiter_inv :: "limiter \<Rightarrow> bool" where
  "limiter_inv b \<longleftrightarrow> 0 \<le> credit b \<and> credit b \<le> capacity b \<and> in_int64 (capacity b)
     \<and> 0 < cost b \<and> cost b \<le> capacity b \<and> 0 < refill b \<and> in_int64 (refill b)"

text \<open>The refill over unbounded integers, with no clamp and no wrap-around.\<close>

definition exact_refill :: "limiter \<Rightarrow> time \<Rightarrow> limiter" where
  "exact_refill b now =
     b\<lparr>credit := min (capacity b) (credit b + refill b * (max (last_at b) now - last_at b)),
       last_at := max (last_at b) now\<rparr>"

lemma ceil_div_mult:
  fixes d r e :: int
  assumes "0 < r"
  shows "(if d mod r \<noteq> 0 then d div r + 1 else d div r) \<le> e \<longleftrightarrow> d \<le> e * r"
proof -
  have d: "d = d div r * r + d mod r" by simp
  have m: "0 \<le> d mod r" "d mod r < r" using assms by simp_all
  show ?thesis
  proof (cases "d mod r = 0")
    case True
    then have "d = d div r * r" using d by simp
    then show ?thesis using True assms by (metis mult_le_cancel_right_pos)
  next
    case False
    then have "0 < d mod r" using m by simp
    have "d div r + 1 \<le> e \<longleftrightarrow> d div r < e" by arith
    also have "\<dots> \<longleftrightarrow> d \<le> e * r"
    proof
      assume "d div r < e"
      then have "(d div r + 1) * r \<le> e * r" using assms by (simp add: mult_right_mono)
      moreover have "(d div r + 1) * r = d div r * r + r" by (simp add: algebra_simps)
      ultimately show "d \<le> e * r" using d m by linarith
    next
      assume "d \<le> e * r"
      then have "d div r * r < e * r" using d \<open>0 < d mod r\<close> by linarith
      then show "d div r < e" using assms by (simp add: mult_less_cancel_right)
    qed
    finally show ?thesis using False by simp
  qed
qed

lemma fill_after_range:
  fixes d r :: int
  assumes "0 < d" "0 < r" "in_int64 d"
  shows "in_int64 (d div r)" "d mod r \<noteq> 0 \<Longrightarrow> in_int64 (d div r + 1)"
proof -
  have nn: "0 \<le> d div r" using assms(1,2) by (simp add: pos_imp_zdiv_nonneg_iff)
  have le: "d div r \<le> d"
  proof (cases "r = 1")
    case False
    then have "1 < r" using assms(2) by simp
    then show ?thesis using int_div_less_self [OF assms(1)] by (simp add: less_imp_le)
  qed simp
  show "in_int64 (d div r)" using nn le assms(3) by (rule in_int64I)
  assume "d mod r \<noteq> 0"
  then have "r \<noteq> 1" by auto
  then have "1 < r" using assms(2) by simp
  then have "d div r < d" using assms(1) by (rule int_div_less_self [rotated])
  then show "in_int64 (d div r + 1)" using nn assms(3) by (simp add: in_int64I [of _ d])
qed

lemma take_refill_eq_exact:
  assumes "limiter_inv b"
  shows "take_refill b now = exact_refill b now"
proof (cases "last_at b < now")
  case False
  then show ?thesis
    using assms by (simp add: take_refill_def exact_refill_def limiter_inv_def Let_def max_def)
next
  case True
  define e where "e = time_sub now (last_at b)"
  define d where "d = capacity b - credit b"
  have inv: "0 \<le> credit b" "credit b \<le> capacity b" "in_int64 (capacity b)" "0 < refill b"
    using assms by (simp_all add: limiter_inv_def)
  have e: "0 < e" using True by (simp add: e_def)
  have d: "in_int64 d" using inv by (auto simp: d_def in_int64_def min_int64_def)
  have le: "e \<le> now - last_at b" using e by (auto simp: e_def time_sub_def min_int64_def)
  show ?thesis
  proof (cases "0 < d")
    case False
    then have "credit b = capacity b" using inv by (simp add: d_def)
    moreover have "0 \<le> refill b * (now - last_at b)" using inv True by simp
    ultimately show ?thesis using True d
      by (simp add: take_refill_def exact_refill_def Let_def d_def [symmetric] wrap64_id)
  next
    case pos: True
    define f where "f = (if d mod refill b \<noteq> 0 then d div refill b + 1 else d div refill b)"
    note rng = fill_after_range [OF pos inv(4) d]
    have f: "(if d mod refill b \<noteq> 0 then wrap64 (d div refill b + 1) else d div refill b) = f"
      using rng by (simp add: f_def wrap64_id)
    have fe: "f \<le> x \<longleftrightarrow> d \<le> x * refill b" for x
      unfolding f_def by (rule ceil_div_mult) (rule inv(4))
    show ?thesis
    proof (cases "f \<le> e")
      case full: True
      then have "d \<le> e * refill b" by (simp only: fe)
      also have "\<dots> \<le> (now - last_at b) * refill b"
        using le inv(4) by (intro mult_right_mono) simp_all
      finally have "d \<le> (now - last_at b) * refill b" .
      then have "capacity b \<le> credit b + refill b * (now - last_at b)"
        by (simp add: d_def algebra_simps)
      then show ?thesis using True d f full pos e
        by (simp add: take_refill_def exact_refill_def Let_def d_def [symmetric] e_def [symmetric]
            wrap64_id)
    next
      case part: False
      then have lt: "e * refill b < d" by (simp only: fe not_le)
      have "in_int64 f" using rng by (simp add: f_def)
      then have "f \<le> max_int64" by (simp add: in_int64_def)
      then have ex: "e = now - last_at b"
        using part e by (auto simp: e_def time_sub_def min_int64_def)
      have nn: "0 \<le> e * refill b" using e inv(4) by simp
      have er: "wrap64 (e * refill b) = e * refill b"
        using nn lt d by (simp add: wrap64_id in_int64I [of _ d])
      have below: "credit b + e * refill b < capacity b" using lt by (simp add: d_def)
      have cr: "wrap64 (credit b + e * refill b) = credit b + e * refill b"
        using nn below inv(1,3) by (simp add: wrap64_id in_int64I [of _ "capacity b"])
      have "take_refill b now = b\<lparr>credit := credit b + e * refill b, last_at := now\<rparr>"
        using True d f part pos e
        by (simp add: take_refill_def Let_def d_def [symmetric] e_def [symmetric] wrap64_id er cr)
      moreover have "exact_refill b now = b\<lparr>credit := credit b + e * refill b, last_at := now\<rparr>"
        using True below unfolding exact_refill_def ex by (simp add: mult.commute)
      ultimately show ?thesis by simp
    qed
  qed
qed

lemma exact_refill_inv:
  assumes "limiter_inv b"
  shows "limiter_inv (exact_refill b now)"
proof -
  have "0 \<le> refill b * (max (last_at b) now - last_at b)"
    using assms by (simp add: limiter_inv_def)
  then show ?thesis using assms by (simp add: limiter_inv_def exact_refill_def)
qed

lemma take_limit_charge:
  assumes "limiter_inv b"
  shows "wrap64 (credit (exact_refill b now) - cost (exact_refill b now))
    = credit (exact_refill b now) - cost (exact_refill b now)"
  using exact_refill_inv [OF assms, of now]
  by (intro wrap64_id) (auto simp: limiter_inv_def in_int64_def min_int64_def max_int64_def)

text \<open>The limiter's decision over unbounded integers.\<close>

lemma take_limit_exact:
  assumes "limiter_inv b"
  shows "take_limit b now =
    (let b' = exact_refill b now in
     if cost b' \<le> credit b' then ((True, False), b'\<lparr>credit := credit b' - cost b'\<rparr>)
     else if \<not> rejectionLogged b'
             \<or> time_sub now (lastRejectionLog b') \<ge> rateLimitRejectionLogInterval
       then ((False, True), b'\<lparr>lastRejectionLog := now, rejectionLogged := True\<rparr>)
     else ((False, False), b'))"
  by (simp add: take_limit_def take_refill_eq_exact [OF assms] take_limit_charge [OF assms] Let_def)

lemma take_limit_inv [inv_rules]:
  assumes "limiter_inv b"
  shows "limiter_inv (snd (take_limit b now))"
  using exact_refill_inv [OF assms, of now]
  by (simp add: take_limit_exact [OF assms] Let_def) (simp add: limiter_inv_def)

interpretation limiter_bucket: token_bucket
  "\<lambda>b now. (fst (fst (take_limit b now)), snd (take_limit b now))"
  credit last_at cost capacity refill limiter_inv
proof
  fix b :: limiter and t :: time
  assume b: "limiter_inv b"
  note defs = take_limit_exact [OF b] Let_def exact_refill_def
  show "limiter_inv (snd (fst (fst (take_limit b t)), snd (take_limit b t)))"
    using take_limit_inv [OF b] by simp
  show "cost (snd (fst (fst (take_limit b t)), snd (take_limit b t))) = cost b"
    and "refill (snd (fst (fst (take_limit b t)), snd (take_limit b t))) = refill b"
    and "capacity (snd (fst (fst (take_limit b t)), snd (take_limit b t))) = capacity b"
    and "last_at (snd (fst (fst (take_limit b t)), snd (take_limit b t))) = max (last_at b) t"
    by (simp_all add: defs)
  show "0 \<le> refill b" and "0 \<le> credit b \<and> credit b \<le> capacity b"
    using b by (simp_all add: limiter_inv_def)
  show "credit (snd (fst (fst (take_limit b t)), snd (take_limit b t)))
      + (if fst (fst (fst (take_limit b t)), snd (take_limit b t)) then cost b else 0)
    = min (capacity b) (credit b + refill b * (max (last_at b) t - last_at b))"
    by (simp add: defs)
  show "fst (fst (fst (take_limit b t)), snd (take_limit b t)) \<longleftrightarrow>
      cost b \<le> min (capacity b) (credit b + refill b * (max (last_at b) t - last_at b))"
    by (simp add: defs)
qed

section \<open>Properties\<close>

lemma lint_bounds:
  assumes "lint parse r = None" and "in_int64 (Requests r)"
  obtains per where "parse (Per r) = Some per" "0 < per" "0 < Requests r" "0 < Burst r"
    "in_int64 (Burst r * per)"
proof -
  from assms(1) obtain per where per: "parse (Per r) = Some per" "0 < per" "0 < Requests r"
    "0 < Burst r" "Burst r \<le> max_int64 div per"
    by (auto simp: lint_def split: if_splits option.splits)
  have "Burst r * per \<le> max_int64 div per * per"
    using per by (simp add: mult_right_mono)
  also have "\<dots> \<le> max_int64"
    using per(2) by (metis div_mult_mod_eq pos_mod_sign le_add_same_cancel1)
  finally have "in_int64 (Burst r * per)"
    using per(2,4) by (simp add: in_int64I [of _ max_int64])
  then show thesis using that per by blast
qed

lemma linted_limiter_starts_full:
  assumes "lint parse r = None" and "in_int64 (Requests r)"
    and "newCapabilityRateLimiter parse r now = Some b"
  shows "limiter_inv b \<and> credit b = Burst r * cost b \<and> refill b = Requests r \<and> last_at b = now
    \<and> parse (Per r) = Some (cost b)"
proof -
  obtain per where per: "parse (Per r) = Some per" "0 < per" "0 < Requests r" "0 < Burst r"
    "in_int64 (Burst r * per)" using lint_bounds [OF assms(1,2)] .
  have "per \<le> Burst r * per" using per by simp
  then show ?thesis using per assms(2,3)
    by (auto simp: newCapabilityRateLimiter_def mustRateLimitDuration_def Let_def wrap64_id
        limiter_inv_def)
qed

abbreviation limiter_admits :: "limiter \<Rightarrow> time \<Rightarrow> bool \<times> limiter" where
  "limiter_admits b now \<equiv> (fst (fst (take_limit b now)), snd (take_limit b now))"

text \<open>
  C11: a configuration that passes \<^verbatim>\<open>lint\<close> builds a limiter which, over any sequence of request times,
  admits at most \<open>burst\<close> requests plus \<open>requests\<close> per \<open>per\<close> of the time that has passed.
\<close>

theorem rate_limit_bound:
  assumes "lint parse r = None" and "in_int64 (Requests r)"
    and "newCapabilityRateLimiter parse r now = Some b"
    and "parse (Per r) = Some per"
  shows "int (fst (admissions limiter_admits b ts)) * per
    \<le> Burst r * per + Requests r * (fold max ts now - now)"
proof -
  have b: "limiter_inv b" "credit b = Burst r * per" "refill b = Requests r" "last_at b = now"
    "cost b = per"
    using linted_limiter_starts_full [OF assms(1-3)] assms(4) by auto
  have "0 \<le> credit (snd (admissions limiter_admits b ts))"
    using limiter_bucket.level_bounds [OF limiter_bucket.admissions_inv [OF b(1)]] by simp
  then show ?thesis
    using limiter_bucket.admissions_bound [OF b(1), of ts]
      limiter_bucket.admissions_clock [OF b(1), of ts] b by simp
qed

theorem rate_limit_bound_witness:
  "lint (\<lambda>_. Some 1000) \<lparr>Requests = 2, Per = ''1us'', Burst = 3\<rparr> = None
   \<and> (\<exists>b. newCapabilityRateLimiter (\<lambda>_. Some 1000) \<lparr>Requests = 2, Per = ''1us'', Burst = 3\<rparr> 0 = Some b
        \<and> int (fst (admissions limiter_admits b [0, 0, 0, 0, 500])) * 1000
          \<le> 3 * 1000 + 2 * (fold max [0, 0, 0, 0, 500] 0 - 0))"
proof -
  let ?r = "\<lparr>Requests = 2, Per = ''1us'', Burst = 3\<rparr>"
  have l: "lint (\<lambda>_. Some 1000) ?r = None"
    by (simp add: lint_def max_int64_def)
  have q: "in_int64 (Requests ?r)"
    by (simp add: in_int64_def min_int64_def max_int64_def)
  obtain b where n: "newCapabilityRateLimiter (\<lambda>_. Some 1000) ?r 0 = Some b"
    by (simp add: newCapabilityRateLimiter_def mustRateLimitDuration_def Let_def)
  show ?thesis
    using l n rate_limit_bound [OF l q n, of 1000 "[0, 0, 0, 0, 500]"] by auto
qed

text \<open>
  C16: on every state the limiter reaches, the 64-bit arithmetic of \<^verbatim>\<open>take\<close> decides exactly as the
  bucket over unbounded integers does: the ceiling division and the clamp lose nothing, and neither
  the product nor the sums wrap.
\<close>

theorem take_is_exact:
  assumes "limiter_inv b"
  shows "limiter_inv (snd (take_limit b now))
    \<and> (fst (fst (take_limit b now)) \<longleftrightarrow>
        cost b \<le> min (capacity b) (credit b + refill b * (max (last_at b) now - last_at b)))
    \<and> credit (snd (take_limit b now)) =
        min (capacity b) (credit b + refill b * (max (last_at b) now - last_at b))
          - (if fst (fst (take_limit b now)) then cost b else 0)"
  using take_limit_inv [OF assms, of now] limiter_bucket.tk_admits [OF assms, of now]
    limiter_bucket.tk_level [OF assms, of now]
  by simp

theorem take_is_exact_witness:
  "\<exists>b. limiter_inv b \<and> fst (fst (take_limit b 7)) \<and> credit (snd (take_limit b 7)) = 19"
proof -
  define b :: limiter where "b = \<lparr>credit = 8, capacity = 30, cost = 10, refill = 3, last_at = 0,
    lastRejectionLog = zero_time, rejectionLogged = False\<rparr>"
  have b: "limiter_inv b"
    by (simp add: b_def limiter_inv_def in_int64_def min_int64_def max_int64_def)
  show ?thesis
    using take_is_exact [OF b, of 7] b by (intro exI [of _ b]) (simp add: b_def)
qed

section \<open>Rejection sampling\<close>

text \<open>The times at which \<^verbatim>\<open>take\<close> asks its caller to log a rejection, over a sequence of requests.\<close>

fun logged_times :: "limiter \<Rightarrow> time list \<Rightarrow> time list" where
  "logged_times b [] = []"
| "logged_times b (t # ts) =
     (if snd (fst (take_limit b t)) then t # logged_times (snd (take_limit b t)) ts
      else logged_times (snd (take_limit b t)) ts)"

lemma take_refill_log [simp]:
  "rejectionLogged (take_refill b now) = rejectionLogged b"
  "lastRejectionLog (take_refill b now) = lastRejectionLog b"
  by (simp_all add: take_refill_def Let_def)

lemma minute_gap: "rateLimitRejectionLogInterval \<le> time_sub t u \<Longrightarrow> u + minute \<le> t"
  by (auto simp: time_sub_def rateLimitRejectionLogInterval_def minute_def min_int64_def)

lemma logged_after:
  "rejectionLogged b \<Longrightarrow> t \<in> set (logged_times b ts) \<Longrightarrow> lastRejectionLog b + minute \<le> t"
proof (induction ts arbitrary: b)
  case Nil
  then show ?case by simp
next
  case (Cons u ts)
  show ?case
  proof (cases "snd (fst (take_limit b u))")
    case True
    then have u: "lastRejectionLog b + minute \<le> u"
      "rejectionLogged (snd (take_limit b u))" "lastRejectionLog (snd (take_limit b u)) = u"
      using Cons.prems(1) by (auto simp: take_limit_def Let_def minute_gap split: if_splits)
    show ?thesis using Cons.prems(2) True u Cons.IH [OF u(2)] by (auto simp: minute_def)
  next
    case False
    then have "rejectionLogged (snd (take_limit b u))"
      "lastRejectionLog (snd (take_limit b u)) = lastRejectionLog b"
      using Cons.prems(1) by (auto simp: take_limit_def Let_def split: if_splits)
    with Cons.IH [OF this(1)] Cons.prems(2) False show ?thesis by simp
  qed
qed

text \<open>
  However many requests are rejected, and whatever clock readings arrive, two rejections sampled
  to the local log are at least a minute apart, so hostile traffic cannot flood it.
\<close>

theorem rejection_log_is_sampled:
  "sorted_wrt (\<lambda>t u. t + minute \<le> u) (logged_times b ts)"
proof (induction ts arbitrary: b)
  case Nil
  then show ?case by simp
next
  case (Cons t ts)
  have "\<forall>u \<in> set (logged_times (snd (take_limit b t)) ts). t + minute \<le> u"
    if "snd (fst (take_limit b t))"
    using that logged_after [of "snd (take_limit b t)" _ ts]
    by (auto simp: take_limit_def Let_def split: if_splits)
  then show ?case using Cons.IH by simp
qed

end
