(* ===== verification/Controller.thy ===== *)
theory Controller
  imports Mutations Rate_Limit Validation
begin

text \<open>
  The execution controller (\<^verbatim>\<open>src/internal/agent/controller.go\<close>): every request passes through a lease on its provider, the
  checks of its input, the capability's rate limit and the limit on concurrent executions; then the provider runs, its
  result is published, and what is told to the caller is decided. Requests run concurrently: the pieces of \<^verbatim>\<open>Execute\<close>
  between which others may act are steps of a machine.
\<close>

section \<open>Requests\<close>

record execution_request =
  rq_ID :: string
  rq_Capability :: string
  rq_DefinitionHash :: string
  rq_Params :: "(string \<times> val) list option"
  rq_Deadline :: "time option"
  rq_admitted :: bool
  rq_localOutput :: bool
  rq_input :: bool

definition executionMessage :: "string \<Rightarrow> string" where
  "executionMessage code =
     (if code = ''INVALID_REQUEST'' then ''request is invalid''
      else if code = ''VALIDATION_FAILED'' then ''input does not satisfy the configured contract''
      else if code = ''NOT_FOUND'' then ''capability is not available''
      else if code = ''CONFLICT'' then ''operation conflicts with current state''
      else if code = ''RATE_LIMITED'' then ''capability rate limit exceeded''
      else if code = ''BUSY'' then ''execution capacity is busy''
      else if code = ''EXECUTION_TIMEOUT'' then ''execution exceeded the configured deadline''
      else if code = ''OUTPUT_INVALID'' then ''output does not satisfy the configured contract''
      else if code = ''LIMIT_EXCEEDED'' then ''output exceeds the configured limit''
      else ''capability execution failed'')"

definition fail_with :: "effects \<Rightarrow> string \<Rightarrow> error_value" where
  "fail_with eff code = \<lparr>ev_Code = code, ev_Message = executionMessage code, ev_Reason = [], ev_Outcome = Outcome eff\<rparr>"

definition past :: "time option \<Rightarrow> time \<Rightarrow> bool" where
  "past deadline now = (case deadline of None \<Rightarrow> False | Some d \<Rightarrow> \<not> now < d)"

fun schemaHasFile :: "schema \<Rightarrow> bool" where
  "schemaHasFile (Schema ts ps ord pset items addl add req dflt dset nul cs file pat src norm isout) =
     (file \<noteq> None \<or> (case items of None \<Rightarrow> False | Some s \<Rightarrow> schemaHasFile s) \<or> list_ex (\<lambda>kv. schemaHasFile (snd kv)) ps)"

section \<open>The controller\<close>

text \<open>A request that is under way: the checks it has passed, whether it holds a slot, and its answer once it has one.\<close>

datatype exec_stage = Leased | Checked "(string \<times> val) list" | Rated "(string \<times> val) list" | Running "(string \<times> val) list" | Answered

record run_state =
  r_req :: execution_request
  r_cap :: capability
  r_stage :: exec_stage
  r_slot :: bool
  r_lease :: bool
  r_answer :: "(error_value + val) option"

record controller =
  ct_prepared :: prepared
  ct_active :: int
  ct_max :: int
  ct_rates :: "(string, limiter) go_map"
  ct_runs :: "(nat, run_state) go_map"

text \<open>A compiled policy has its rate limit with all three fields.\<close>

definition rate_of :: "capability \<Rightarrow> rate_limit_def option" where
  "rate_of c =
     (case map_of (c_Policy c) ''rate_limit'' of
        Some (VObj r) \<Rightarrow>
          (case (map_of r ''requests'', map_of r ''burst'', map_of r ''per'') of
             (Some (VInt n), Some (VInt b), Some (VStr per)) \<Rightarrow> Some \<lparr>Requests = n, Per = per, Burst = b\<rparr>
           | _ \<Rightarrow> None)
      | _ \<Rightarrow> None)"

fun make_rates :: "stdlib \<Rightarrow> time \<Rightarrow> prepared \<Rightarrow> string list \<Rightarrow> (string, limiter) go_map \<Rightarrow> string + (string, limiter) go_map" where
  "make_rates L now p [] rates = Inr rates"
| "make_rates L now p (name # names) rates =
     (case Prepared_Snapshot p name of
        None \<Rightarrow> Inl ''prepared execution is closed''
      | Some s \<Rightarrow>
          (case rate_of (s_cap s) of
             None \<Rightarrow> make_rates L now p names rates
           | Some r \<Rightarrow>
               (case (lint (ParseDuration L) r, newCapabilityRateLimiter (ParseDuration L) r now) of
                  (None, Some b) \<Rightarrow> make_rates L now p names (AList.update name b rates)
                | _ \<Rightarrow> Inl ''invalid rate limit'')))"

text \<open>\<open>maxConcurrent\<close> is \<^verbatim>\<open>max_concurrent_requests\<close> of the runtime section, if it is an integer.\<close>

definition NewExecutionController :: "stdlib \<Rightarrow> time \<Rightarrow> prepared option \<Rightarrow> int option \<Rightarrow> string + controller" where
  "NewExecutionController L now prep maxConcurrent =
     (case (prep, maxConcurrent) of
        (Some p, Some m) \<Rightarrow>
          if m < 1 then Inl ''invalid execution controller''
          else (case make_rates L now p (Names p) [] of
              Inl e \<Rightarrow> Inl e
            | Inr rates \<Rightarrow> Inr \<lparr>ct_prepared = p, ct_active = 0, ct_max = m, ct_rates = rates, ct_runs = []\<rparr>)
      | _ \<Rightarrow> Inl ''invalid execution controller'')"

section \<open>Admission\<close>

text \<open>A request's token, if its capability has a limit.\<close>

definition take_token :: "string \<Rightarrow> time \<Rightarrow> controller \<Rightarrow> bool \<times> controller" where
  "take_token name now c =
     (case map_of (ct_rates c) name of
        None \<Rightarrow> (True, c)
      | Some b \<Rightarrow> (case take_limit b now of ((allowed, _), b') \<Rightarrow> (allowed, c\<lparr>ct_rates := AList.update name b' (ct_rates c)\<rparr>)))"

definition admit :: "stdlib \<Rightarrow> time \<Rightarrow> execution_request \<Rightarrow> controller \<Rightarrow> controller \<times> (error_value + (string \<times> val) list)" where
  "admit L now rq c =
     (let fail = (\<lambda>code. Inl (fail_with no_effects code)) in
      if past (rq_Deadline rq) now then (c, fail ''EXECUTION_TIMEOUT'')
      else case Prepared_Snapshot (ct_prepared c) (rq_Capability rq) of
        None \<Rightarrow> (c, fail ''NOT_FOUND'')
      | Some s \<Rightarrow>
          if rq_DefinitionHash rq = [] then (c, fail ''INVALID_REQUEST'')
          else if rq_DefinitionHash rq \<noteq> s_hash s then (c, fail ''CONFLICT'')
          else if schemaHasFile (c_Input (s_cap s)) then (c, fail ''INVALID_REQUEST'')
          else (case ValidateInput L (c_Input (s_cap s)) (rq_Params rq) (Limits (s_cap s)) of
              Inl _ \<Rightarrow> (c, fail ''VALIDATION_FAILED'')
            | Inr (params, leaves) \<Rightarrow>
                if leaves \<noteq> [] then (c, fail ''VALIDATION_FAILED'')
                else (case take_token (rq_Capability rq) now c of
                    (True, c') \<Rightarrow> (c', Inr params)
                  | (False, c') \<Rightarrow> (c', fail ''RATE_LIMITED''))))"

section \<open>One execution\<close>

definition set_run :: "nat \<Rightarrow> run_state \<Rightarrow> controller \<Rightarrow> controller" where
  "set_run k r c = c\<lparr>ct_runs := AList.update k r (ct_runs c)\<rparr>"

definition answer :: "error_value + val \<Rightarrow> run_state \<Rightarrow> run_state" where
  "answer a r = r\<lparr>r_stage := Answered, r_answer := Some a\<rparr>"

definition answer_fail :: "string \<Rightarrow> run_state \<Rightarrow> run_state" where
  "answer_fail code = answer (Inl (fail_with no_effects code))"

text \<open>Up to the lease. A request refused before it has one is not under way.\<close>

definition exec_begin :: "nat \<Rightarrow> time \<Rightarrow> bool \<Rightarrow> execution_request \<Rightarrow> controller \<Rightarrow> controller \<times> error_value option" where
  "exec_begin k now ended rq c =
     (if ended \<or> past (rq_Deadline rq) now then (c, Some (fail_with no_effects ''EXECUTION_TIMEOUT''))
      else if rq_ID rq = [] \<or> length (rq_ID rq) > 256 \<or> \<not> utf8_valid (rq_ID rq) then (c, Some (fail_with no_effects ''INVALID_REQUEST''))
      else (case Acquire k (rq_Capability rq) (ct_prepared c) of
          (_, Inl _) \<Rightarrow> (c, Some (fail_with no_effects ''NOT_FOUND''))
        | (p, Inr s) \<Rightarrow>
            (set_run k \<lparr>r_req = rq, r_cap = s_cap s,
                r_stage = (if rq_DefinitionHash rq \<noteq> [] \<and> rq_DefinitionHash rq \<noteq> s_hash s then Answered else Leased),
                r_slot = False, r_lease = True,
                r_answer = (if rq_DefinitionHash rq \<noteq> [] \<and> rq_DefinitionHash rq \<noteq> s_hash s
                  then Some (Inl (fail_with no_effects ''CONFLICT'')) else None)\<rparr> (c\<lparr>ct_prepared := p\<rparr>), None)))"

text \<open>A compiled policy has its timeout as a text.\<close>

definition policy_timeout :: "stdlib \<Rightarrow> capability \<Rightarrow> int option" where
  "policy_timeout L c = (case map_of (c_Policy c) ''timeout'' of Some (VStr s) \<Rightarrow> ParseDuration L s | _ \<Rightarrow> None)"

definition max_timeout :: int where
  "max_timeout = 300000000000"

text \<open>The checks of the input; \<open>ended\<close> says that the execution's context has ended by the time they are done.\<close>

definition exec_check :: "stdlib \<Rightarrow> bool \<Rightarrow> run_state \<Rightarrow> run_state" where
  "exec_check L ended r =
     (case policy_timeout L (r_cap r) of
        None \<Rightarrow> answer_fail ''EXECUTION_FAILED'' r
      | Some d \<Rightarrow>
          if d \<le> 0 \<or> d > max_timeout then answer_fail ''EXECUTION_FAILED'' r
          else (case ValidateInput L (c_Input (r_cap r)) (rq_Params (r_req r)) (Limits (r_cap r)) of
              Inl _ \<Rightarrow> answer_fail (if ended then ''EXECUTION_TIMEOUT'' else ''VALIDATION_FAILED'') r
            | Inr (params, leaves) \<Rightarrow>
                if list_ex (\<lambda>l. file_RequestID (leaf_Value l) \<noteq> rq_ID (r_req r)) leaves then answer_fail ''VALIDATION_FAILED'' r
                else if ended then answer_fail ''EXECUTION_TIMEOUT'' r
                else r\<lparr>r_stage := Checked params\<rparr>))"

definition exec_rate :: "nat \<Rightarrow> time \<Rightarrow> run_state \<Rightarrow> (string \<times> val) list \<Rightarrow> controller \<Rightarrow> controller" where
  "exec_rate k now r params c =
     (if rq_admitted (r_req r) then set_run k (r\<lparr>r_stage := Rated params\<rparr>) c
      else (case take_token (rq_Capability (r_req r)) now c of
          (True, c') \<Rightarrow> set_run k (r\<lparr>r_stage := Rated params\<rparr>) c'
        | (False, c') \<Rightarrow> set_run k (answer_fail ''RATE_LIMITED'' r) c'))"

definition exec_slot :: "nat \<Rightarrow> run_state \<Rightarrow> (string \<times> val) list \<Rightarrow> controller \<Rightarrow> controller" where
  "exec_slot k r params c =
     (if ct_active c \<ge> ct_max c then set_run k (answer_fail ''BUSY'' r) c
      else set_run k (r\<lparr>r_stage := Running params, r_slot := True\<rparr>) (c\<lparr>ct_active := ct_active c + 1\<rparr>))"

section \<open>The provider's turn\<close>

text \<open>
  How a provider answers: it panics, it has published its own result (\<^verbatim>\<open>PublicationProvider\<close>), or it returns a result with
  or without an error. Each time with the effects it recorded.
\<close>

datatype provider_answer =
  Panicked effects
| Published effects "perr + val"
| Executed effects provider_result "perr option"

type_synonym provider = "(string \<times> val) list \<Rightarrow> effects \<Rightarrow> (provider_result \<Rightarrow> perr + val) \<Rightarrow> provider_answer"

text \<open>
  The answers of the surroundings: whether the context has ended before the start, when the provider returns, at the end of
  publication and during a panic, how the request's input answers, and the stages of publication.
\<close>

record exec_env =
  x_ended_start :: bool
  x_ended_provider :: bool
  x_ended_done :: bool
  x_ended_panic :: bool
  x_input_start :: bool
  x_input_context :: bool
  x_input_released :: bool
  x_output :: out_env

definition output_perr :: "output_error \<Rightarrow> perr" where
  "output_perr e =
     plain_err\<lparr>er_output := (case e of Output_invalid \<Rightarrow> Some ''OUTPUT_INVALID'' | Limit_exceeded \<Rightarrow> Some ''LIMIT_EXCEEDED'' | Cancelled \<Rightarrow> None)\<rparr>"

definition publish :: "stdlib \<Rightarrow> capability \<Rightarrow> execution_request \<Rightarrow> out_env \<Rightarrow> provider_result \<Rightarrow> perr + val" where
  "publish L c rq E result =
     (case snd (processOutput L c E result (\<not> rq_localOutput rq)) of Inl e \<Rightarrow> Inl (output_perr e) | Inr data \<Rightarrow> Inr data)"

text \<open>What \<^verbatim>\<open>errors.As\<close> finds decides, in this order.\<close>

definition uncertain_reason :: "perr \<Rightarrow> string option" where
  "uncertain_reason e =
     (case er_failure e of Some (code, reason) \<Rightarrow> if code = ''OUTCOME_UNKNOWN'' then Some reason else None | None \<Rightarrow> None)"

definition public_candidate :: "effects \<Rightarrow> perr \<Rightarrow> error_value option" where
  "public_candidate eff e =
     (case er_terminal e of
        Some (code, message) \<Rightarrow>
          if HasPrefix code ''APP_'' then Some \<lparr>ev_Code = code, ev_Message = message, ev_Reason = [], ev_Outcome = Outcome eff\<rparr> else None
      | None \<Rightarrow>
          (case er_failure e of
             Some (code, reason) \<Rightarrow> if HasPrefix code ''APP_'' then None else Some ((fail_with eff code)\<lparr>ev_Reason := reason\<rparr>)
           | None \<Rightarrow> None))"

definition public_failure :: "effects \<Rightarrow> bool \<Rightarrow> perr \<Rightarrow> error_value" where
  "public_failure eff ended e =
     (case uncertain_reason e of
        Some reason \<Rightarrow>
          (let public = (fail_with eff ''OUTCOME_UNKNOWN'')\<lparr>ev_Reason := reason\<rparr> in
           if ErrorValue_Validate public then public else public\<lparr>ev_Reason := []\<rparr>)
      | None \<Rightarrow>
          if ended then fail_with eff ''EXECUTION_TIMEOUT''
          else (case er_output e of
              Some code \<Rightarrow> fail_with eff code
            | None \<Rightarrow>
                (case public_candidate eff e of
                   Some candidate \<Rightarrow> if ErrorValue_Validate candidate then candidate else fail_with eff ''EXECUTION_FAILED''
                 | None \<Rightarrow> fail_with eff ''EXECUTION_FAILED'')))"

text \<open>An error still hands over the readers of the result: they are closed by publishing nothing of it.\<close>

definition suppressed :: "capability \<Rightarrow> capability" where
  "suppressed c = c\<lparr>c_Output := (c_Output c)\<lparr>o_Data := False, o_Files := None\<rparr>\<rparr>"

text \<open>The named results of \<^verbatim>\<open>Execute\<close>, how often a prepared output was closed, and what its publications did.\<close>

record body_result =
  b_effects :: effects
  b_out :: "val option"
  b_failure :: "error_value option"
  b_panic :: bool
  b_releases :: bool
  b_closed :: nat
  b_log :: "act list"

definition body_fail :: "effects \<Rightarrow> error_value \<Rightarrow> body_result" where
  "body_fail eff e = \<lparr>b_effects = eff, b_out = None, b_failure = Some e, b_panic = False, b_releases = False, b_closed = 0, b_log = []\<rparr>"

text \<open>The last check, with the output at hand.\<close>

definition deliver :: "effects \<Rightarrow> bool \<Rightarrow> val \<Rightarrow> body_result" where
  "deliver eff ended out =
     (if ended \<and> Outcome eff \<noteq> ''committed'' then (body_fail eff (fail_with eff ''EXECUTION_TIMEOUT''))\<lparr>b_closed := 1\<rparr>
      else \<lparr>b_effects = eff, b_out = Some out, b_failure = None, b_panic = False, b_releases = False, b_closed = 0, b_log = []\<rparr>)"

definition publication_failure :: "effects \<Rightarrow> bool \<Rightarrow> perr \<Rightarrow> error_value" where
  "publication_failure eff ended e =
     fail_with eff (if ended then ''EXECUTION_TIMEOUT'' else case er_output e of Some code \<Rightarrow> code | None \<Rightarrow> ''OUTPUT_INVALID'')"

definition provider_body :: "stdlib \<Rightarrow> capability \<Rightarrow> execution_request \<Rightarrow> exec_env \<Rightarrow> provider_answer \<Rightarrow> body_result" where
  "provider_body L c rq X a =
     (case a of
        Panicked eff \<Rightarrow> \<lparr>b_effects = eff, b_out = None, b_failure = None, b_panic = True, b_releases = False, b_closed = 0, b_log = []\<rparr>
      | Published eff (Inl e) \<Rightarrow> body_fail eff (public_failure eff (x_ended_provider X) e)
      | Published eff (Inr out) \<Rightarrow> deliver eff (x_ended_done X) out
      | Executed eff result (Some e) \<Rightarrow>
          (body_fail eff (public_failure eff (x_ended_provider X) e))
            \<lparr>b_log := p_log (fst (processOutput L (suppressed c) ((x_output X)\<lparr>stager_missing := True\<rparr>) result True))\<rparr>
      | Executed eff result None \<Rightarrow>
          (case publish L c rq (x_output X) result of
             Inl e \<Rightarrow> body_fail eff (publication_failure eff (x_ended_done X) e)
           | Inr out \<Rightarrow> deliver eff (x_ended_done X) out)
            \<lparr>b_log := p_log (fst (processOutput L c (x_output X) result (\<not> rq_localOutput rq)))\<rparr>)"

definition exec_body :: "stdlib \<Rightarrow> capability \<Rightarrow> execution_request \<Rightarrow> exec_env \<Rightarrow> provider \<Rightarrow> (string \<times> val) list \<Rightarrow> body_result" where
  "exec_body L c rq X prov params =
     (if x_ended_start X then body_fail no_effects (fail_with no_effects ''EXECUTION_TIMEOUT'')
      else if rq_input rq \<and> \<not> (x_input_start X \<and> x_input_context X)
      then body_fail no_effects (fail_with no_effects ''VALIDATION_FAILED'')
      else (provider_body L c rq X (prov params (Effects_Start no_effects) (publish L c rq (x_output X))))\<lparr>b_releases := rq_input rq\<rparr>)"

text \<open>The deferred functions, last registered first: the input's release, the recovery from a panic.\<close>

definition release_input :: "exec_env \<Rightarrow> body_result \<Rightarrow> body_result" where
  "release_input X b =
     (if b_releases b \<and> \<not> x_input_released X then
        b\<lparr>b_closed := b_closed b + (if b_out b \<noteq> None then 1 else 0), b_out := None,
          b_failure := (case b_failure b of None \<Rightarrow> Some (fail_with (b_effects b) ''EXECUTION_FAILED'') | f \<Rightarrow> f)\<rparr>
      else b)"

definition recover_panic :: "exec_env \<Rightarrow> body_result \<Rightarrow> body_result" where
  "recover_panic X b =
     (if b_panic b then
        b\<lparr>b_closed := b_closed b + (if b_out b \<noteq> None then 1 else 0), b_out := None,
          b_failure := Some (fail_with (b_effects b) (if x_ended_panic X then ''EXECUTION_TIMEOUT'' else ''EXECUTION_FAILED''))\<rparr>
      else b)"

definition exec_run :: "stdlib \<Rightarrow> exec_env \<Rightarrow> provider \<Rightarrow> run_state \<Rightarrow> (string \<times> val) list \<Rightarrow> body_result" where
  "exec_run L X prov r params = recover_panic X (release_input X (exec_body L (r_cap r) (r_req r) X prov params))"

definition result_of :: "body_result \<Rightarrow> error_value + val" where
  "result_of b = (case b_failure b of Some e \<Rightarrow> Inl e | None \<Rightarrow> Inr (case b_out b of Some v \<Rightarrow> v | None \<Rightarrow> VNull))"

section \<open>Concurrent executions\<close>

text \<open>
  What may happen next: a request arrives or is admitted ahead, one under way does its next piece, one that has its answer
  gives back its slot and then its lease, and the prepared providers are closed.
\<close>

datatype exec_event =
  X_admit time execution_request
| X_begin nat time bool execution_request
| X_check nat bool
| X_rate nat time
| X_slot nat
| X_run nat exec_env provider
| X_free nat
| X_release nat
| X_close
| X_drained "string list"

definition exec_next :: "stdlib \<Rightarrow> nat \<Rightarrow> run_state \<Rightarrow> exec_event \<Rightarrow> controller \<Rightarrow> controller" where
  "exec_next L k r e c =
     (case (e, r_stage r) of
        (X_check _ ended, Leased) \<Rightarrow> set_run k (exec_check L ended r) c
      | (X_rate _ now, Checked params) \<Rightarrow> exec_rate k now r params c
      | (X_slot _, Rated params) \<Rightarrow> exec_slot k r params c
      | (X_run _ X prov, Running params) \<Rightarrow> set_run k (answer (result_of (exec_run L X prov r params)) r) c
      | (X_free _, Answered) \<Rightarrow> if r_slot r then set_run k (r\<lparr>r_slot := False\<rparr>) (c\<lparr>ct_active := ct_active c - 1\<rparr>) else c
      | (X_release _, Answered) \<Rightarrow>
          if r_slot r \<or> \<not> r_lease r then c
          else set_run k (r\<lparr>r_lease := False\<rparr>) (c\<lparr>ct_prepared := Lease_Release k (ct_prepared c)\<rparr>)
      | _ \<Rightarrow> c)"

fun event_run :: "exec_event \<Rightarrow> nat option" where
  "event_run (X_check k _) = Some k"
| "event_run (X_rate k _) = Some k"
| "event_run (X_slot k) = Some k"
| "event_run (X_run k _ _) = Some k"
| "event_run (X_free k) = Some k"
| "event_run (X_release k) = Some k"
| "event_run _ = None"

fun exec_step :: "stdlib \<Rightarrow> controller \<Rightarrow> exec_event \<Rightarrow> controller" where
  "exec_step L c (X_admit now rq) = fst (admit L now rq c)"
| "exec_step L c (X_begin k now ended rq) =
     (if map_of (ct_runs c) k = None \<and> map_of (leases (ct_prepared c)) k = None then fst (exec_begin k now ended rq c) else c)"
| "exec_step L c X_close = c\<lparr>ct_prepared := Close_begin (ct_prepared c)\<rparr>"
| "exec_step L c (X_drained bad) = c\<lparr>ct_prepared := Close_end (\<lambda>name. name \<in> set bad) (ct_prepared c)\<rparr>"
| "exec_step L c e =
     (case event_run e of None \<Rightarrow> c
      | Some k \<Rightarrow> (case map_of (ct_runs c) k of None \<Rightarrow> c | Some r \<Rightarrow> exec_next L k r e c))"

section \<open>Public failures\<close>

definition message_ok :: "string \<Rightarrow> bool" where
  "message_ok m \<longleftrightarrow> utf8_valid m \<and> 1 \<le> length m \<and> length m \<le> 1024 \<and> list_all (\<lambda>r. \<not> is_control r) (runes m)"

lemma fixed_messages:
  "list_all message_ok
    [''request is invalid'', ''input does not satisfy the configured contract'', ''capability is not available'',
     ''operation conflicts with current state'', ''capability rate limit exceeded'', ''execution capacity is busy'',
     ''execution exceeded the configured deadline'', ''output does not satisfy the configured contract'',
     ''output exceeds the configured limit'', ''capability execution failed'']"
  by code_simp

lemma executionMessage_ok: "message_ok (executionMessage code)"
  using fixed_messages unfolding executionMessage_def by (simp split: if_splits)

lemma fail_with_valid: "code \<in> set systemErrorCodes \<Longrightarrow> ErrorValue_Validate (fail_with eff code)"
  using executionMessage_ok [of code] by (simp add: ErrorValue_Validate_def fail_with_def message_ok_def)

lemma fail_with_outcome [simp]: "ev_Outcome (fail_with eff code) = Outcome eff"
  by (simp add: fail_with_def)

lemma system_codes:
  "list_all (\<lambda>code. code \<in> set systemErrorCodes)
    [''EXECUTION_TIMEOUT'', ''EXECUTION_FAILED'', ''OUTCOME_UNKNOWN'', ''OUTPUT_INVALID'', ''LIMIT_EXCEEDED'', ''VALIDATION_FAILED'']"
  by code_simp

lemma system_code [simp]:
  "''EXECUTION_TIMEOUT'' \<in> set systemErrorCodes" "''EXECUTION_FAILED'' \<in> set systemErrorCodes"
  "''OUTCOME_UNKNOWN'' \<in> set systemErrorCodes" "''OUTPUT_INVALID'' \<in> set systemErrorCodes"
  "''LIMIT_EXCEEDED'' \<in> set systemErrorCodes" "''VALIDATION_FAILED'' \<in> set systemErrorCodes"
  using system_codes by simp_all

text \<open>An output error carries a system code.\<close>

definition codes_ok :: "perr \<Rightarrow> bool" where
  "codes_ok e \<longleftrightarrow> (\<forall>code. er_output e = Some code \<longrightarrow> code \<in> set systemErrorCodes)"

lemma fail_with_no_reason [simp]: "(fail_with eff code)\<lparr>ev_Reason := []\<rparr> = fail_with eff code"
  by (simp add: fail_with_def)

lemma public_failure_valid: "codes_ok e \<Longrightarrow> ErrorValue_Validate (public_failure eff ended e)"
  by (auto simp: public_failure_def codes_ok_def fail_with_valid Let_def split: option.splits)

lemma public_failure_outcome [simp]: "ev_Outcome (public_failure eff ended e) = Outcome eff"
  by (auto simp: public_failure_def public_candidate_def Let_def split: option.splits if_splits)

lemma output_perr_ok: "codes_ok (output_perr e)"
  by (cases e) (auto simp: codes_ok_def output_perr_def plain_err_def)

lemma publish_error: "publish L c rq E result = Inl e \<Longrightarrow> codes_ok e"
  by (auto simp: publish_def output_perr_ok split: sum.splits)

lemma publication_failure_valid:
  "codes_ok e \<Longrightarrow> ErrorValue_Validate (publication_failure eff ended e)" "ev_Outcome (publication_failure eff ended e) = Outcome eff"
  by (auto simp: publication_failure_def codes_ok_def fail_with_valid split: option.splits)

text \<open>
  The named results of an execution are one of the two: an output, or a failure that is a valid public error and carries the
  outcome of the recorded effects.
\<close>

definition body_ok :: "body_result \<Rightarrow> bool" where
  "body_ok b \<longleftrightarrow>
     (case b_failure b of
        Some e \<Rightarrow> b_out b = None \<and> ErrorValue_Validate e \<and> ev_Outcome e = Outcome (b_effects b)
      | None \<Rightarrow> b_panic b \<longleftrightarrow> b_out b = None)"

fun answer_ok :: "provider_answer \<Rightarrow> bool" where
  "answer_ok (Published eff (Inl e)) = codes_ok e"
| "answer_ok (Executed eff result (Some e)) = codes_ok e"
| "answer_ok _ = True"

lemma body_ok_log [simp]: "body_ok (b\<lparr>b_log := l\<rparr>) = body_ok b" "body_ok (b\<lparr>b_releases := x\<rparr>) = body_ok b"
  "body_ok (b\<lparr>b_closed := n\<rparr>) = body_ok b"
  by (simp_all add: body_ok_def split: option.splits)

lemma body_fail_ok: "ErrorValue_Validate e \<Longrightarrow> ev_Outcome e = Outcome eff \<Longrightarrow> body_ok (body_fail eff e)"
  by (simp add: body_ok_def body_fail_def)

lemma deliver_ok: "body_ok (deliver eff ended out)"
  by (simp add: deliver_def body_fail_ok fail_with_valid) (simp add: body_ok_def)

lemma provider_body_ok: "answer_ok a \<Longrightarrow> body_ok (provider_body L c rq X a)"
  by (cases a rule: answer_ok.cases)
    (auto simp: provider_body_def body_fail_ok public_failure_valid deliver_ok publication_failure_valid publish_error
       split: sum.splits option.splits, simp_all add: body_ok_def)

lemma exec_body_ok:
  "answer_ok (prov params (Effects_Start no_effects) (publish L c rq (x_output X))) \<Longrightarrow> body_ok (exec_body L c rq X prov params)"
  by (simp add: exec_body_def body_fail_ok fail_with_valid provider_body_ok)

lemma release_input_ok: "body_ok b \<Longrightarrow> body_ok (release_input X b)" "b_effects (release_input X b) = b_effects b"
  by (auto simp: release_input_def body_ok_def fail_with_valid split: option.splits)

lemma recover_panic_ok:
  assumes "body_ok b"
  shows "body_ok (recover_panic X b)" "b_failure (recover_panic X b) = None \<longleftrightarrow> b_out (recover_panic X b) \<noteq> None"
    "b_effects (recover_panic X b) = b_effects b"
  using assms by (auto simp: recover_panic_def body_ok_def fail_with_valid split: option.splits)

lemma exec_run_ok:
  assumes "answer_ok (prov params (Effects_Start no_effects) (publish L (r_cap r) (r_req r) (x_output X)))"
  shows "body_ok (exec_run L X prov r params)"
    "b_failure (exec_run L X prov r params) = None \<longleftrightarrow> b_out (exec_run L X prov r params) \<noteq> None"
  unfolding exec_run_def by (rule recover_panic_ok, rule release_input_ok, rule exec_body_ok, rule assms)+

section \<open>Slots and leases\<close>

definition slot_of :: "run_state \<Rightarrow> int" where
  "slot_of r = (if r_slot r then 1 else 0)"

text \<open>A request under way holds its lease, holds a slot exactly while its provider may run, and has no answer yet.\<close>

definition run_ok :: "run_state \<Rightarrow> bool" where
  "run_ok r \<longleftrightarrow>
     (case r_stage r of
        Answered \<Rightarrow> r_answer r \<noteq> None \<and> (r_slot r \<longrightarrow> r_lease r)
      | Running _ \<Rightarrow> r_lease r \<and> r_slot r \<and> r_answer r = None
      | _ \<Rightarrow> r_lease r \<and> \<not> r_slot r \<and> r_answer r = None)"

text \<open>The lease of a request is the one it acquired, and it is released when the request says so.\<close>

definition lease_matches :: "prepared \<Rightarrow> nat \<Rightarrow> run_state \<Rightarrow> bool" where
  "lease_matches p k r \<longleftrightarrow> map_of (leases p) k = Some (rq_Capability (r_req r), \<not> r_lease r)"

definition ctl_ok :: "controller \<Rightarrow> bool" where
  "ctl_ok c \<longleftrightarrow> prepared_ok (ct_prepared c) \<and> distinct_keys (ct_runs c)
     \<and> ct_active c = total_of slot_of (ct_runs c) \<and> ct_active c \<le> ct_max c
     \<and> (\<forall>k r. map_of (ct_runs c) k = Some r \<longrightarrow> run_ok r \<and> lease_matches (ct_prepared c) k r)"

lemma ctl_okD:
  assumes "ctl_ok c"
  shows "prepared_ok (ct_prepared c)" "distinct_keys (ct_runs c)" "ct_active c = total_of slot_of (ct_runs c)" "ct_active c \<le> ct_max c"
    "map_of (ct_runs c) k = Some r \<Longrightarrow> run_ok r" "map_of (ct_runs c) k = Some r \<Longrightarrow> lease_matches (ct_prepared c) k r"
  using assms by (auto simp: ctl_ok_def)

text \<open>One request moves on: its own record, its slot and its lease change, and nothing else does.\<close>

lemma set_run_ok:
  assumes c: "ctl_ok c" and k: "map_of (ct_runs c) k = Some r0"
    and p: "prepared_ok p" "\<And>l r. l \<noteq> k \<Longrightarrow> lease_matches p l r = lease_matches (ct_prepared c) l r"
    and r: "run_ok r" "lease_matches p k r" and a: "a = ct_active c - slot_of r0 + slot_of r" "a \<le> ct_max c"
  shows "ctl_ok (set_run k r (c\<lparr>ct_prepared := p, ct_active := a, ct_rates := rates\<rparr>))"
  unfolding ctl_ok_def set_run_def
proof (simp, intro conjI allI impI)
  show "prepared_ok p" "a \<le> ct_max c" by fact+
  show "distinct_keys (AList.update k r (ct_runs c))"
    using ctl_okD(2) [OF c] by (simp add: distinct_keys_def distinct_update)
  show "a = total_of slot_of (AList.update k r (ct_runs c))"
    using total_update [OF ctl_okD(2) [OF c] k] ctl_okD(3) [OF c] a(1) by simp
  fix l s
  assume "map_of (AList.update k r (ct_runs c)) l = Some s"
  then have l: "if l = k then s = r else map_of (ct_runs c) l = Some s" by (simp add: update_conv' split: if_splits)
  show "run_ok s" using l r(1) ctl_okD(5) [OF c] by (auto split: if_splits)
  show "lease_matches p l s" using l r(2) p(2) ctl_okD(6) [OF c] by (auto split: if_splits)
qed

text \<open>A step that keeps the slot and the lease of its request.\<close>

lemma set_run_keeps:
  assumes "ctl_ok c" "map_of (ct_runs c) k = Some r0" "run_ok r" "r_slot r = r_slot r0" "r_lease r = r_lease r0" "r_req r = r_req r0"
  shows "ctl_ok (set_run k r (c\<lparr>ct_rates := rates\<rparr>))"
proof -
  have "ctl_ok (set_run k r (c\<lparr>ct_prepared := ct_prepared c, ct_active := ct_active c, ct_rates := rates\<rparr>))"
    using assms ctl_okD [OF assms(1)] by (intro set_run_ok [OF assms(1,2)]) (auto simp: slot_of_def lease_matches_def)
  then show ?thesis by simp
qed

lemma set_run_keeps_all:
  assumes "ctl_ok c" "map_of (ct_runs c) k = Some r0" "run_ok r" "r_slot r = r_slot r0" "r_lease r = r_lease r0" "r_req r = r_req r0"
  shows "ctl_ok (set_run k r c)"
  using set_run_keeps [OF assms, of "ct_rates c"] by simp

lemma answer_run_ok: "run_ok r \<Longrightarrow> r_stage r \<noteq> Answered \<Longrightarrow> run_ok (answer a r)"
  by (auto simp: run_ok_def answer_def split: exec_stage.splits)

lemma answer_simps [simp]:
  "r_slot (answer a r) = r_slot r" "r_lease (answer a r) = r_lease r" "r_req (answer a r) = r_req r"
  by (simp_all add: answer_def)

lemma take_token_rates: "take_token name now c = (b, c') \<Longrightarrow> \<exists>rates. c' = c\<lparr>ct_rates := rates\<rparr>"
  by (auto simp: take_token_def split: option.splits prod.splits) (metis controller.surjective controller.update_convs(4))

lemma rates_ok [simp]: "ctl_ok (c\<lparr>ct_rates := rates\<rparr>) = ctl_ok c"
  by (simp add: ctl_ok_def)

lemma admit_ok: "ctl_ok c \<Longrightarrow> ctl_ok (fst (admit L now rq c))"
  by (auto simp: admit_def Let_def split: option.splits sum.splits prod.splits bool.splits dest!: take_token_rates)

lemma answer_fail_simps [simp]:
  "r_slot (answer_fail code r) = r_slot r" "r_lease (answer_fail code r) = r_lease r" "r_req (answer_fail code r) = r_req r"
  by (simp_all add: answer_fail_def)

lemma answer_fail_run_ok: "run_ok r \<Longrightarrow> r_stage r \<noteq> Answered \<Longrightarrow> run_ok (answer_fail code r)"
  by (simp add: answer_fail_def answer_run_ok)

lemma exec_check_cases:
  obtains code where "exec_check L ended r = answer_fail code r"
  | params where "exec_check L ended r = r\<lparr>r_stage := Checked params\<rparr>"
proof -
  have "(\<exists>code. exec_check L ended r = answer_fail code r) \<or> (\<exists>params. exec_check L ended r = r\<lparr>r_stage := Checked params\<rparr>)"
    unfolding exec_check_def
    by (cases "policy_timeout L (r_cap r)"; cases "ValidateInput L (c_Input (r_cap r)) (rq_Params (r_req r)) (Limits (r_cap r))")
      (simp_all split: prod.splits, (intro conjI impI allI exI disjI1 disjI2 refl | blast)+)
  then show thesis using that by blast
qed

lemma exec_check_ok:
  assumes "ctl_ok c" "map_of (ct_runs c) k = Some r" "r_stage r = Leased"
  shows "ctl_ok (set_run k (exec_check L ended r) c)"
proof (cases rule: exec_check_cases [of L ended r])
  case (1 code)
  then show ?thesis
    using set_run_keeps_all [OF assms(1,2)] answer_fail_run_ok [OF ctl_okD(5) [OF assms(1,2)]] assms(3) by simp
next
  case (2 params)
  have "run_ok (r\<lparr>r_stage := Checked params\<rparr>)" using ctl_okD(5) [OF assms(1,2)] assms(3) by (simp add: run_ok_def)
  then show ?thesis using 2 set_run_keeps_all [OF assms(1,2)] by simp
qed

lemma exec_rate_ok:
  assumes "ctl_ok c" "map_of (ct_runs c) k = Some r" "r_stage r = Checked params"
  shows "ctl_ok (exec_rate k now r params c)"
proof -
  have r: "run_ok (r\<lparr>r_stage := Rated params\<rparr>)" "run_ok (answer_fail ''RATE_LIMITED'' r)"
    using ctl_okD(5) [OF assms(1,2)] assms(3) answer_fail_run_ok [of r] by (simp_all) (simp add: run_ok_def)
  show ?thesis
    using set_run_keeps [OF assms(1,2) r(1)] set_run_keeps [OF assms(1,2) r(2)] set_run_keeps_all [OF assms(1,2) r(1)]
    by (auto simp: exec_rate_def split: prod.splits bool.splits dest!: take_token_rates)
qed

lemma exec_slot_ok:
  assumes "ctl_ok c" "map_of (ct_runs c) k = Some r" "r_stage r = Rated params"
  shows "ctl_ok (exec_slot k r params c)"
proof (cases "ct_active c \<ge> ct_max c")
  case True
  then show ?thesis
    using set_run_keeps_all [OF assms(1,2)] ctl_okD(5) [OF assms(1,2)] assms(3) answer_fail_run_ok [of r]
    by (simp add: exec_slot_def)
next
  case False
  let ?r = "r\<lparr>r_stage := Running params, r_slot := True\<rparr>"
  have r: "\<not> r_slot r" "run_ok ?r" using ctl_okD(5) [OF assms(1,2)] assms(3) by (auto simp: run_ok_def)
  have "ctl_ok (set_run k ?r (c\<lparr>ct_prepared := ct_prepared c, ct_active := ct_active c + 1, ct_rates := ct_rates c\<rparr>))"
    using r False ctl_okD [OF assms(1)] assms(2)
    by (intro set_run_ok [OF assms(1,2)]) (auto simp: slot_of_def lease_matches_def)
  then show ?thesis using False by (simp add: exec_slot_def)
qed

lemma exec_free_ok:
  assumes "ctl_ok c" "map_of (ct_runs c) k = Some r" "r_stage r = Answered" "r_slot r"
  shows "ctl_ok (set_run k (r\<lparr>r_slot := False\<rparr>) (c\<lparr>ct_active := ct_active c - 1\<rparr>))"
proof -
  have r: "run_ok (r\<lparr>r_slot := False\<rparr>)" using ctl_okD(5) [OF assms(1,2)] assms(3) by (auto simp: run_ok_def)
  have "ctl_ok (set_run k (r\<lparr>r_slot := False\<rparr>) (c\<lparr>ct_prepared := ct_prepared c, ct_active := ct_active c - 1, ct_rates := ct_rates c\<rparr>))"
    using r assms(2,4) ctl_okD [OF assms(1)] by (intro set_run_ok [OF assms(1,2)]) (auto simp: slot_of_def lease_matches_def)
  then show ?thesis by simp
qed

lemma Lease_Release_matches: "l \<noteq> k \<Longrightarrow> lease_matches (Lease_Release k p) l r = lease_matches p l r"
  by (auto simp: lease_matches_def Lease_Release_def update_conv' split: option.splits bool.splits)

lemma exec_release_ok:
  assumes "ctl_ok c" "map_of (ct_runs c) k = Some r" "r_stage r = Answered" "\<not> r_slot r" "r_lease r"
  shows "ctl_ok (set_run k (r\<lparr>r_lease := False\<rparr>) (c\<lparr>ct_prepared := Lease_Release k (ct_prepared c)\<rparr>))"
proof -
  have r: "run_ok (r\<lparr>r_lease := False\<rparr>)" using ctl_okD(5) [OF assms(1,2)] assms(3,4) by (auto simp: run_ok_def)
  have m: "lease_matches (Lease_Release k (ct_prepared c)) k (r\<lparr>r_lease := False\<rparr>)"
    using ctl_okD(6) [OF assms(1,2)] assms(5) by (auto simp: lease_matches_def Lease_Release_def update_conv')
  have "ctl_ok (set_run k (r\<lparr>r_lease := False\<rparr>)
      (c\<lparr>ct_prepared := Lease_Release k (ct_prepared c), ct_active := ct_active c, ct_rates := ct_rates c\<rparr>))"
    using r m assms(4) ctl_okD [OF assms(1)]
    by (intro set_run_ok [OF assms(1,2)]) (auto simp: slot_of_def Lease_Release_matches Lease_Release_ok)
  then show ?thesis by simp
qed

lemma exec_next_ok:
  assumes "ctl_ok c" "map_of (ct_runs c) k = Some r"
  shows "ctl_ok (exec_next L k r e c)"
  using assms set_run_keeps_all [OF assms answer_run_ok [OF ctl_okD(5) [OF assms]]]
  by (cases e; cases "r_stage r")
    (simp_all add: exec_next_def exec_check_ok exec_rate_ok exec_slot_ok exec_free_ok exec_release_ok)

lemma exec_begin_ok:
  assumes "ctl_ok c" "map_of (ct_runs c) k = None" "map_of (leases (ct_prepared c)) k = None"
  shows "ctl_ok (fst (exec_begin k now ended rq c))"
proof (cases "Acquire k (rq_Capability rq) (ct_prepared c)")
  case (Pair p a)
  have p: "prepared_ok p" using Acquire_ok [OF ctl_okD(1) [OF assms(1)] assms(3), of "rq_Capability rq"] Pair by simp
  have keeps: "lease_matches p l r = lease_matches (ct_prepared c) l r" if "l \<noteq> k" for l r
    using Pair that by (auto simp: Acquire_def lease_matches_def update_conv' split: if_splits option.splits)
  have "map_of (leases p) k = Some (rq_Capability rq, False)" if "a = Inr s" for s
    using Pair that by (auto simp: Acquire_def update_conv' split: if_splits option.splits)
  then have "ctl_ok (set_run k r (c\<lparr>ct_prepared := p\<rparr>))"
    if "a = Inr s" "run_ok r" "\<not> r_slot r" "r_lease r" "r_req r = rq" for s r
    using that p keeps assms ctl_okD [OF assms(1)] unfolding ctl_ok_def set_run_def
    by (auto simp: total_update_new slot_of_def distinct_keys_def distinct_update update_conv' lease_matches_def split: if_splits)
  then show ?thesis using assms(1) Pair
    by (cases a) (auto simp: exec_begin_def run_ok_def)
qed

lemma prepared_step_ok:
  assumes "ctl_ok c" "prepared_ok p" "leases p = leases (ct_prepared c)"
  shows "ctl_ok (c\<lparr>ct_prepared := p\<rparr>)"
  using assms by (auto simp: ctl_ok_def lease_matches_def)

lemma exec_step_ok: "ctl_ok c \<Longrightarrow> ctl_ok (exec_step L c e)"
proof (cases e)
  case X_close
  assume c: "ctl_ok c"
  have "prepared_ok (Close_begin (ct_prepared c))" using lease_step_ok [OF ctl_okD(1) [OF c], of Ev_close] by simp
  then show ?thesis unfolding X_close exec_step.simps by (rule prepared_step_ok [OF c]) (simp add: Close_begin_def)
next
  case (X_drained bad)
  assume c: "ctl_ok c"
  have "prepared_ok (Close_end (\<lambda>name. name \<in> set bad) (ct_prepared c))"
    using lease_step_ok [OF ctl_okD(1) [OF c], of "Ev_drained bad"] by simp
  then show ?thesis unfolding X_drained exec_step.simps
    by (rule prepared_step_ok [OF c]) (simp add: Close_end_def close_providers_def)
qed (auto simp: admit_ok exec_begin_ok exec_next_ok split: option.splits)

text \<open>A controller that was just created on providers that were just prepared.\<close>

definition new_controller :: "controller \<Rightarrow> bool" where
  "new_controller c \<longleftrightarrow> just_prepared (ct_prepared c) \<and> ct_active c = 0 \<and> 1 \<le> ct_max c \<and> ct_runs c = []"

lemma NewExecutionController_new:
  "NewExecutionController L now (Some p) m = Inr c \<Longrightarrow> just_prepared p \<Longrightarrow> new_controller c"
  by (auto simp: NewExecutionController_def new_controller_def split: option.splits if_splits sum.splits)

interpretation executions: component new_controller "exec_step L" ctl_ok for L
proof
  show "ctl_ok c" if "new_controller c" for c
    using that provider_leases.start_inv [of "ct_prepared c"] by (simp add: new_controller_def ctl_ok_def distinct_keys_def)
qed (rule exec_step_ok)

text \<open>The limit on concurrent executions and the order of preparation never change.\<close>

lemma exec_next_frame: "ct_max (exec_next L k r e c) = ct_max c \<and> order (ct_prepared (exec_next L k r e c)) = order (ct_prepared c)"
  by (cases e; cases "r_stage r")
    (auto simp: exec_next_def set_run_def exec_rate_def exec_slot_def Lease_Release_def
       split: prod.splits bool.splits option.splits dest!: take_token_rates)

lemma exec_step_frame: "ct_max (exec_step L c e) = ct_max c \<and> order (ct_prepared (exec_step L c e)) = order (ct_prepared c)"
  using exec_next_frame
  by (cases e) (auto simp: admit_def Let_def exec_begin_def set_run_def Acquire_def Close_begin_def Close_end_def close_providers_def
    split: prod.splits bool.splits option.splits sum.splits if_splits dest!: take_token_rates)

lemma exec_run_frame: "ct_max (run (exec_step L) c es) = ct_max c \<and> order (ct_prepared (run (exec_step L) c es)) = order (ct_prepared c)"
  by (induction es arbitrary: c) (auto simp: exec_step_frame)

section \<open>What concurrent executions keep\<close>

lemma released_when_drained:
  assumes "prepared_ok p" "active p = 0" "map_of (leases p) k = Some (name, released)"
  shows released
proof (rule ccontr)
  assume "\<not> released"
  then have "total_of lease_held (AList.update k (name, True) (leases p)) = total_of lease_held (leases p) - 1"
    using total_update [of "leases p" k "(name, released)" lease_held "(name, True)"] assms by (simp add: prepared_ok_def lease_held_def)
  moreover have "0 \<le> total_of lease_held (AList.update k (name, True) (leases p))"
    using assms(1) by (intro held_nonneg) (simp add: prepared_ok_def distinct_keys_def distinct_update)
  ultimately show False using assms by (simp add: prepared_ok_def)
qed

lemma slots_counted: "total_of slot_of m = int (length (filter (\<lambda>kr. r_slot (snd kr)) m))"
  by (induction m) (auto simp: slot_of_def)

text \<open>
  C3: however requests arrive, are checked, run and end, and whenever the providers are closed: the number of requests that
  hold a slot is the controller's counter and stays within \<^verbatim>\<open>max_concurrent_requests\<close>; a request whose provider may be running
  holds a slot and an unreleased lease; and the providers are closed only after every request has its answer and has given
  back its lease, each provider once, in the reverse of the order they were prepared in.
\<close>

theorem executions_are_bounded_and_leased:
  assumes "new_controller c0" "c = run (exec_step L) c0 es"
  shows "ct_active c = int (length (filter (\<lambda>kr. r_slot (snd kr)) (ct_runs c))) \<and> ct_active c \<le> ct_max c0
    \<and> (\<forall>k r params. map_of (ct_runs c) k = Some r \<and> r_stage r = Running params \<longrightarrow>
         r_slot r \<and> map_of (leases (ct_prepared c)) k = Some (rq_Capability (r_req r), False))
    \<and> (if phase (ct_prepared c) = Closed
       then p_closes (ct_prepared c) = rev (order (ct_prepared c0)) \<and> distinct (p_closes (ct_prepared c))
         \<and> (\<forall>k r. map_of (ct_runs c) k = Some r \<longrightarrow> r_stage r = Answered \<and> \<not> r_slot r \<and> \<not> r_lease r)
       else p_closes (ct_prepared c) = [])"
proof -
  have ok: "ctl_ok c" unfolding assms(2) by (rule executions.reachable_inv [OF assms(1)])
  have frame: "ct_max c = ct_max c0" "order (ct_prepared c) = order (ct_prepared c0)"
    using exec_run_frame assms(2) by simp_all
  have "\<not> r_lease r" if "phase (ct_prepared c) = Closed" "map_of (ct_runs c) k = Some r" for k r
  proof -
    have "active (ct_prepared c) = 0" using ctl_okD(1) [OF ok] that(1) by (simp add: prepared_ok_def)
    from released_when_drained [OF ctl_okD(1) [OF ok] this] ctl_okD(6) [OF ok that(2)]
    show ?thesis by (simp add: lease_matches_def)
  qed
  then have closed: "r_stage r = Answered \<and> \<not> r_slot r \<and> \<not> r_lease r"
    if "phase (ct_prepared c) = Closed" "map_of (ct_runs c) k = Some r" for k r
    using ctl_okD(5) [OF ok that(2)] that by (auto simp: run_ok_def split: exec_stage.splits)
  have running: "r_slot r \<and> map_of (leases (ct_prepared c)) k = Some (rq_Capability (r_req r), False)"
    if "map_of (ct_runs c) k = Some r" "r_stage r = Running params" for k r params
    using ctl_okD(5,6) [OF ok that(1)] that(2) by (auto simp: run_ok_def lease_matches_def)
  show ?thesis
    using ctl_okD(1,3,4) [OF ok] frame closed running unfolding slots_counted by (auto simp: prepared_ok_def)
qed

section \<open>A mutation through the controller\<close>

text \<open>The database provider as the controller calls it.\<close>

definition db_answer :: "db_provider \<Rightarrow> (string \<Rightarrow> val list \<Rightarrow> query_answer) \<Rightarrow> (string \<Rightarrow> val list \<Rightarrow> db_env) \<Rightarrow> bool \<Rightarrow> provider" where
  "db_answer p Q D ended params eff pub =
     (case ExecutePublication p (map_of params) Q D ended pub eff of (eff', _, r) \<Rightarrow> Published eff' r)"

definition provider_reached :: "exec_env \<Rightarrow> execution_request \<Rightarrow> bool" where
  "provider_reached X rq \<longleftrightarrow> \<not> x_ended_start X \<and> (rq_input rq \<longrightarrow> x_input_start X \<and> x_input_context X)"

lemma failure_codes_ok [simp]: "codes_ok (failure_err code reason)" "codes_ok (provider_failure driver ended e)" "codes_ok plain_err"
  by (simp_all add: codes_ok_def failure_err_def provider_failure_def plain_err_def)

lemma provider_rollback_codes: "codes_ok cause \<Longrightarrow> provider_rollback E d i cause eff = (eff', acts, f) \<Longrightarrow> codes_ok f"
  by (auto simp: provider_rollback_def split: if_splits)

definition publishes_ok :: "(provider_result \<Rightarrow> perr + 'o) \<Rightarrow> bool" where
  "publishes_ok pub \<longleftrightarrow> (\<forall>res e. pub res = Inl e \<longrightarrow> codes_ok e)"

lemma statement_body_codes:
  "publishes_ok pub \<Longrightarrow> statement_body driver E maxRows pub = Inl (f, b) \<Longrightarrow> codes_ok f"
  unfolding statement_body_def publishes_ok_def by (auto split: option.splits sum.splits if_splits)

lemma run_transaction_codes:
  assumes "publishes_ok pub" "run_transaction driver E maxRows pub canceled i eff = (eff', acts, Inl f)"
  shows "codes_ok f"
proof (cases canceled)
  case True
  then show ?thesis using assms(2)
    by (auto simp: run_transaction_def split: prod.splits intro: provider_rollback_codes [rotated])
next
  case False
  then show ?thesis using assms(2) statement_body_codes [OF assms(1), of driver E maxRows]
    by (auto simp: run_transaction_def split: sum.splits option.splits prod.splits intro: provider_rollback_codes [rotated])
qed

lemma run_mutation_codes:
  "publishes_ok pub \<Longrightarrow> run_mutation driver E maxRows pub eff = (eff', acts, Inl f) \<Longrightarrow> codes_ok f"
  unfolding run_mutation_def by (auto simp: Let_def split: prod.splits if_splits dest: run_transaction_codes)

lemma query_failure_codes: "queryDBValues Q m = Inl e \<Longrightarrow> codes_ok (query_failure driver ended e)"
proof -
  have read: "read_rows cols types m qs acc = Inl (Query_output code) \<Longrightarrow> code = ''OUTPUT_INVALID''" for cols types m qs acc code
    by (induction cols types m qs acc rule: read_rows.induct) (auto simp: Let_def split: option.splits if_splits)
  show "queryDBValues Q m = Inl e \<Longrightarrow> codes_ok (query_failure driver ended e)"
    by (auto simp: queryDBValues_def query_failure_def codes_ok_def provider_failure_def failure_err_def plain_err_def dest: read
      split: option.splits sum.splits if_splits query_error.splits prod.splits)
qed

lemma db_answer_ok:
  assumes "publishes_ok pub"
  shows "answer_ok (db_answer p Q D ended params eff pub)"
proof -
  have "codes_ok f" if "ExecutePublication p input Q D ended pub eff = (eff', acts, Inl f)" for input eff' acts f
    using that assms unfolding ExecutePublication_def db_Execute_def
    by (auto simp: publishes_ok_def split: if_splits sum.splits prod.splits
      dest: run_mutation_codes [OF assms] query_failure_codes)
  then show ?thesis
    by (cases "ExecutePublication p (map_of params) Q D ended pub eff"; cases "snd (snd (ExecutePublication p (map_of params) Q D ended pub eff))")
      (auto simp: db_answer_def)
qed

lemma publish_publishes_ok: "publishes_ok (publish L c rq E)"
  by (auto simp: publishes_ok_def publish_error)

lemma exec_run_effects:
  "b_effects (exec_run L X prov r params) =
     (if provider_reached X (r_req r)
      then (case prov params (Effects_Start no_effects) (publish L (r_cap r) (r_req r) (x_output X)) of
          Panicked eff \<Rightarrow> eff | Published eff _ \<Rightarrow> eff | Executed eff _ _ \<Rightarrow> eff)
      else no_effects)"
proof -
  have "b_effects (recover_panic X (release_input X b)) = b_effects b" for b
    by (simp add: recover_panic_def release_input_def)
  moreover have "b_effects (provider_body L c rq X a) = (case a of Panicked eff \<Rightarrow> eff | Published eff _ \<Rightarrow> eff | Executed eff _ _ \<Rightarrow> eff)" for c rq a
    by (auto simp: provider_body_def body_fail_def deliver_def split: provider_answer.splits sum.splits option.splits)
  ultimately show ?thesis by (auto simp: exec_run_def exec_body_def provider_reached_def body_fail_def)
qed

lemma exec_run_success:
  assumes "result_of (exec_run L X prov r params) = Inr v"
    "prov params (Effects_Start no_effects) (publish L (r_cap r) (r_req r) (x_output X)) = Published eff res"
  shows "provider_reached X (r_req r) \<and> res = Inr v"
  using assms
  by (cases res) (auto simp: exec_run_def exec_body_def provider_body_def deliver_def body_fail_def release_input_def recover_panic_def
    result_of_def provider_reached_def split: if_splits option.splits)

lemma no_effects_outcome [simp]: "Outcome no_effects = ''not_started''"
  by (simp add: Outcome_def no_effects_def)

text \<open>
  C2: what a caller is told of a mutation that ran through the controller agrees with the database. An output is only
  delivered when the change is in the database and is the publication of the row count. A failure is a valid public error
  whose outcome is the truth: committed means the change is there, even when the input could not be released or the
  deadline passed afterwards; not started, unchanged and rolled back mean that it is not. Relied on is only that a commit
  or rollback that reports success did happen.
\<close>

theorem caller_is_told_what_the_database_holds:
  assumes "\<And>q args. lawful (D q args)" "dp_operation p \<noteq> ''select''"
    "buildSQL (dp_driver p) (dp_sql p) (map_of params) = Inr (q, args)"
    "ExecutePublication p (map_of params) Q D ended (publish L (r_cap r) (r_req r) (x_output X)) (Effects_Start no_effects) = (eff, acts, res)"
    "did = (provider_reached X (r_req r) \<and> changed (D q args) acts)"
  shows "case result_of (exec_run L X (db_answer p Q D ended) r params) of
      Inr v \<Rightarrow> did \<and> res = Inr v
    | Inl e \<Rightarrow> ErrorValue_Validate e \<and> (ev_Outcome e = ''committed'' \<longrightarrow> did)
        \<and> (ev_Outcome e \<in> {''not_started'', ''no_change'', ''rolled_back''} \<longrightarrow> \<not> did)"
proof -
  let ?pub = "publish L (r_cap r) (r_req r) (x_output X)"
  let ?b = "exec_run L X (db_answer p Q D ended) r params"
  have run: "run_mutation (dp_driver p) (D q args) (dp_max_affected_rows p) ?pub (Effects_Start no_effects) = (eff, acts, res)"
    using assms(2-4) by (simp add: ExecutePublication_def)
  have honest: "honest (D q args) eff acts res" using run_mutation_honest [OF assms(1) run] by simp
  have ans: "db_answer p Q D ended params (Effects_Start no_effects) ?pub = Published eff res"
    using assms(4) by (simp add: db_answer_def)
  have ok: "body_ok ?b" "b_failure ?b = None \<longleftrightarrow> b_out ?b \<noteq> None"
    by (rule exec_run_ok, rule db_answer_ok, rule publish_publishes_ok)+
  have eff: "b_effects ?b = (if provider_reached X (r_req r) then eff else no_effects)"
    using ans by (simp add: exec_run_effects)
  show ?thesis
  proof (cases "result_of ?b")
    case (Inr v)
    have "provider_reached X (r_req r) \<and> res = Inr v" by (rule exec_run_success [OF Inr ans])
    moreover have "changed (D q args) acts" if "res = Inr v" using honest that by (auto simp: honest_def)
    ultimately show ?thesis using Inr assms(5) by simp
  next
    case (Inl e)
    then have "b_failure ?b = Some e" by (auto simp: result_of_def split: option.splits)
    then have "ErrorValue_Validate e" "ev_Outcome e = Outcome (if provider_reached X (r_req r) then eff else no_effects)"
      using ok(1) eff by (auto simp: body_ok_def)
    then show ?thesis using Inl honest assms(5) by (auto simp: honest_def)
  qed
qed

section \<open>Instances\<close>

definition sample_execution_request :: execution_request where
  "sample_execution_request = \<lparr>rq_ID = ''r1'', rq_Capability = ''report'', rq_DefinitionHash = [], rq_Params = None, rq_Deadline = Some 100,
     rq_admitted = False, rq_localOutput = False, rq_input = True\<rparr>"

definition sample_mutating :: capability where
  "sample_mutating = sample_capability\<lparr>c_Output := (c_Output sample_capability)\<lparr>o_Files := None\<rparr>\<rparr>"

definition sample_run :: run_state where
  "sample_run = \<lparr>r_req = sample_execution_request, r_cap = sample_mutating, r_stage = Running [(''v'', VInt 1)], r_slot = True, r_lease = True, r_answer = None\<rparr>"

text \<open>The deadline passes after the commit and the input cannot be released.\<close>

definition sample_exec :: exec_env where
  "sample_exec = \<lparr>x_ended_start = False, x_ended_provider = False, x_ended_done = True, x_ended_panic = False, x_input_start = True,
     x_input_context = True, x_input_released = False, x_output = sample_env None\<rparr>"

lemma sample_published: "publish sample_lib sample_mutating sample_execution_request (sample_env None) (count_result n) = Inr VNull"
  by (simp add: publish_def count_result_def sample_mutating_def sample_execution_request_def publication_defs sample_defs Let_def)

lemma sample_committed:
  "ExecutePublication sample_provider (map_of [(''v'', VInt 1)]) (\<lambda>_ _. sample_query) (\<lambda>_ _. sample_db) False
     (publish sample_lib (r_cap sample_run) (r_req sample_run) (x_output sample_exec)) (Effects_Start no_effects)
   = (one_effect Committed, [Take_conn, Begin_tx, Exec_sql, Commit_tx, Close_conn], Inr VNull)"
proof -
  have "buildSQL ''postgres'' ''update t set v = :v'' [''v'' \<mapsto> VInt 1] = Inr (''update t set v = $1'', [VInt 1])"
    using sample_mutation(2) by (simp add: sample_provider_def)
  then show ?thesis
    by (simp add: ExecutePublication_def sample_provider_def run_mutation_def beginMutationTx_def gate_canceled_def ctx_err_def sample_db_def
      one_effect_simps run_transaction_def statement_body_def sample_published sample_run_def sample_exec_def)
qed

theorem caller_is_told_what_the_database_holds_witness:
  "\<exists>e. result_of (exec_run sample_lib sample_exec (db_answer sample_provider (\<lambda>_ _. sample_query) (\<lambda>_ _. sample_db) False) sample_run [(''v'', VInt 1)])
      = Inl e \<and> ev_Outcome e = ''committed'' \<and> ErrorValue_Validate e
    \<and> changed sample_db [Take_conn, Begin_tx, Exec_sql, Commit_tx, Close_conn]"
proof -
  have lawful: "lawful sample_db" by (simp add: lawful_def sample_db_def)
  have sql: "buildSQL (dp_driver sample_provider) (dp_sql sample_provider) (map_of [(''v'', VInt 1)]) = Inr (''update t set v = $1'', [VInt 1])"
    using sample_mutation(2) by simp
  have reached: "provider_reached sample_exec (r_req sample_run)" by (simp add: provider_reached_def sample_exec_def)
  have run: "result_of (exec_run sample_lib sample_exec (db_answer sample_provider (\<lambda>_ _. sample_query) (\<lambda>_ _. sample_db) False) sample_run [(''v'', VInt 1)])
      = Inl (fail_with (one_effect Committed) ''EXECUTION_FAILED'')"
    using sample_committed reached
    by (simp add: exec_run_def exec_body_def provider_reached_def db_answer_def provider_body_def deliver_def one_effect_simps
      release_input_def recover_panic_def result_of_def)
       (simp add: sample_exec_def sample_run_def sample_execution_request_def)
  show ?thesis
    using caller_is_told_what_the_database_holds [where D = "\<lambda>_ _. sample_db", OF lawful _ sql sample_committed refl] run reached
    by (simp add: one_effect_simps sample_provider_def)
qed

definition sample_controller :: controller where
  "sample_controller =
     \<lparr>ct_prepared = \<lparr>entries = [(''report'', \<lparr>s_cap = sample_mutating, s_hash = ''h''\<rparr>)], order = [''report''], phase = Open, active = 0, leases = [],
        p_closes = [], p_closeErr = False\<rparr>, ct_active = 0, ct_max = 1, ct_rates = [], ct_runs = []\<rparr>"

text \<open>A request whose capability has no timeout; the providers are closed while it holds its lease, and the wait outlasts it.\<close>

definition sample_events :: "exec_event list" where
  "sample_events = [X_begin 1 5 False sample_execution_request, X_close, X_drained [], X_check 1 False, X_drained [], X_release 1, X_drained []]"

lemma sample_execution:
  "phase (ct_prepared (run (exec_step sample_lib) sample_controller (take 5 sample_events))) = Closing"
  "phase (ct_prepared (run (exec_step sample_lib) sample_controller sample_events)) = Closed"
  "order (ct_prepared sample_controller) = [''report'']"
proof -
  have id: "utf8_valid ''r1''" by code_simp
  note defs = sample_events_def sample_controller_def exec_begin_def sample_execution_request_def past_def Acquire_def set_run_def Close_begin_def
    Close_end_def close_providers_def exec_next_def exec_check_def policy_timeout_def sample_mutating_def sample_capability_def
    answer_fail_def answer_def Lease_Release_def id
  show "phase (ct_prepared (run (exec_step sample_lib) sample_controller (take 5 sample_events))) = Closing"
    "phase (ct_prepared (run (exec_step sample_lib) sample_controller sample_events)) = Closed"
    "order (ct_prepared sample_controller) = [''report'']"
    by (simp_all add: defs)
qed

theorem executions_are_bounded_and_leased_witness:
  "p_closes (ct_prepared (run (exec_step sample_lib) sample_controller (take 5 sample_events))) = []
   \<and> p_closes (ct_prepared (run (exec_step sample_lib) sample_controller sample_events)) = [''report'']"
proof -
  have new: "new_controller sample_controller" by (simp add: new_controller_def just_prepared_def sample_controller_def)
  show ?thesis
    using executions_are_bounded_and_leased [OF new refl, of sample_lib "take 5 sample_events"]
      executions_are_bounded_and_leased [OF new refl, of sample_lib sample_events] sample_execution by simp
qed

end
