(* ===== verification/Gateway_Auth.thy ===== *)
theory Gateway_Auth
  imports Result Rate_Limit
begin

text \<open>
  Authentication at the gateway (\<^verbatim>\<open>src/internal/gateway/auth.go\<close>, and the signed messages of \<^verbatim>\<open>protocol/protocol.go\<close>): one-time
  challenges for the agent, and API keys with a bounded cache of successful comparisons. Signatures, password hashes,
  digests and the decoding of header texts are parameters.
\<close>

section \<open>State\<close>

record api_key =
  k_Name :: string
  k_KeyHash :: string
  k_Capabilities :: "string list"

record cached_key =
  ck_key :: api_key
  ck_expires :: time
  ck_lastUsed :: time

text \<open>\<open>authSlots\<close> are the comparisons under way, with the token each of them checks.\<close>

record auth_state =
  agentChallenges :: "(string, time) go_map"
  nonces :: "(string, time) go_map"
  apiKeyCache :: "(string, cached_key) go_map"
  authSlots :: "(nat, string) go_map"

record auth_lib =
  raw_url_decode :: "string \<Rightarrow> string option"
  ed25519_Verify :: "string \<Rightarrow> string \<Rightarrow> string \<Rightarrow> bool"
  parse_RFC3339 :: "string \<Rightarrow> time option"
  token_digest :: "string \<Rightarrow> string"
  bcrypt_matches :: "string \<Rightarrow> string \<Rightarrow> bool"

definition maxAPIKeyCacheEntries :: nat where "maxAPIKeyCacheEntries = 1024"
definition maxConcurrentAPIKeyAuthentications :: nat where "maxConcurrentAPIKeyAuthentications = 4"
definition maxAgentChallenges :: nat where "maxAgentChallenges = 1024"
definition minute :: time where "minute = 60000000000"
definition agentChallengeTTL :: time where "agentChallengeTTL = minute"
definition apiKeyCacheTTL :: time where "apiKeyCacheTTL = 5 * minute"

definition empty_auth :: auth_state where
  "empty_auth = \<lparr>agentChallenges = [], nonces = [], apiKeyCache = [], authSlots = []\<rparr>"

section \<open>Challenges\<close>

definition cleanupAgentAuthState :: "time \<Rightarrow> auth_state \<Rightarrow> auth_state" where
  "cleanupAgentAuthState now s =
     s\<lparr>nonces := filter (\<lambda>kv. \<not> snd kv < now - 5 * minute) (nonces s),
       agentChallenges := filter (\<lambda>kv. \<not> snd kv < now - agentChallengeTTL) (agentChallenges s)\<rparr>"

text \<open>The oldest entry of a map that is iterated in some order; the zero time counts as no entry seen yet.\<close>

fun oldest_loop :: "(string \<times> time) list \<Rightarrow> string \<times> time \<Rightarrow> string" where
  "oldest_loop [] (k, t) = k"
| "oldest_loop ((k', t') # rest) (k, t) = (if t = zero_time \<or> t' < t then oldest_loop rest (k', t') else oldest_loop rest (k, t))"

definition in_order :: "'k list \<Rightarrow> ('k, 'v) go_map \<Rightarrow> ('k, 'v) go_map" where
  "in_order ks m = map (\<lambda>k. (k, the (map_of m k))) (filter (\<lambda>k. map_of m k \<noteq> None) (remdups (ks @ map fst m)))"

definition evictOldestChallenge :: "string list \<Rightarrow> auth_state \<Rightarrow> auth_state" where
  "evictOldestChallenge it s =
     s\<lparr>agentChallenges := AList.delete (oldest_loop (in_order it (agentChallenges s)) ([], zero_time)) (agentChallenges s)\<rparr>"

text \<open>A request for a challenge; \<open>it\<close> is the order the runtime iterates the table in.\<close>

definition issue_challenge :: "string \<Rightarrow> time \<Rightarrow> string list \<Rightarrow> auth_state \<Rightarrow> auth_state" where
  "issue_challenge challenge now it s =
     (let s1 = cleanupAgentAuthState now s;
          s2 = (if length (agentChallenges s1) \<ge> maxAgentChallenges then evictOldestChallenge it s1 else s1)
      in s2\<lparr>agentChallenges := AList.update challenge now (agentChallenges s2)\<rparr>)"

definition takeAgentCredentials :: "string \<Rightarrow> string \<Rightarrow> time \<Rightarrow> time \<Rightarrow> auth_state \<Rightarrow> bool \<times> auth_state" where
  "takeAgentCredentials challenge nonce ts now s =
     (let s1 = cleanupAgentAuthState now s in
      case map_of (agentChallenges s1) challenge of
        None \<Rightarrow> (False, s1)
      | Some issued \<Rightarrow>
          if now - issued > agentChallengeTTL \<or> map_of (nonces s1) nonce \<noteq> None then (False, s1)
          else (True, s1\<lparr>agentChallenges := AList.delete challenge (agentChallenges s1), nonces := AList.update nonce ts (nonces s1)\<rparr>))"

section \<open>Signed requests\<close>

record agent_headers =
  h_Path :: string
  h_Timestamp :: string
  h_Nonce :: string
  h_Signature :: string
  h_Challenge :: string
  h_HandshakeKey :: string

definition newline :: string where "newline = [char_of (10 :: nat)]"

definition AgentAuthMessage :: "string \<Rightarrow> string \<Rightarrow> string \<Rightarrow> string \<Rightarrow> string \<Rightarrow> string" where
  "AgentAuthMessage path timestamp nonce challenge handshakeKey =
     ''onprest-agent-v2'' @ newline @ path @ newline @ timestamp @ newline @ nonce @ newline @ challenge @ newline @ handshakeKey"

definition AgentVerifyAuthMessage :: "string \<Rightarrow> string \<Rightarrow> string \<Rightarrow> string \<Rightarrow> string" where
  "AgentVerifyAuthMessage path timestamp nonce challenge =
     ''onprest-agent-verify-v1'' @ newline @ path @ newline @ timestamp @ newline @ nonce @ newline @ challenge"

text \<open>What both kinds of request share: the key, the time window and the form of the signature.\<close>

definition signed_request :: "auth_lib \<Rightarrow> string \<Rightarrow> time \<Rightarrow> agent_headers \<Rightarrow> (string \<times> time \<times> string) option" where
  "signed_request A publicKey now h =
     (case (raw_url_decode A publicKey, parse_RFC3339 A (h_Timestamp h), raw_url_decode A (h_Signature h)) of
        (Some key, Some ts, Some signature) \<Rightarrow>
          if length key \<noteq> 32 \<or> h_Timestamp h = [] \<or> h_Nonce h = [] \<or> h_Challenge h = [] \<or> h_Signature h = []
            \<or> now - ts < - minute \<or> now - ts > 5 * minute \<or> length signature \<noteq> 64 then None
          else Some (key, ts, signature)
      | _ \<Rightarrow> None)"

definition authenticateAgent :: "auth_lib \<Rightarrow> string \<Rightarrow> time \<Rightarrow> time \<Rightarrow> agent_headers \<Rightarrow> auth_state \<Rightarrow> bool \<times> auth_state" where
  "authenticateAgent A publicKey now1 now2 h s =
     (case signed_request A publicKey now1 h of
        None \<Rightarrow> (False, s)
      | Some (key, ts, signature) \<Rightarrow>
          if h_HandshakeKey h = []
            \<or> \<not> ed25519_Verify A key (AgentAuthMessage (h_Path h) (h_Timestamp h) (h_Nonce h) (h_Challenge h) (h_HandshakeKey h)) signature
          then (False, s)
          else takeAgentCredentials (h_Challenge h) (h_Nonce h) ts now2 s)"

definition authenticateAgentVerify :: "auth_lib \<Rightarrow> string \<Rightarrow> time \<Rightarrow> time \<Rightarrow> agent_headers \<Rightarrow> auth_state \<Rightarrow> bool \<times> auth_state" where
  "authenticateAgentVerify A publicKey now1 now2 h s =
     (case signed_request A publicKey now1 h of
        None \<Rightarrow> (False, s)
      | Some (key, ts, signature) \<Rightarrow>
          if h_HandshakeKey h \<noteq> [] \<or> h_Path h \<noteq> ''/ws/agent/verify''
            \<or> \<not> ed25519_Verify A key (AgentVerifyAuthMessage (h_Path h) (h_Timestamp h) (h_Nonce h) (h_Challenge h)) signature
          then (False, s)
          else takeAgentCredentials (h_Challenge h) (h_Nonce h) ts now2 s)"

section \<open>API keys\<close>

datatype auth_answer = Granted api_key | Unauthorized | Busy_auth

definition request_token :: "string \<Rightarrow> string \<Rightarrow> string" where
  "request_token authorization x_api_key =
     (let token = (if HasPrefix authorization ''Bearer '' then drop 7 authorization else authorization) in if token = [] then x_api_key else token)"

definition cachedAPIKey :: "string \<Rightarrow> time \<Rightarrow> auth_state \<Rightarrow> api_key option \<times> auth_state" where
  "cachedAPIKey digest now s =
     (case map_of (apiKeyCache s) digest of
        Some e \<Rightarrow>
          if now > ck_expires e then (None, s\<lparr>apiKeyCache := AList.delete digest (apiKeyCache s)\<rparr>)
          else (Some (ck_key e), s\<lparr>apiKeyCache := AList.update digest (e\<lparr>ck_lastUsed := now\<rparr>) (apiKeyCache s)\<rparr>)
      | None \<Rightarrow> (None, s\<lparr>apiKeyCache := AList.delete digest (apiKeyCache s)\<rparr>))"

definition cacheAPIKey :: "string \<Rightarrow> api_key \<Rightarrow> time \<Rightarrow> string list \<Rightarrow> auth_state \<Rightarrow> auth_state" where
  "cacheAPIKey digest key now it s =
     (let c1 = filter (\<lambda>kv. \<not> now > ck_expires (snd kv)) (apiKeyCache s);
          c2 = (if length c1 \<ge> maxAPIKeyCacheEntries
                then AList.delete (oldest_loop (map (\<lambda>(k, e). (k, ck_lastUsed e)) (in_order it c1)) ([], zero_time)) c1 else c1)
      in s\<lparr>apiKeyCache := AList.update digest \<lparr>ck_key = key, ck_expires = now + apiKeyCacheTTL, ck_lastUsed = now\<rparr> c2\<rparr>)"

text \<open>\<^verbatim>\<open>authenticate\<close> up to its slot, and from there with the comparison; between the two other requests may act.\<close>

definition authenticate_begin :: "auth_lib \<Rightarrow> nat \<Rightarrow> string \<Rightarrow> time \<Rightarrow> auth_state \<Rightarrow> auth_answer option \<times> auth_state" where
  "authenticate_begin A k token now s =
     (if token = [] then (Some Unauthorized, s)
      else case cachedAPIKey (token_digest A token) now s of
        (Some key, s1) \<Rightarrow> (Some (Granted key), s1)
      | (None, s1) \<Rightarrow>
          if length (authSlots s1) \<ge> maxConcurrentAPIKeyAuthentications then (Some Busy_auth, s1)
          else (None, s1\<lparr>authSlots := AList.update k token (authSlots s1)\<rparr>))"

definition authenticate_end :: "auth_lib \<Rightarrow> api_key list \<Rightarrow> nat \<Rightarrow> string \<Rightarrow> time \<Rightarrow> time \<Rightarrow> string list \<Rightarrow> auth_state \<Rightarrow> auth_answer \<times> auth_state" where
  "authenticate_end A keys k token now1 now2 it s =
     (let digest = token_digest A token; free = (\<lambda>s. s\<lparr>authSlots := AList.delete k (authSlots s)\<rparr>) in
      case cachedAPIKey digest now1 s of
        (Some key, s1) \<Rightarrow> (Granted key, free s1)
      | (None, s1) \<Rightarrow>
          (case List.find (\<lambda>key. bcrypt_matches A (k_KeyHash key) token) keys of
             Some key \<Rightarrow> (Granted key, free (cacheAPIKey digest key now2 it s1))
           | None \<Rightarrow> (Unauthorized, free s1)))"

definition allowed :: "api_key \<Rightarrow> string \<Rightarrow> bool" where
  "allowed key cap = list_ex (\<lambda>v. v = ''*'' \<or> v = cap) (k_Capabilities key)"

section \<open>Sequences of requests\<close>

datatype auth_event =
  Ask_challenge string time "string list"
| Agent_connects time time agent_headers
| Agent_verifies time time agent_headers
| Key_begin nat string time
| Key_end nat time time "string list"

text \<open>What has happened: the challenges issued, the ones a signed request was let in with, and the keys granted to tokens.\<close>

record auth_history =
  hist_issued :: "(string \<times> time) list"
  hist_accepted :: "(string \<times> time) list"
  hist_granted :: "(string \<times> api_key) list"

definition grant :: "string \<Rightarrow> auth_answer \<Rightarrow> auth_history \<Rightarrow> auth_history" where
  "grant token a h = (case a of Granted key \<Rightarrow> h\<lparr>hist_granted := (token, key) # hist_granted h\<rparr> | _ \<Rightarrow> h)"

definition accept :: "string \<Rightarrow> time \<Rightarrow> bool \<Rightarrow> auth_history \<Rightarrow> auth_history" where
  "accept challenge now ok h = (if ok then h\<lparr>hist_accepted := (challenge, now) # hist_accepted h\<rparr> else h)"

fun auth_step :: "auth_lib \<Rightarrow> string \<Rightarrow> api_key list \<Rightarrow> auth_state \<times> auth_history \<Rightarrow> auth_event \<Rightarrow> auth_state \<times> auth_history" where
  "auth_step A pk keys (s, h) (Ask_challenge c now it) = (issue_challenge c now it s, h\<lparr>hist_issued := (c, now) # hist_issued h\<rparr>)"
| "auth_step A pk keys (s, h) (Agent_connects now1 now2 rq) =
     (case authenticateAgent A pk now1 now2 rq s of (ok, s') \<Rightarrow> (s', accept (h_Challenge rq) now2 ok h))"
| "auth_step A pk keys (s, h) (Agent_verifies now1 now2 rq) =
     (case authenticateAgentVerify A pk now1 now2 rq s of (ok, s') \<Rightarrow> (s', accept (h_Challenge rq) now2 ok h))"
| "auth_step A pk keys (s, h) (Key_begin k token now) =
     (if map_of (authSlots s) k \<noteq> None then (s, h)
      else case authenticate_begin A k token now s of (None, s') \<Rightarrow> (s', h) | (Some a, s') \<Rightarrow> (s', grant token a h))"
| "auth_step A pk keys (s, h) (Key_end k now1 now2 it) =
     (case map_of (authSlots s) k of
        None \<Rightarrow> (s, h)
      | Some token \<Rightarrow> (case authenticate_end A keys k token now1 now2 it s of (a, s') \<Rightarrow> (s', grant token a h)))"

section \<open>Challenges are used once\<close>

definition challenges_ok :: "auth_state \<times> auth_history \<Rightarrow> bool" where
  "challenges_ok sh \<longleftrightarrow>
     distinct_keys (agentChallenges (fst sh)) \<and> length (agentChallenges (fst sh)) \<le> maxAgentChallenges
     \<and> set (agentChallenges (fst sh)) \<subseteq> set (hist_issued (snd sh))
     \<and> (\<forall>c. count_list (map fst (hist_accepted (snd sh))) c + (if map_of (agentChallenges (fst sh)) c = None then 0 else 1)
          \<le> count_list (map fst (hist_issued (snd sh))) c)
     \<and> (\<forall>(c, now) \<in> set (hist_accepted (snd sh)). \<exists>t. (c, t) \<in> set (hist_issued (snd sh)) \<and> now - t \<le> agentChallengeTTL)"

lemma challenges_okD:
  assumes "challenges_ok (s, h)"
  shows "distinct_keys (agentChallenges s)" "length (agentChallenges s) \<le> maxAgentChallenges"
    "set (agentChallenges s) \<subseteq> set (hist_issued h)"
    "count_list (map fst (hist_accepted h)) c + (if map_of (agentChallenges s) c = None then 0 else 1)
       \<le> count_list (map fst (hist_issued h)) c"
    "(c, now) \<in> set (hist_accepted h) \<Longrightarrow> \<exists>t. (c, t) \<in> set (hist_issued h) \<and> now - t \<le> agentChallengeTTL"
  using assms unfolding challenges_ok_def by auto

text \<open>Steps that only take challenges away, without accepting one.\<close>

lemma fewer_challenges_ok:
  assumes ok: "challenges_ok (s, h)" and sub: "set (agentChallenges s') \<subseteq> set (agentChallenges s)" "distinct_keys (agentChallenges s')"
    "length (agentChallenges s') \<le> length (agentChallenges s)"
  shows "challenges_ok (s', h)"
proof -
  have keys: "map_of (agentChallenges s) c = None \<Longrightarrow> map_of (agentChallenges s') c = None" for c
    using sub(1) by (auto simp: map_of_eq_None_iff)
  have "count_list (map fst (hist_accepted h)) c + (if map_of (agentChallenges s') c = None then 0 else 1)
      \<le> count_list (map fst (hist_issued h)) c" for c
    using challenges_okD(4) [OF ok, of c] keys [of c] by (cases "map_of (agentChallenges s) c = None") (simp, auto split: if_splits)
  then show ?thesis using sub challenges_okD(2,3,5) [OF ok] unfolding challenges_ok_def by auto
qed

lemma cleanup_ok:
  assumes "challenges_ok (s, h)"
  shows "challenges_ok (cleanupAgentAuthState now s, h)"
  using challenges_okD(1) [OF assms]
  by (intro fewer_challenges_ok [OF assms]) (auto simp: cleanupAgentAuthState_def distinct_keys_def intro: distinct_map_filter)

lemma delete_ok:
  assumes "challenges_ok (s, h)"
  shows "challenges_ok (s\<lparr>agentChallenges := AList.delete c (agentChallenges s)\<rparr>, h)"
  using challenges_okD(1) [OF assms]
  by (intro fewer_challenges_ok [OF assms])
    (simp_all add: distinct_keys_def distinct_delete length_delete_le, auto simp: AList.delete_eq)

lemma oldest_loop_in: "oldest_loop xs (k, t) \<in> insert k (fst ` set xs)"
  by (induction xs "(k, t)" arbitrary: k t rule: oldest_loop.induct) (auto split: if_splits)

lemma oldest_loop_from_zero: "xs \<noteq> [] \<Longrightarrow> oldest_loop xs (k, zero_time) \<in> fst ` set xs"
proof (cases xs)
  case (Cons x rest)
  then show ?thesis using oldest_loop_in [of rest "fst x" "snd x"] by (cases x) simp
qed simp

lemma in_order_keys: "fst ` set (in_order ks m) = fst ` set m"
  by (auto simp: in_order_def map_of_eq_None_iff image_iff) (metis fst_conv)+

lemma delete_shorter: "k \<in> fst ` set m \<Longrightarrow> length (AList.delete k m) < length m"
proof (induction m)
  case (Cons x m)
  then show ?case using length_delete_le [of k m] by (cases x) auto
qed simp

lemma in_order_empty: "in_order ks m = [] \<longleftrightarrow> m = []"
  using in_order_keys [of ks m] by auto

lemma evicted_shorter:
  assumes "m \<noteq> []" "distinct_keys m"
  shows "length (AList.delete (oldest_loop (in_order it m) ([], zero_time)) m) < length m"
  using oldest_loop_from_zero [of "in_order it m"] in_order_keys [of it m] in_order_empty [of it m] assms
  by (intro delete_shorter) auto

lemma length_update_le: "length (AList.update k v m) \<le> Suc (length m)"
  by (induction m) auto

lemma set_update_subset: "set (AList.update k v m) \<subseteq> insert (k, v) (set m)"
  by (induction m) auto

lemma issue_ok:
  assumes "challenges_ok (s, h)"
  shows "challenges_ok (issue_challenge c now it s, h\<lparr>hist_issued := (c, now) # hist_issued h\<rparr>)"
proof -
  let ?s1 = "cleanupAgentAuthState now s"
  define s2 where "s2 = (if length (agentChallenges ?s1) \<ge> maxAgentChallenges then evictOldestChallenge it ?s1 else ?s1)"
  have s1: "challenges_ok (?s1, h)" by (rule cleanup_ok [OF assms])
  have s2: "challenges_ok (s2, h)" using s1 by (simp add: s2_def evictOldestChallenge_def delete_ok)
  have "length (agentChallenges s2) < maxAgentChallenges"
  proof (cases "length (agentChallenges ?s1) \<ge> maxAgentChallenges")
    case True
    then have "agentChallenges ?s1 \<noteq> []" by (auto simp: maxAgentChallenges_def)
    then show ?thesis using evicted_shorter [OF _ challenges_okD(1) [OF s1], of it] challenges_okD(2) [OF s1] True
      by (simp add: s2_def evictOldestChallenge_def)
  qed (simp add: s2_def)
  then have len: "length (AList.update c now (agentChallenges s2)) \<le> maxAgentChallenges"
    using length_update_le [of c now "agentChallenges s2"] by linarith
  have sub: "set (AList.update c now (agentChallenges s2)) \<subseteq> insert (c, now) (set (agentChallenges s2))"
    by (rule set_update_subset)
  have cnt: "count_list (map fst (hist_accepted h)) d + (if map_of (AList.update c now (agentChallenges s2)) d = None then 0 else 1)
      \<le> count_list (map fst ((c, now) # hist_issued h)) d" for d
    using challenges_okD(4) [OF s2, of d] by (auto simp: update_conv' split: if_splits)
  have "issue_challenge c now it s = s2\<lparr>agentChallenges := AList.update c now (agentChallenges s2)\<rparr>"
    by (simp add: issue_challenge_def s2_def Let_def)
  then show ?thesis
    using len sub cnt challenges_okD(1,3,5) [OF s2] unfolding challenges_ok_def
    by (auto simp: distinct_keys_def distinct_update) blast
qed

lemma take_ok:
  assumes "challenges_ok (s, h)" "takeAgentCredentials c nonce ts now s = (ok, s')"
  shows "challenges_ok (s', accept c now ok h)"
proof -
  let ?s1 = "cleanupAgentAuthState now s"
  have s1: "challenges_ok (?s1, h)" by (rule cleanup_ok [OF assms(1)])
  show ?thesis
  proof (cases ok)
    case False
    then have "s' = ?s1" using assms(2) by (auto simp: takeAgentCredentials_def Let_def split: option.splits if_splits)
    then show ?thesis using s1 False by (simp add: accept_def)
  next
    case True
    then obtain t where t: "map_of (agentChallenges ?s1) c = Some t" "now - t \<le> agentChallengeTTL"
      and s': "agentChallenges s' = AList.delete c (agentChallenges ?s1)"
      using assms(2) by (auto simp: takeAgentCredentials_def Let_def split: option.splits if_splits)
    have s'_ok: "challenges_ok (s', h)" using delete_ok [OF s1, of c] s' unfolding challenges_ok_def by simp
    have "(c, t) \<in> set (hist_issued h)" using t(1) challenges_okD(3) [OF s1] by (auto dest: map_of_SomeD)
    moreover have "count_list (map fst ((c, now) # hist_accepted h)) d + (if map_of (agentChallenges s') d = None then 0 else 1)
        \<le> count_list (map fst (hist_issued h)) d" for d
      using challenges_okD(4) [OF s1, of d] t(1) by (cases "d = c") (auto simp: s' delete_conv')
    ultimately show ?thesis using s'_ok True t(2) unfolding challenges_ok_def accept_def by auto
  qed
qed

text \<open>Only a request signed for its own challenge, by the configured key, is let in.\<close>

lemma accepted_is_signed:
  assumes "authenticateAgent A pk now1 now2 rq s = (True, s')"
  shows "\<exists>key signature. raw_url_decode A pk = Some key \<and> raw_url_decode A (h_Signature rq) = Some signature
    \<and> ed25519_Verify A key (AgentAuthMessage (h_Path rq) (h_Timestamp rq) (h_Nonce rq) (h_Challenge rq) (h_HandshakeKey rq)) signature"
  using assms by (auto simp: authenticateAgent_def signed_request_def split: option.splits if_splits)

lemma authenticate_agent_ok:
  assumes "challenges_ok (s, h)"
  shows "authenticateAgent A pk now1 now2 rq s = (ok, s') \<Longrightarrow> challenges_ok (s', accept (h_Challenge rq) now2 ok h)"
    "authenticateAgentVerify A pk now1 now2 rq s = (ok, s') \<Longrightarrow> challenges_ok (s', accept (h_Challenge rq) now2 ok h)"
  using assms
  by (auto simp: authenticateAgent_def authenticateAgentVerify_def accept_def [of _ _ False] take_ok split: option.splits if_splits)

lemma cached_challenges: "agentChallenges (snd (cachedAPIKey d now s)) = agentChallenges s"
  by (auto simp: cachedAPIKey_def split: option.splits)

lemma cache_challenges: "agentChallenges (cacheAPIKey d key now it s) = agentChallenges s"
  by (simp add: cacheAPIKey_def Let_def)

lemma authenticate_challenges:
  "authenticate_begin A k token now s = (a, s') \<Longrightarrow> agentChallenges s' = agentChallenges s"
  "authenticate_end A keys k token now1 now2 it s = (b, s') \<Longrightarrow> agentChallenges s' = agentChallenges s"
  using cached_challenges [of "token_digest A token" now s] cached_challenges [of "token_digest A token" now1 s]
  by (auto simp: authenticate_begin_def authenticate_end_def Let_def cache_challenges split: if_splits option.splits prod.splits)

lemma grant_challenges: "challenges_ok (s, grant token a h) = challenges_ok (s, h)"
  by (simp add: challenges_ok_def grant_def split: auth_answer.splits)

lemma same_challenges: "agentChallenges s' = agentChallenges s \<Longrightarrow> challenges_ok (s', h) = challenges_ok (s, h)"
  by (simp add: challenges_ok_def)

lemma auth_step_challenges: "challenges_ok sh \<Longrightarrow> challenges_ok (auth_step A pk keys sh e)"
proof -
  obtain s h where sh: "sh = (s, h)" by (cases sh)
  assume "challenges_ok sh"
  then have ok: "challenges_ok (s, h)" by (simp add: sh)
  show ?thesis
  proof (cases e)
    case (Ask_challenge c now it)
    then show ?thesis using issue_ok [OF ok] by (simp add: sh)
  next
    case (Key_begin k token now)
    obtain a s' where b: "authenticate_begin A k token now s = (a, s')" by (cases "authenticate_begin A k token now s")
    have "challenges_ok (s', h)" using same_challenges [OF authenticate_challenges(1) [OF b]] ok by simp
    then show ?thesis using Key_begin ok b by (cases a) (simp_all add: sh grant_challenges)
  next
    case (Key_end k now1 now2 it)
    show ?thesis
    proof (cases "map_of (authSlots s) k")
      case (Some token)
      obtain a s' where b: "authenticate_end A keys k token now1 now2 it s = (a, s')" by (cases "authenticate_end A keys k token now1 now2 it s")
      have "challenges_ok (s', h)" using same_challenges [OF authenticate_challenges(2) [OF b]] ok by simp
      then show ?thesis using Key_end Some b by (simp add: sh grant_challenges)
    qed (use Key_end ok sh in simp)
  qed (use authenticate_agent_ok [OF ok] in \<open>auto simp: sh split: prod.splits\<close>)
qed

section \<open>Keys are granted to their own tokens\<close>

definition vouched :: "auth_lib \<Rightarrow> api_key list \<Rightarrow> string \<Rightarrow> api_key \<Rightarrow> bool" where
  "vouched A keys digest key \<longleftrightarrow> key \<in> set keys \<and> (\<exists>token. token_digest A token = digest \<and> bcrypt_matches A (k_KeyHash key) token)"

definition cache_ok :: "auth_lib \<Rightarrow> api_key list \<Rightarrow> auth_state \<Rightarrow> bool" where
  "cache_ok A keys s \<longleftrightarrow> distinct_keys (apiKeyCache s) \<and> length (apiKeyCache s) \<le> maxAPIKeyCacheEntries
     \<and> (\<forall>d e. map_of (apiKeyCache s) d = Some e \<longrightarrow> vouched A keys d (ck_key e))"

definition keys_ok :: "auth_lib \<Rightarrow> api_key list \<Rightarrow> auth_state \<times> auth_history \<Rightarrow> bool" where
  "keys_ok A keys sh \<longleftrightarrow> cache_ok A keys (fst sh) \<and> length (authSlots (fst sh)) \<le> maxConcurrentAPIKeyAuthentications
     \<and> (\<forall>(token, key) \<in> set (hist_granted (snd sh)). vouched A keys (token_digest A token) key)"

lemma cache_okD:
  assumes "cache_ok A keys s"
  shows "distinct_keys (apiKeyCache s)" "length (apiKeyCache s) \<le> maxAPIKeyCacheEntries"
    "map_of (apiKeyCache s) d = Some e \<Longrightarrow> vouched A keys d (ck_key e)"
  using assms by (auto simp: cache_ok_def)

lemma length_update_present: "map_of m k = Some v \<Longrightarrow> length (AList.update k w m) = length m"
  by (induction m) (auto split: if_splits)

lemma cached_ok:
  assumes "cache_ok A keys s" "cachedAPIKey d now s = (a, s')"
  shows "cache_ok A keys s' \<and> authSlots s' = authSlots s \<and> (\<forall>key. a = Some key \<longrightarrow> vouched A keys d key)"
proof (cases "map_of (apiKeyCache s) d")
  case None
  then show ?thesis using assms length_delete_le [of d "apiKeyCache s"]
    by (auto simp: cachedAPIKey_def cache_ok_def distinct_keys_def distinct_delete delete_conv' split: if_splits)
next
  case (Some e)
  then show ?thesis using assms length_delete_le [of d "apiKeyCache s"] length_update_present [OF Some]
    by (auto simp: cachedAPIKey_def cache_ok_def distinct_keys_def distinct_delete distinct_update delete_conv' update_conv' split: if_splits)
qed

lemma filter_map_of: "distinct_keys m \<Longrightarrow> map_of (filter P m) k = Some v \<Longrightarrow> map_of m k = Some v"
  unfolding distinct_keys_def by (metis map_of_SomeD map_of_eq_Some_iff filter_is_subset subsetD)

lemma cacheAPIKey_ok:
  assumes "cache_ok A keys s" "vouched A keys d key"
  shows "cache_ok A keys (cacheAPIKey d key now it s)"
proof -
  define c1 where "c1 = filter (\<lambda>kv. \<not> now > ck_expires (snd kv)) (apiKeyCache s)"
  define victim where "victim = oldest_loop (map (\<lambda>(k, e). (k, ck_lastUsed e)) (in_order it c1)) ([], zero_time)"
  define c2 where "c2 = (if length c1 \<ge> maxAPIKeyCacheEntries then AList.delete victim c1 else c1)"
  have c1: "distinct_keys c1" "length c1 \<le> maxAPIKeyCacheEntries" "map_of c1 k = Some e \<Longrightarrow> map_of (apiKeyCache s) k = Some e" for k e
    using cache_okD(1,2) [OF assms(1)] filter_map_of [OF cache_okD(1) [OF assms(1)]]
    by (auto simp: c1_def distinct_keys_def intro: distinct_map_filter le_trans [OF length_filter_le])
  have "victim \<in> fst ` set c1" if "length c1 \<ge> maxAPIKeyCacheEntries"
  proof -
    have "c1 \<noteq> []" using that by (auto simp: maxAPIKeyCacheEntries_def)
    then have "victim \<in> fst ` set (map (\<lambda>(k, e). (k, ck_lastUsed e)) (in_order it c1))"
      unfolding victim_def by (intro oldest_loop_from_zero) (simp add: in_order_empty)
    also have "\<dots> = fst ` set (in_order it c1)" by (force simp: image_iff)
    finally show ?thesis by (simp only: in_order_keys)
  qed
  then have c2: "length c2 < maxAPIKeyCacheEntries" "distinct_keys c2"
    using delete_shorter [of victim c1] c1(1,2) by (auto simp: c2_def distinct_keys_def distinct_delete)
  have "map_of (apiKeyCache s) k = Some e" if "map_of c2 k = Some e" for k e
    using that c1(3) by (auto simp: c2_def delete_conv' split: if_splits)
  then have "cache_ok A keys (s\<lparr>apiKeyCache := AList.update d \<lparr>ck_key = key, ck_expires = now + apiKeyCacheTTL, ck_lastUsed = now\<rparr> c2\<rparr>)"
    using c2 assms length_update_le [of d _ c2] cache_okD(3) [OF assms(1)]
    by (auto simp: cache_ok_def distinct_keys_def distinct_update update_conv' Suc_le_eq intro: le_trans [OF length_update_le] split: if_splits)
  moreover have "cacheAPIKey d key now it s = s\<lparr>apiKeyCache := AList.update d \<lparr>ck_key = key, ck_expires = now + apiKeyCacheTTL, ck_lastUsed = now\<rparr> c2\<rparr>"
    by (simp add: cacheAPIKey_def c1_def c2_def victim_def Let_def)
  ultimately show ?thesis by simp
qed

lemma slots_cache [simp]: "cache_ok A keys (s\<lparr>authSlots := x\<rparr>) = cache_ok A keys s"
  by (simp add: cache_ok_def)

lemma cacheAPIKey_slots [simp]: "authSlots (cacheAPIKey d key now it s) = authSlots s"
  by (simp add: cacheAPIKey_def Let_def)

lemma authenticate_begin_ok:
  assumes "cache_ok A keys s" "length (authSlots s) \<le> maxConcurrentAPIKeyAuthentications" "authenticate_begin A k token now s = (a, s')"
  shows "cache_ok A keys s' \<and> length (authSlots s') \<le> maxConcurrentAPIKeyAuthentications
    \<and> (\<forall>key. a = Some (Granted key) \<longrightarrow> vouched A keys (token_digest A token) key)"
proof (cases "cachedAPIKey (token_digest A token) now s")
  case (Pair c s1)
  note s1 = cached_ok [OF assms(1) Pair]
  have "length (AList.update k token (authSlots s1)) \<le> maxConcurrentAPIKeyAuthentications"
    if "\<not> length (authSlots s1) \<ge> maxConcurrentAPIKeyAuthentications"
    using length_update_le [of k token "authSlots s1"] that by linarith
  then show ?thesis using assms s1 Pair by (cases c) (auto simp: authenticate_begin_def split: if_splits)
qed

lemma authenticate_end_ok:
  assumes "cache_ok A keys s" "length (authSlots s) \<le> maxConcurrentAPIKeyAuthentications" "authenticate_end A keys k token now1 now2 it s = (a, s')"
  shows "cache_ok A keys s' \<and> length (authSlots s') \<le> maxConcurrentAPIKeyAuthentications
    \<and> (\<forall>key. a = Granted key \<longrightarrow> vouched A keys (token_digest A token) key)"
proof (cases "cachedAPIKey (token_digest A token) now1 s")
  case (Pair c s1)
  note s1 = cached_ok [OF assms(1) Pair]
  have v: "vouched A keys (token_digest A token) key" if "List.find (\<lambda>key. bcrypt_matches A (k_KeyHash key) token) keys = Some key" for key
    using that by (auto simp: find_Some_iff vouched_def)
  have len: "length (AList.delete k (authSlots s1)) \<le> maxConcurrentAPIKeyAuthentications"
    using s1 assms(2) length_delete_le [of k "authSlots s1"] by simp
  show ?thesis
  proof (cases c)
    case (Some key)
    then show ?thesis using assms(3) s1 len Pair by (auto simp: authenticate_end_def Let_def)
  next
    case None
    then show ?thesis using assms(3) s1 len v Pair
      by (cases "List.find (\<lambda>key. bcrypt_matches A (k_KeyHash key) token) keys")
        (auto simp: authenticate_end_def Let_def cacheAPIKey_ok)
  qed
qed

lemma take_keeps_keys: "takeAgentCredentials c nonce ts now s = (ok, s') \<Longrightarrow> apiKeyCache s' = apiKeyCache s \<and> authSlots s' = authSlots s"
  by (auto simp: takeAgentCredentials_def cleanupAgentAuthState_def Let_def split: option.splits if_splits)

lemma agent_keeps_keys:
  "authenticateAgent A pk now1 now2 rq s = (ok, s') \<Longrightarrow> apiKeyCache s' = apiKeyCache s \<and> authSlots s' = authSlots s"
  "authenticateAgentVerify A pk now1 now2 rq s = (ok, s') \<Longrightarrow> apiKeyCache s' = apiKeyCache s \<and> authSlots s' = authSlots s"
  by (auto simp: authenticateAgent_def authenticateAgentVerify_def split: option.splits if_splits dest: take_keeps_keys)

lemma issue_keeps_keys: "apiKeyCache (issue_challenge c now it s) = apiKeyCache s" "authSlots (issue_challenge c now it s) = authSlots s"
  by (simp_all add: issue_challenge_def cleanupAgentAuthState_def evictOldestChallenge_def Let_def)

lemma keys_ok_grant:
  assumes "cache_ok A keys s'" "length (authSlots s') \<le> maxConcurrentAPIKeyAuthentications" "keys_ok A keys (s, h)"
    "\<And>key. a = Granted key \<Longrightarrow> vouched A keys (token_digest A token) key"
  shows "keys_ok A keys (s', grant token a h)"
  using assms by (cases a) (auto simp: keys_ok_def grant_def)

lemma keys_ok_same:
  "keys_ok A keys (s, h) \<Longrightarrow> apiKeyCache s' = apiKeyCache s \<Longrightarrow> authSlots s' = authSlots s \<Longrightarrow> hist_granted h' = hist_granted h \<Longrightarrow> keys_ok A keys (s', h')"
  by (simp add: keys_ok_def cache_ok_def)

lemma accept_granted [simp]: "hist_granted (accept c now ok h) = hist_granted h"
  by (simp add: accept_def)

lemma auth_step_keys: "keys_ok A keys sh \<Longrightarrow> keys_ok A keys (auth_step A pk keys sh e)"
proof -
  obtain s h where sh: "sh = (s, h)" by (cases sh)
  assume "keys_ok A keys sh"
  then have ok: "keys_ok A keys (s, h)" and s: "cache_ok A keys s" "length (authSlots s) \<le> maxConcurrentAPIKeyAuthentications"
    by (auto simp: sh keys_ok_def)
  show ?thesis
  proof (cases e)
    case (Ask_challenge c now it)
    then show ?thesis using keys_ok_same [OF ok issue_keeps_keys] by (simp add: sh)
  next
    case (Agent_connects now1 now2 rq)
    then show ?thesis using agent_keeps_keys(1) [of A pk now1 now2 rq s] by (auto simp: sh split: prod.splits intro: keys_ok_same [OF ok])
  next
    case (Agent_verifies now1 now2 rq)
    then show ?thesis using agent_keeps_keys(2) [of A pk now1 now2 rq s] by (auto simp: sh split: prod.splits intro: keys_ok_same [OF ok])
  next
    case (Key_begin k token now)
    obtain a s' where b: "authenticate_begin A k token now s = (a, s')" by (cases "authenticate_begin A k token now s")
    note s' = authenticate_begin_ok [OF s b]
    show ?thesis
    proof (cases a)
      case None
      then show ?thesis using Key_begin ok b s' by (auto simp: sh keys_ok_def)
    next
      case (Some x)
      then show ?thesis using Key_begin ok b s' by (auto simp: sh intro!: keys_ok_grant [OF _ _ ok])
    qed
  next
    case (Key_end k now1 now2 it)
    show ?thesis
    proof (cases "map_of (authSlots s) k")
      case (Some token)
      obtain a s' where b: "authenticate_end A keys k token now1 now2 it s = (a, s')" by (cases "authenticate_end A keys k token now1 now2 it s")
      then show ?thesis using Key_end Some authenticate_end_ok [OF s b] by (auto simp: sh intro!: keys_ok_grant [OF _ _ ok])
    qed (use Key_end ok sh in simp)
  qed
qed

section \<open>Authentication as a whole\<close>

definition fresh_auth :: "auth_state \<times> auth_history \<Rightarrow> bool" where
  "fresh_auth sh \<longleftrightarrow> sh = (empty_auth, \<lparr>hist_issued = [], hist_accepted = [], hist_granted = []\<rparr>)"

interpretation authentication: component fresh_auth "auth_step A pk keys" "\<lambda>sh. challenges_ok sh \<and> keys_ok A keys sh" for A pk keys
proof
  show "challenges_ok sh \<and> keys_ok A keys sh" if "fresh_auth sh" for sh
    using that by (simp add: fresh_auth_def challenges_ok_def keys_ok_def cache_ok_def empty_auth_def distinct_keys_def)
  show "challenges_ok (auth_step A pk keys sh e) \<and> keys_ok A keys (auth_step A pk keys sh e)" if "challenges_ok sh \<and> keys_ok A keys sh" for sh e
    using that auth_step_challenges auth_step_keys by blast
qed

text \<open>
  C7: whatever requests the gateway answers, no challenge lets an agent in more often than it was issued, so one that is
  drawn once is good for one connection or verification; it is only accepted within a minute of being issued; and never more
  than 1024 challenges are outstanding, 1024 API keys cached and four key comparisons under way.
\<close>

theorem challenges_are_used_once:
  assumes "fresh_auth start" "(s, h) = run (auth_step A pk keys) start es"
  shows "count_list (map fst (hist_accepted h)) c \<le> count_list (map fst (hist_issued h)) c
    \<and> (\<forall>now. (c, now) \<in> set (hist_accepted h) \<longrightarrow> (\<exists>t. (c, t) \<in> set (hist_issued h) \<and> now - t \<le> agentChallengeTTL))
    \<and> length (agentChallenges s) \<le> maxAgentChallenges \<and> length (apiKeyCache s) \<le> maxAPIKeyCacheEntries
    \<and> length (authSlots s) \<le> maxConcurrentAPIKeyAuthentications"
proof -
  have ok: "challenges_ok (s, h)" "keys_ok A keys (s, h)"
    using authentication.reachable_inv [OF assms(1), of A pk keys es] assms(2) by simp_all
  then show ?thesis using challenges_okD(2) [OF ok(1)] challenges_okD(4) [OF ok(1), of c] challenges_okD(5) [OF ok(1), of c]
    by (auto simp: keys_ok_def cache_ok_def split: if_splits)
qed


definition sample_auth_lib :: auth_lib where
  "sample_auth_lib = \<lparr>raw_url_decode = (\<lambda>s. Some (if s = ''pk'' then replicate 32 (CHR ''k'') else replicate 64 (CHR ''s''))),
     ed25519_Verify = (\<lambda>key m signature. True), parse_RFC3339 = (\<lambda>s. Some 0), token_digest = (\<lambda>t. t), bcrypt_matches = (\<lambda>h t. h = t)\<rparr>"

definition sample_headers :: agent_headers where
  "sample_headers = \<lparr>h_Path = ''/ws/agent'', h_Timestamp = ''t'', h_Nonce = ''n'', h_Signature = ''s'', h_Challenge = ''c'', h_HandshakeKey = ''k''\<rparr>"

definition sample_key :: api_key where
  "sample_key = \<lparr>k_Name = ''a'', k_KeyHash = ''secret'', k_Capabilities = [''*'']\<rparr>"

definition sample_auth_events :: "auth_event list" where
  "sample_auth_events = [Ask_challenge ''c'' 5 [], Agent_connects 6 7 sample_headers, Agent_connects 6 8 sample_headers,
     Key_begin 0 ''secret'' 9, Key_end 0 9 9 [], Key_begin 1 ''secret'' 10, Key_begin 2 ''wrong'' 11, Key_end 2 12 12 []]"

definition sample_auth_end :: "auth_state \<times> auth_history" where
  "sample_auth_end = run (auth_step sample_auth_lib ''pk'' [sample_key]) (empty_auth, \<lparr>hist_issued = [], hist_accepted = [], hist_granted = []\<rparr>) sample_auth_events"

lemma sample_auth_history:
  "hist_accepted (snd sample_auth_end) = [(''c'', 7)]" "hist_issued (snd sample_auth_end) = [(''c'', 5)]"
  "hist_granted (snd sample_auth_end) = [(''secret'', sample_key), (''secret'', sample_key)]"
  by code_simp+

lemma sample_auth_run:
  "fresh_auth (empty_auth, \<lparr>hist_issued = [], hist_accepted = [], hist_granted = []\<rparr>)"
  "(fst sample_auth_end, snd sample_auth_end)
     = run (auth_step sample_auth_lib ''pk'' [sample_key]) (empty_auth, \<lparr>hist_issued = [], hist_accepted = [], hist_granted = []\<rparr>) sample_auth_events"
  by (simp_all add: fresh_auth_def sample_auth_end_def)

theorem challenges_are_used_once_witness:
  "count_list (map fst (hist_accepted (snd sample_auth_end))) ''c'' = 1
   \<and> count_list (map fst (hist_accepted (snd sample_auth_end))) ''c'' \<le> count_list (map fst (hist_issued (snd sample_auth_end))) ''c''"
proof
  show "count_list (map fst (hist_accepted (snd sample_auth_end))) ''c'' = 1" by (simp add: sample_auth_history)
  show "count_list (map fst (hist_accepted (snd sample_auth_end))) ''c'' \<le> count_list (map fst (hist_issued (snd sample_auth_end))) ''c''"
    by (rule challenges_are_used_once [OF sample_auth_run, THEN conjunct1])
qed


end
