(* ===== verification/Spec2Isabelle.thy ===== *)
theory Spec2Isabelle
  imports Scheduler Transfers Ws_Frame Artifact_Store Input_Files Controller Gateway_Auth
begin

text \<open>
  \<^bold>\<open>onprest: a gateway and an agent that run configured capabilities on premises.\<close>

  A caller reaches the gateway over REST or MCP. The gateway forwards a request over one WebSocket connection to the
  agent, which checks it against the capability's compiled contract, runs the configured provider (a database, a CSV or
  other file, HTTP, or WebAssembly) and publishes the result; files travel in both directions in windowed transfers over the
  same connection and rest in a bounded store while a request is under way. This development models the agent's path from
  the wire to the database and back, the contract package both sides share, and how the gateway authenticates both. Paths below are relative to
  \<^verbatim>\<open>src/internal\<close>.

  \<^bold>\<open>Conventions.\<close> Go strings and byte slices are lists of bytes (\<^typ>\<open>string\<close>); int64 values are integers with the wrap
  around written out (\<open>wrap64\<close>) or shown absent (\<open>in_int64\<close>); a Go map is an association list with distinct keys where its
  size or order matters; an \<^verbatim>\<open>any\<close> is the datatype \<open>val\<close>; errors are values of a sum. What the program takes from elsewhere
  is a parameter: regular expressions, URL, duration and number parsing and SHA-256 are the fields of the record \<open>stdlib\<close>, the
  disk, the clock, contexts and database drivers are answers handed to the operation that asks for them. Concurrent code is cut
  into the pieces its locks make atomic; each piece is a function on the state, an event names a piece with its answers, and
  an execution is \<open>run\<close> of any list of events. A property of every interleaving is an invariant through the locale
  \<open>component\<close>, interpreted for the scheduler, the transfer table, the artifact store, the provider leases, the executions and the
  gateway's authentication.

  \<^bold>\<open>The theories.\<close>

  \<^item> \<open>Prelude\<close> (locale \<open>component\<close>, \<open>run\<close>), \<open>Go_Lib\<close> (integers, maps and their totals, UTF-8, base64) and \<open>Result\<close> (errors,
    iteration with early return): what the components share.

  \<^item> \<open>Rate_Limit\<close> (\<^verbatim>\<open>agent/rate_limit.go\<close>): the token bucket with 64-bit clamped arithmetic decides as an ideal bucket over the
    integers and admits at most what its definition allows.

  \<^item> \<open>Scheduler\<close> (\<^verbatim>\<open>ws/scheduler.go\<close>): bounded queues for frames; every job accepted is reported once, lanes are FIFO (locale
    \<open>lane_queue\<close>), transfers are not starved.

  \<^item> \<open>Frames\<close> (\<^verbatim>\<open>protocol/transfer.go\<close>) and \<open>Transfers\<close> (\<^verbatim>\<open>ws/transfer.go\<close>): chunk frames and windowed transfers; windows, the
    table and the connection stay within their bounds, refused frames change nothing.

  \<^item> \<open>Ws_Frame\<close> (\<^verbatim>\<open>ws/ws.go\<close>): frames are read back as written and accepted only in canonical form, messages are reassembled
    within the size limit.

  \<^item> \<open>Sql_Syntax\<close> (\<^verbatim>\<open>sqlsyntax/sql.go\<close>, \<^verbatim>\<open>agent/sql.go\<close>): protected text, statement classification and parameter binding.

  \<^item> \<open>Json_Integer\<close>, \<open>Json_Value\<close> (\<^verbatim>\<open>contract/json_integer.go\<close>, \<^verbatim>\<open>canonical.go\<close>, \<^verbatim>\<open>input.go\<close>): exact integers, canonical JSON and
    the one-pass limit check. \<open>Raw_Config\<close> (\<^verbatim>\<open>yaml.go\<close>), \<open>Pattern\<close> (\<^verbatim>\<open>pattern.go\<close>, \<^verbatim>\<open>pattern_ecma.go\<close>), \<open>Schema\<close>,
    \<open>Schema_Compile\<close>, \<open>Validation\<close> (\<^verbatim>\<open>schema.go\<close>, \<^verbatim>\<open>input.go\<close>), \<open>Binding\<close> (\<^verbatim>\<open>binding.go\<close>): from configuration text to a compiled
    schema, and what accepted input satisfies.

  \<^item> \<open>Csv\<close> (\<^verbatim>\<open>agent/csv_parser.go\<close>, \<^verbatim>\<open>provider_csv.go\<close>, \<^verbatim>\<open>contract/csv_output.go\<close>) and \<open>Output\<close> (\<^verbatim>\<open>contract/output.go\<close>): reading and
    writing CSV, and publication with all its cleanup.

  \<^item> \<open>Artifact_Store\<close> (\<^verbatim>\<open>agent/artifacts/store.go\<close>, \<^verbatim>\<open>input.go\<close>, \<^verbatim>\<open>output.go\<close>, \<^verbatim>\<open>scratch.go\<close>): the bounded store with its owners,
    stages, readers, reservations and leases.

  \<^item> \<open>Input_Files\<close> (\<^verbatim>\<open>agent/input_commit.go\<close>): received files take the places of their placeholders in the parameters.
    \<open>Gateway_Auth\<close> (\<^verbatim>\<open>gateway/auth.go\<close>): one-time challenges for the agent, API keys and their cache.

  \<^item> \<open>Lifecycle\<close> (\<^verbatim>\<open>agent/providers/lifecycle.go\<close>, \<^verbatim>\<open>failure.go\<close>, \<^verbatim>\<open>contract/envelope.go\<close>): prepared providers, leases, the record of
    effects, public errors. \<open>Mutations\<close> (\<^verbatim>\<open>agent/provider_db.go\<close>, \<^verbatim>\<open>executor.go\<close>, \<^verbatim>\<open>db_errors.go\<close>): transactions and queries, with
    what the driver is trusted with in the predicate \<open>lawful\<close>. \<open>Controller\<close> (\<^verbatim>\<open>agent/controller.go\<close>): admission, limits and the
    whole of \<^verbatim>\<open>Execute\<close>, composed with validation, the rate limiter, publication and the database provider; its theorems span
    these components.

  \<^bold>\<open>Bounds and fuel.\<close> No operation runs on fuel chosen by the development. Loops over input recurse on it; the
  copy loop of publication recurses on the reads its source has left, and its termination is a property; the limits that
  appear as numbers (16 MiB messages, 65536-byte chunks, windows of 4 and 32, 300 seconds) are the program's own.

  \<^bold>\<open>Not modelled.\<close>

  \<^item> The gateway's HTTP, MCP and OpenAPI handlers, its connection to the agent, and ingress and download of
    files: request routing and streaming around net/http and timers. Signatures, password hashes and digests are parameters of
    \<open>Gateway_Auth\<close>.

  \<^item> The agent's transport session, runner, command line, service installation, logging and diagnostics: goroutines over
    sockets, files and operating system services.

  \<^item> Durable saves (\<^verbatim>\<open>agent/artifacts/save.go\<close>), the file system layer and the file, HTTP and WebAssembly providers with their
    host services: their behaviour is that of the operating system, the network or the WebAssembly engine. A durable
    save that cannot clean up charges the store with what is left on disk, also beyond the quota; the quota theorem is about
    the calls of \<open>store_op\<close>.

  \<^item> The compilation of whole capability files (\<^verbatim>\<open>contract/config.go\<close>, \<^verbatim>\<open>capability.go\<close> and the per-provider configuration) beyond
    schemas, patterns and bindings; the unversioned configuration of \<^verbatim>\<open>agent/capability.go\<close>.

  \<^item> Panics inside a publication that runs within a transaction, the redaction of diagnostics, and data races: the pieces
    that hold a lock are taken as atomic.
\<close>

end
